(* ===== verification/Prelude.thy ===== *)
theory Prelude
  imports Main "HOL-Library.Word"
begin

text \<open>
  Shared vocabulary of the development: machine integers, byte strings, the big- and little-endian
  conversions of \<^verbatim>\<open>u32\<close>, the slice operation \<^verbatim>\<open>Iterator::position\<close>, decimal printing and
  parsing as \<^verbatim>\<open>ToString\<close> and \<^verbatim>\<open>FromStr\<close> do it for the integer types, and the lemma collections
  that the component theories extend. Everything here belongs to the Rust language or its standard
  library; nothing here models a line of the repository.
\<close>

unbundle bit_operations_syntax

section \<open>Types and lemma collections\<close>

type_synonym u8 = "8 word"
type_synonym u16 = "16 word"
type_synonym u32 = "32 word"
type_synonym u64 = "64 word"

text \<open>\<^verbatim>\<open>Bytes\<close>, \<^verbatim>\<open>&[u8]\<close> and, when the content is UTF-8, \<^verbatim>\<open>String\<close> and \<^verbatim>\<open>&str\<close>.\<close>

type_synonym bytes = "u8 list"

text \<open>
  \<open>wire\<close> collects the facts about the binary framing, \<open>text_proto\<close> those about text lines,
  \<open>actor_simps\<close> the unfolding of the client actor's transitions and \<open>grab_simps\<close> those of the
  worker's grab loop.
\<close>

named_theorems wire "facts about the binary framing"
named_theorems text_proto "facts about the text protocol"
named_theorems actor_simps "unfolding of the client actor"
named_theorems grab_simps "unfolding of the worker grab loop"

definition ascii :: "string \<Rightarrow> bytes" where
  "ascii s = map of_char s"

lemma ascii_simps [simp]:
  "ascii [] = []" "ascii (c # s) = of_char c # ascii s" "ascii (s @ t) = ascii s @ ascii t"
  by (simp_all add: ascii_def)

section \<open>Fixed-width integers as bytes\<close>

definition to_be_bytes :: "u32 \<Rightarrow> bytes" where
  "to_be_bytes w = [ucast (drop_bit 24 w), ucast (drop_bit 16 w), ucast (drop_bit 8 w), ucast w]"

definition from_be_bytes :: "u8 \<Rightarrow> u8 \<Rightarrow> u8 \<Rightarrow> u8 \<Rightarrow> u32" where
  "from_be_bytes a b c d =
     push_bit 24 (ucast a) OR push_bit 16 (ucast b) OR push_bit 8 (ucast c) OR ucast d"

definition from_le_bytes :: "u8 \<Rightarrow> u8 \<Rightarrow> u8 \<Rightarrow> u8 \<Rightarrow> u32" where
  "from_le_bytes a b c d = from_be_bytes d c b a"

lemma length_to_be_bytes [simp]: "length (to_be_bytes w) = 4"
  by (simp add: to_be_bytes_def)

lemma from_to_be_bytes:
  "from_be_bytes (ucast (drop_bit 24 w)) (ucast (drop_bit 16 w)) (ucast (drop_bit 8 w)) (ucast w)
   = w"
  unfolding from_be_bytes_def
proof (rule bit_word_eqI)
  fix n :: nat
  assume "n < LENGTH(32)"
  then consider "n < 8" | "8 \<le> n" "n < 16" | "16 \<le> n" "n < 24" | "24 \<le> n" "n < 32"
    by fastforce
  then show "bit (push_bit 24 (ucast (ucast (drop_bit 24 w) :: u8) :: u32)
      OR push_bit 16 (ucast (ucast (drop_bit 16 w) :: u8))
      OR push_bit 8 (ucast (ucast (drop_bit 8 w) :: u8)) OR ucast (ucast w :: u8)) n = bit w n"
    by cases (auto simp: bit_simps)
qed

lemma u8_bit_out: "8 \<le> n \<Longrightarrow> \<not> bit (b :: u8) n"
  using bit_imp_le_length [of b n] by auto

lemma to_from_be_bytes: "to_be_bytes (from_be_bytes a b c d) = [a, b, c, d]"
  unfolding to_be_bytes_def from_be_bytes_def
  by (auto intro!: bit_word_eqI simp: bit_simps u8_bit_out)

lemma from_be_bytes_inject:
  "from_be_bytes a b c d = from_be_bytes a' b' c' d' \<longleftrightarrow> a = a' \<and> b = b' \<and> c = c' \<and> d = d'"
proof
  assume "from_be_bytes a b c d = from_be_bytes a' b' c' d'"
  from arg_cong [OF this, of to_be_bytes] show "a = a' \<and> b = b' \<and> c = c' \<and> d = d'"
    by (simp add: to_from_be_bytes)
qed simp

end
