(* ===== verification/Rust_Text.thy ===== *)
theory Rust_Text
  imports Prelude
begin

text \<open>
  The part of the standard library's \<^verbatim>\<open>str\<close> the program uses, on the UTF-8 bytes of the string:
  validity (\<^verbatim>\<open>str::from_utf8\<close>), splitting and trimming, and decimal printing and parsing of
  integers. Splitting at an ASCII character on bytes is splitting at that character, because no
  byte of a multi-byte character is below 128.
\<close>

section \<open>UTF-8 validity\<close>

definition utf8_cont :: "u8 \<Rightarrow> bool" where
  "utf8_cont b \<longleftrightarrow> 0x80 \<le> b \<and> b \<le> 0xBF"

definition utf8_second3 :: "u8 \<Rightarrow> u8 \<Rightarrow> bool" where
  "utf8_second3 a b \<longleftrightarrow>
     (a = 0xE0 \<and> 0xA0 \<le> b \<and> b \<le> 0xBF)
   \<or> ((0xE1 \<le> a \<and> a \<le> 0xEC \<or> 0xEE \<le> a \<and> a \<le> 0xEF) \<and> utf8_cont b)
   \<or> (a = 0xED \<and> 0x80 \<le> b \<and> b \<le> 0x9F)"

definition utf8_second4 :: "u8 \<Rightarrow> u8 \<Rightarrow> bool" where
  "utf8_second4 a b \<longleftrightarrow>
     (a = 0xF0 \<and> 0x90 \<le> b \<and> b \<le> 0xBF)
   \<or> (0xF1 \<le> a \<and> a \<le> 0xF3 \<and> utf8_cont b)
   \<or> (a = 0xF4 \<and> 0x80 \<le> b \<and> b \<le> 0x8F)"

text \<open>The number of bytes of the well-formed character at the head; 0 when there is none.\<close>

fun utf8_char :: "bytes \<Rightarrow> nat" where
  "utf8_char [] = 0"
| "utf8_char (a # r) =
     (if a \<le> 0x7F then 1
      else case r of
        [] \<Rightarrow> 0
      | b # r2 \<Rightarrow>
          if 0xC2 \<le> a \<and> a \<le> 0xDF then (if utf8_cont b then 2 else 0)
          else (case r2 of
            [] \<Rightarrow> 0
          | c # r3 \<Rightarrow>
              if utf8_second3 a b then (if utf8_cont c then 3 else 0)
              else (case r3 of
                [] \<Rightarrow> 0
              | d # _ \<Rightarrow> if utf8_second4 a b \<and> utf8_cont c \<and> utf8_cont d then 4 else 0)))"

function utf8_valid :: "bytes \<Rightarrow> bool" where
  "utf8_valid s =
     (if s = [] then True
      else if utf8_char s = 0 then False
      else utf8_valid (drop (utf8_char s) s))"
  by pat_completeness auto
termination
  by (relation "measure length") auto

declare utf8_valid.simps [simp del]

lemma utf8_valid_Nil [simp]: "utf8_valid []"
  by (simp add: utf8_valid.simps)

lemma utf8_valid_ascii_Cons [simp]: "a \<le> 0x7F \<Longrightarrow> utf8_valid (a # s) = utf8_valid s"
  by (subst utf8_valid.simps) simp

lemma utf8_valid_ascii: "\<forall>b \<in> set s. b \<le> 0x7F \<Longrightarrow> utf8_valid s"
  by (induction s) auto

lemma bytes_shapes:
  fixes s :: bytes
  obtains "s = []" | a where "s = [a]" | a b where "s = [a, b]" | a b c where "s = [a, b, c]"
    | a b c d r where "s = a # b # c # d # r"
  by (metis neq_Nil_conv)

lemma utf8_char_le: "utf8_char s \<le> length s"
  by (rule bytes_shapes [of s]) simp_all

lemma utf8_char_append: "utf8_char a \<noteq> 0 \<Longrightarrow> utf8_char (a @ b) = utf8_char a"
  by (rule bytes_shapes [of a]) (simp_all split: if_splits)

lemma utf8_valid_append: "\<lbrakk>utf8_valid a; utf8_valid b\<rbrakk> \<Longrightarrow> utf8_valid (a @ b)"
proof (induction a rule: utf8_valid.induct)
  case (1 a)
  show ?case
  proof (cases "a = []")
    case False
    with "1.prems"(1) have n: "utf8_char a \<noteq> 0" and v: "utf8_valid (drop (utf8_char a) a)"
      by (auto simp: utf8_valid.simps [of a] split: if_splits)
    from "1.IH" [OF False n v "1.prems"(2)]
    have "utf8_valid (drop (utf8_char a) (a @ b))" using utf8_char_le [of a] by simp
    then show ?thesis using False n by (subst utf8_valid.simps) (simp add: utf8_char_append)
  qed (use "1.prems" in simp)
qed

section \<open>Splitting and stripping\<close>

fun position :: "('a \<Rightarrow> bool) \<Rightarrow> 'a list \<Rightarrow> nat option" where
  "position P [] = None"
| "position P (x # xs) = (if P x then Some 0 else map_option Suc (position P xs))"

lemma position_Some:
  "position P xs = Some k \<Longrightarrow> k < length xs \<and> P (xs ! k) \<and> (\<forall>x \<in> set (take k xs). \<not> P x)"
  by (induction xs arbitrary: k) (auto split: if_splits)

lemma position_append_hit:
  "\<lbrakk>\<forall>x \<in> set xs. \<not> P x; P y\<rbrakk> \<Longrightarrow> position P (xs @ y # ys) = Some (length xs)"
  by (induction xs) auto

lemma position_None: "position P xs = None \<longleftrightarrow> (\<forall>x \<in> set xs. \<not> P x)"
  by (induction xs) auto

lemma position_split:
  "position P xs = Some k \<Longrightarrow> xs = take k xs @ xs ! k # drop (Suc k) xs"
  using position_Some [of P xs k] by (simp add: id_take_nth_drop)

text \<open>\<^verbatim>\<open>str::split\<close> at one ASCII character: always at least one field.\<close>

fun split_byte :: "u8 \<Rightarrow> bytes \<Rightarrow> bytes list" where
  "split_byte sep [] = [[]]"
| "split_byte sep (b # bs) =
     (if b = sep then [] # split_byte sep bs
      else case split_byte sep bs of [] \<Rightarrow> [[b]] | f # fs \<Rightarrow> (b # f) # fs)"

definition split_once :: "u8 \<Rightarrow> bytes \<Rightarrow> (bytes \<times> bytes) option" where
  "split_once sep s = map_option (\<lambda>k. (take k s, drop (Suc k) s)) (position (\<lambda>b. b = sep) s)"

definition rsplit_once :: "u8 \<Rightarrow> bytes \<Rightarrow> (bytes \<times> bytes) option" where
  "rsplit_once sep s = map_option (\<lambda>(a, b). (rev b, rev a)) (split_once sep (rev s))"

fun strip_prefix :: "bytes \<Rightarrow> bytes \<Rightarrow> bytes option" where
  "strip_prefix [] s = Some s"
| "strip_prefix (p # ps) [] = None"
| "strip_prefix (p # ps) (b # bs) = (if b = p then strip_prefix ps bs else None)"

definition strip_suffix :: "bytes \<Rightarrow> bytes \<Rightarrow> bytes option" where
  "strip_suffix p s = map_option rev (strip_prefix (rev p) (rev s))"

lemma split_byte_nonempty [simp]: "split_byte sep s \<noteq> []"
  by (induction s) (auto split: list.splits)

lemma split_byte_no_sep: "sep \<notin> set f \<Longrightarrow> split_byte sep f = [f]"
  by (induction f) auto

lemma split_byte_append: "sep \<notin> set f \<Longrightarrow> split_byte sep (f @ sep # s) = f # split_byte sep s"
  by (induction f) auto

lemma split_once_hit: "sep \<notin> set a \<Longrightarrow> split_once sep (a @ sep # b) = Some (a, b)"
proof -
  assume "sep \<notin> set a"
  then have "position (\<lambda>x. x = sep) (a @ sep # b) = Some (length a)"
    by (intro position_append_hit) auto
  then show ?thesis by (simp add: split_once_def)
qed

lemma split_once_None: "split_once sep s = None \<longleftrightarrow> sep \<notin> set s"
  by (auto simp: split_once_def position_None)

lemma split_once_Some:
  "split_once sep s = Some (a, b) \<longleftrightarrow> s = a @ sep # b \<and> sep \<notin> set a"
proof
  assume "split_once sep s = Some (a, b)"
  then obtain k where k: "position (\<lambda>x. x = sep) s = Some k" "a = take k s" "b = drop (Suc k) s"
    by (auto simp: split_once_def)
  from position_split [OF k(1)] position_Some [OF k(1)] k(2,3)
  show "s = a @ sep # b \<and> sep \<notin> set a" by auto
qed (simp add: split_once_hit)

lemma rsplit_once_hit: "sep \<notin> set b \<Longrightarrow> rsplit_once sep (a @ sep # b) = Some (a, b)"
  by (simp add: rsplit_once_def split_once_hit)

lemma rsplit_once_None: "rsplit_once sep s = None \<longleftrightarrow> sep \<notin> set s"
  by (simp add: rsplit_once_def split_once_None)

lemma strip_prefix_append [simp]: "strip_prefix p (p @ s) = Some s"
  by (induction p) auto

lemma strip_prefix_Some: "strip_prefix p s = Some r \<longleftrightarrow> s = p @ r"
  by (induction p s rule: strip_prefix.induct) auto

lemma strip_suffix_append [simp]: "strip_suffix p (s @ p) = Some s"
  by (simp add: strip_suffix_def)

lemma strip_suffix_Some: "strip_suffix p s = Some r \<longleftrightarrow> s = r @ p"
  by (auto simp: strip_suffix_def strip_prefix_Some rev_swap)

section \<open>White space\<close>

text \<open>
  The number of bytes of the leading character with the Unicode property \<^verbatim>\<open>White_Space\<close>; 0 when
  the head is no such character.
\<close>

fun ws_char :: "bytes \<Rightarrow> nat" where
  "ws_char [] = 0"
| "ws_char (a # r) =
     (if 0x09 \<le> a \<and> a \<le> 0x0D \<or> a = 0x20 then 1
      else case r of
        [] \<Rightarrow> 0
      | b # r2 \<Rightarrow>
          if a = 0xC2 \<and> (b = 0x85 \<or> b = 0xA0) then 2
          else (case r2 of
            [] \<Rightarrow> 0
          | c # _ \<Rightarrow>
              if a = 0xE1 \<and> b = 0x9A \<and> c = 0x80
               \<or> a = 0xE2 \<and> b = 0x80 \<and> (0x80 \<le> c \<and> c \<le> 0x8A \<or> c = 0xA8 \<or> c = 0xA9 \<or> c = 0xAF)
               \<or> a = 0xE2 \<and> b = 0x81 \<and> c = 0x9F
               \<or> a = 0xE3 \<and> b = 0x80 \<and> c = 0x80
              then 3 else 0))"

function trim_start :: "bytes \<Rightarrow> bytes" where
  "trim_start s = (if 0 < ws_char s then trim_start (drop (ws_char s) s) else s)"
  by pat_completeness auto
termination
  by (relation "measure length") (auto intro!: diff_less)

declare trim_start.simps [simp del]

lemma trim_start_Nil [simp]: "trim_start [] = []"
  by (simp add: trim_start.simps)

text \<open>\<open>cur\<close> is the field read so far; empty fields are not reported.\<close>

function split_ws :: "bytes \<Rightarrow> bytes \<Rightarrow> bytes list" where
  "split_ws cur [] = (if cur = [] then [] else [cur])"
| "split_ws cur (b # bs) =
     (if 0 < ws_char (b # bs)
      then (if cur = [] then [] else [cur]) @ split_ws [] (drop (ws_char (b # bs)) (b # bs))
      else split_ws (cur @ [b]) bs)"
  by pat_completeness auto
termination
  by (relation "measure (length \<circ> snd)") (auto simp del: ws_char.simps simp: drop_Cons')

declare split_ws.simps(2) [simp del]

definition split_whitespace :: "bytes \<Rightarrow> bytes list" where
  "split_whitespace s = split_ws [] s"

fun ws_free :: "bytes \<Rightarrow> bool" where
  "ws_free [] = True"
| "ws_free (b # bs) = (ws_char (b # bs) = 0 \<and> ws_free bs)"

lemma ws_char_space [simp]: "ws_char (0x20 # s) = 1"
  by simp

lemma ws_char_three: "ws_char (a # b # c # r) = ws_char [a, b, c]"
  by simp

lemma ws_char_before_space:
  "\<lbrakk>ws_char x = 0; x \<noteq> []\<rbrakk> \<Longrightarrow> ws_char (x @ 0x20 # s) = 0"
proof -
  assume x: "ws_char x = 0" "x \<noteq> []"
  then consider (one) a where "x = [a]" | (two) a b where "x = [a, b]"
    | (more) a b c r where "x = a # b # c # r"
    by (metis neq_Nil_conv)
  then show ?thesis
  proof cases
    case one
    with x(1) show ?thesis by (cases s) (simp_all split: if_splits)
  next
    case two
    with x(1) show ?thesis by (simp split: if_splits)
  next
    case more
    with x(1) ws_char_three [of a b c r] ws_char_three [of a b c "r @ 0x20 # s"] show ?thesis
      by (simp only: append_Cons)
  qed
qed

lemma split_ws_field_end:
  "ws_free f \<Longrightarrow> split_ws cur f = (if cur @ f = [] then [] else [cur @ f])"
  by (induction f arbitrary: cur) (simp_all add: split_ws.simps(2))

lemma split_ws_field_space:
  "ws_free f \<Longrightarrow> split_ws cur (f @ 0x20 # s)
     = (if cur @ f = [] then [] else [cur @ f]) @ split_ws [] s"
proof (induction f arbitrary: cur)
  case Nil
  then show ?case by (simp add: split_ws.simps(2))
next
  case (Cons b f)
  then have "ws_char ((b # f) @ 0x20 # s) = 0"
    by (intro ws_char_before_space) auto
  with Cons show ?case by (simp add: split_ws.simps(2) del: ws_char.simps)
qed

lemma ws_free_ascii: "\<forall>b \<in> set f. 0x20 < b \<and> b \<le> 0x7F \<Longrightarrow> ws_free f"
proof (induction f)
  case (Cons b f)
  then have "\<not> (0x09 \<le> b \<and> b \<le> 0x0D)" "b \<noteq> 0x20" "b \<noteq> 0xC2" "b \<noteq> 0xE1" "b \<noteq> 0xE2" "b \<noteq> 0xE3"
    by (auto simp: word_le_nat_alt word_less_nat_alt)
  with Cons show ?case by (auto split: list.splits)
qed simp

lemma trim_start_space [simp]: "trim_start (0x20 # s) = trim_start s"
  by (subst trim_start.simps) simp

lemma trim_start_id: "ws_char s = 0 \<Longrightarrow> trim_start s = s"
  by (subst trim_start.simps) simp

end
