(* ===== verification/Rust_Int.thy ===== *)
theory Rust_Int
  imports Rust_Text
begin

text \<open>
  Decimal printing (\<^verbatim>\<open>to_string\<close>, \<^verbatim>\<open>format!\<close>) and parsing (\<^verbatim>\<open>str::parse\<close>) of integers. \<^verbatim>\<open>FromStr\<close>
  for the unsigned types accepts one leading \<^verbatim>\<open>+\<close>, then one or more digits, and fails on overflow;
  for the signed types a leading \<^verbatim>\<open>-\<close> is accepted too.
\<close>

section \<open>Digits\<close>

definition is_digit :: "u8 \<Rightarrow> bool" where
  "is_digit b \<longleftrightarrow> 0x30 \<le> b \<and> b \<le> 0x39"

definition digit_byte :: "nat \<Rightarrow> u8" where
  "digit_byte d = 0x30 + of_nat d"

fun dec :: "nat \<Rightarrow> bytes" where
  "dec n = (if n < 10 then [digit_byte n] else dec (n div 10) @ [digit_byte (n mod 10)])"

declare dec.simps [simp del]

fun digits :: "nat \<Rightarrow> bytes \<Rightarrow> nat option" where
  "digits acc [] = Some acc"
| "digits acc (b # bs) = (if is_digit b then digits (10 * acc + (unat b - 48)) bs else None)"

lemma unat_digit_byte: "d < 10 \<Longrightarrow> unat (digit_byte d) = 48 + d"
  by (simp add: digit_byte_def unat_word_ariths unat_of_nat)

lemma is_digit_byte: "d < 10 \<Longrightarrow> is_digit (digit_byte d)"
  by (simp add: is_digit_def word_le_nat_alt unat_digit_byte)

lemma digits_append: "digits acc (xs @ ys) = Option.bind (digits acc xs) (\<lambda>a. digits a ys)"
  by (induction xs arbitrary: acc) auto

lemma dec_nonempty [simp]: "dec n \<noteq> []"
  by (subst dec.simps) simp

lemma dec_is_digit: "b \<in> set (dec n) \<Longrightarrow> is_digit b"
  by (induction n rule: dec.induct) (subst (asm) (2) dec.simps, auto simp: is_digit_byte split: if_splits)

lemma digits_dec: "digits acc (dec n) = Some (acc * 10 ^ length (dec n) + n)"
proof (induction n arbitrary: acc rule: dec.induct)
  case (1 n)
  show ?case
  proof (cases "n < 10")
    case True
    then show ?thesis
      by (simp add: dec.simps [of n] is_digit_byte unat_digit_byte)
  next
    case False
    have "10 * (acc * 10 ^ length (dec (n div 10)) + n div 10) + n mod 10
        = acc * 10 ^ Suc (length (dec (n div 10))) + n"
      by (simp add: algebra_simps)
    with "1.IH" [OF False, of acc] False show ?thesis
      by (simp add: dec.simps [of n] digits_append is_digit_byte unat_digit_byte)
  qed
qed

lemma is_digit_le: "is_digit b \<Longrightarrow> b \<le> 0x7F"
  by (auto simp: is_digit_def intro: order_trans)

lemma is_digit_not: "is_digit b \<Longrightarrow> b \<noteq> 0x2B \<and> b \<noteq> 0x2D \<and> b \<noteq> 0 \<and> b \<noteq> 0x09 \<and> b \<noteq> 0x20
    \<and> b \<noteq> 0x3A \<and> b \<noteq> 0x5B \<and> b \<noteq> 0x5D \<and> b \<noteq> 0x0A \<and> b \<noteq> 0x0D"
  by (auto simp: is_digit_def)

lemma dec_not: "b \<in> set (dec n) \<Longrightarrow> b \<noteq> 0 \<and> b \<noteq> 0x09 \<and> b \<noteq> 0x20 \<and> b \<noteq> 0x3A \<and> b \<noteq> 0x5D
    \<and> b \<noteq> 0x0A \<and> b \<noteq> 0x0D"
  using dec_is_digit is_digit_not by blast

lemma utf8_valid_dec [simp]: "utf8_valid (dec n)"
  using dec_is_digit is_digit_le by (intro utf8_valid_ascii) blast

section \<open>Parsing\<close>

definition digits1 :: "bytes \<Rightarrow> nat option" where
  "digits1 s = (if s = [] then None else digits 0 s)"

definition from_str_unsigned :: "nat \<Rightarrow> bytes \<Rightarrow> nat option" where
  "from_str_unsigned hi s =
     (case digits1 (case s of b # bs \<Rightarrow> if b = 0x2B then bs else s | [] \<Rightarrow> s) of
        None \<Rightarrow> None
      | Some n \<Rightarrow> if n \<le> hi then Some n else None)"

definition from_str_u16 :: "bytes \<Rightarrow> u16 option" where
  "from_str_u16 s = map_option of_nat (from_str_unsigned (2 ^ 16 - 1) s)"

definition from_str_u32 :: "bytes \<Rightarrow> u32 option" where
  "from_str_u32 s = map_option of_nat (from_str_unsigned (2 ^ 32 - 1) s)"

definition from_str_u64 :: "bytes \<Rightarrow> u64 option" where
  "from_str_u64 s = map_option of_nat (from_str_unsigned (2 ^ 64 - 1) s)"

text \<open>\<^verbatim>\<open>i32\<close>: the value is read back with \<^const>\<open>sint\<close>.\<close>

definition from_str_i32 :: "bytes \<Rightarrow> u32 option" where
  "from_str_i32 s =
     (case s of
        b # bs \<Rightarrow>
          if b = 0x2D then
            (case digits1 bs of
               None \<Rightarrow> None
             | Some n \<Rightarrow> if n \<le> 2 ^ 31 then Some (- of_nat n) else None)
          else map_option of_nat (from_str_unsigned (2 ^ 31 - 1) s)
      | [] \<Rightarrow> None)"

lemma from_str_unsigned_dec: "n \<le> m \<Longrightarrow> from_str_unsigned m (dec n) = Some n"
proof -
  assume n: "n \<le> m"
  obtain b bs where d: "dec n = b # bs" by (cases "dec n") auto
  then have "b \<noteq> 0x2B" using dec_is_digit [of b n] is_digit_not by auto
  with d n digits_dec [of 0 n] show ?thesis
    by (auto simp: from_str_unsigned_def digits1_def)
qed

lemma from_str_u64_dec [simp]: "from_str_u64 (dec (unat w)) = Some w"
proof -
  have "unat w \<le> 2 ^ 64 - 1" using unsigned_less [of w, where ?'a = nat] by simp
  then show ?thesis by (simp add: from_str_u64_def from_str_unsigned_dec)
qed

lemma from_str_u32_dec [simp]: "from_str_u32 (dec (unat w)) = Some w"
proof -
  have "unat w \<le> 2 ^ 32 - 1" using unsigned_less [of w, where ?'a = nat] by simp
  then show ?thesis by (simp add: from_str_u32_def from_str_unsigned_dec)
qed

lemma from_str_u16_dec [simp]: "from_str_u16 (dec (unat w)) = Some w"
proof -
  have "unat w \<le> 2 ^ 16 - 1" using unsigned_less [of w, where ?'a = nat] by simp
  then show ?thesis by (simp add: from_str_u16_def from_str_unsigned_dec)
qed

text \<open>\<^verbatim>\<open>to_string\<close> of an \<^verbatim>\<open>i32\<close>.\<close>

definition dec_i32 :: "u32 \<Rightarrow> bytes" where
  "dec_i32 w = (if sint w < 0 then 0x2D # dec (nat (- sint w)) else dec (nat (sint w)))"

lemma from_str_i32_dec [simp]: "from_str_i32 (dec_i32 w) = Some w"
proof -
  have lo: "- (2 ^ 31) \<le> sint w" and hi: "sint w < 2 ^ 31"
    using sint_greater_eq [of w] sint_lt [of w] by auto
  show ?thesis
  proof (cases "sint w < 0")
    case True
    then have "nat (- sint w) \<le> 2 ^ 31" using lo by simp
    moreover have "- of_nat (nat (- sint w)) = w"
      using True by simp
    ultimately show ?thesis using True digits_dec [of 0 "nat (- sint w)"]
      by (simp add: dec_i32_def from_str_i32_def digits1_def)
  next
    case False
    then have le: "nat (sint w) \<le> 2 ^ 31 - 1" using hi by simp
    obtain b bs where d: "dec (nat (sint w)) = b # bs" by (cases "dec (nat (sint w))") auto
    then have "b \<noteq> 0x2D" using dec_is_digit [of b "nat (sint w)"] is_digit_not by auto
    with False d from_str_unsigned_dec [OF le] show ?thesis
      by (simp add: dec_i32_def from_str_i32_def)
  qed
qed

text \<open>The length of a printed number.\<close>

lemma length_dec: "\<lbrakk>n < 10 ^ k; 0 < k\<rbrakk> \<Longrightarrow> length (dec n) \<le> k"
proof (induction k arbitrary: n)
  case (Suc k)
  show ?case
  proof (cases "n < 10")
    case True
    then show ?thesis by (simp add: dec.simps [of n])
  next
    case False
    with Suc.prems have "0 < k" by (cases k) auto
    moreover have "n div 10 < 10 ^ k" using Suc.prems(1) by (simp add: less_mult_imp_div_less mult.commute)
    ultimately show ?thesis using Suc.IH [of "n div 10"] False by (simp add: dec.simps [of n])
  qed
qed simp

lemma length_dec_u64: "length (dec (unat (n :: u64))) \<le> 20"
proof (rule length_dec)
  have "unat n < 2 ^ 64" using unsigned_less [of n, where ?'a = nat] by simp
  also have "\<dots> < 10 ^ 20" by simp
  finally show "unat n < 10 ^ 20" .
qed simp

end
