(* ===== verification/Errors.thy ===== *)
theory Errors
  imports Rust_Int
begin

text \<open>
  The wire packet types (the enum of \<^verbatim>\<open>src/protocol/command.rs\<close>) and the error type of the crate
  (\<^verbatim>\<open>src/error.rs\<close>). They stand together because the errors mention packet types and the
  conversions of the packet types fail with errors. A \<^verbatim>\<open>Result<T>\<close> is \<^typ>\<open>'e + 'a\<close>, the error on
  the left.
\<close>

section \<open>Packet types\<close>

datatype packet_type =
    CanDo
  | CantDo
  | ResetAbilities
  | PreSleep
  | Noop
  | SubmitJob
  | JobCreated
  | GrabJob
  | NoJob
  | JobAssign
  | WorkStatus
  | WorkComplete
  | WorkFail
  | GetStatus
  | EchoReq
  | EchoRes
  | SubmitJobBg
  | Error
  | StatusRes
  | SubmitJobHigh
  | SetClientId
  | CanDoTimeout
  | AllYours
  | WorkException
  | OptionReq
  | OptionRes
  | WorkData
  | WorkWarning
  | GrabJobUniq
  | JobAssignUniq
  | SubmitJobHighBg
  | SubmitJobLow
  | SubmitJobLowBg
  | SubmitJobSched
  | SubmitJobEpoch
  | SubmitReduceJob
  | SubmitReduceJobBackground
  | GrabJobAll
  | JobAssignAll
  | GetStatusUnique
  | StatusResUnique

instantiation packet_type :: enum
begin
definition enum_packet_type :: "packet_type list" where
  "enum_packet_type =
    [CanDo, CantDo, ResetAbilities, PreSleep, Noop,
     SubmitJob, JobCreated, GrabJob, NoJob, JobAssign,
     WorkStatus, WorkComplete, WorkFail, GetStatus, EchoReq,
     EchoRes, SubmitJobBg, Error, StatusRes, SubmitJobHigh,
     SetClientId, CanDoTimeout, AllYours, WorkException, OptionReq,
     OptionRes, WorkData, WorkWarning, GrabJobUniq, JobAssignUniq,
     SubmitJobHighBg, SubmitJobLow, SubmitJobLowBg, SubmitJobSched, SubmitJobEpoch,
     SubmitReduceJob, SubmitReduceJobBackground, GrabJobAll, JobAssignAll, GetStatusUnique,
     StatusResUnique]"
definition enum_all_packet_type :: "(packet_type \<Rightarrow> bool) \<Rightarrow> bool" where
  "enum_all_packet_type P \<longleftrightarrow> list_all P enum_class.enum"
definition enum_ex_packet_type :: "(packet_type \<Rightarrow> bool) \<Rightarrow> bool" where
  "enum_ex_packet_type P \<longleftrightarrow> list_ex P enum_class.enum"
instance
proof
  show univ: "(UNIV :: packet_type set) = set enum_class.enum"
  proof (rule UNIV_eq_I)
    fix t :: packet_type
    show "t \<in> set enum_class.enum" by (cases t) (simp_all add: enum_packet_type_def)
  qed
  show "distinct (enum_class.enum :: packet_type list)"
    by (simp add: enum_packet_type_def)
  show "enum_class.enum_all P \<longleftrightarrow> Ball UNIV P" for P :: "packet_type \<Rightarrow> bool"
    by (simp add: enum_all_packet_type_def univ list_all_iff)
  show "enum_class.enum_ex P \<longleftrightarrow> Bex UNIV P" for P :: "packet_type \<Rightarrow> bool"
    by (simp add: enum_ex_packet_type_def univ list_ex_iff)
qed
end

section \<open>Errors\<close>

text \<open>
  \<^verbatim>\<open>std::io::Error\<close> is opaque to the program but for the two kinds that the standard library's
  readers raise themselves; the rest comes from the operating system.
\<close>

datatype io_error = InvalidData | UnexpectedEof | OsError nat

datatype gearman_error =
    Io io_error
  | BadMagic bytes
  | UnknownPacketType u32
  | PayloadTooLarge u32
  | MalformedBody packet_type string
  | WrongArgCount packet_type nat nat
  | ServerError bytes bytes
  | JobFailed bytes
  | JobException bytes bytes
  | NoServersAvailable
  | NoUniqueId bytes
  | ConnectionClosed
  | AdminProtocolError bytes
  | AdminLineTooLong nat
  | InvalidServerName bytes
  | Timeout

type_synonym 'a result = "gearman_error + 'a"

end
