(* ===== verification/Framing.thy ===== *)
theory Framing
  imports Errors
begin

text \<open>
  The contract between a framed reader and its codec. A reader appends what arrives to its buffer
  and calls the decoder until it asks for more bytes; \<open>drain\<close> and \<open>feed\<close> describe that use. The
  locale \<open>framing\<close> states what the codec promises and proves, once for every codec, that packets
  survive any cutting of the byte stream into reads.
\<close>

section \<open>Repeated decoding\<close>

text \<open>
  Decode until the decoder asks for more or fails. The fuel bounds the number of calls; a buffer of
  \<open>k\<close> bytes holds at most \<open>k\<close> packets, so \<open>k + 1\<close> calls are enough.
\<close>

fun drain :: "(bytes \<Rightarrow> 'p option result \<times> bytes) \<Rightarrow> nat \<Rightarrow> bytes
    \<Rightarrow> 'p list \<times> gearman_error option \<times> bytes" where
  "drain d 0 buf = ([], None, buf)"
| "drain d (Suc n) buf =
     (case d buf of
        (Inl e, buf') \<Rightarrow> ([], Some e, buf')
      | (Inr None, buf') \<Rightarrow> ([], None, buf')
      | (Inr (Some p), buf') \<Rightarrow>
          (case drain d n buf' of (ps, e, b) \<Rightarrow> (p # ps, e, b)))"

text \<open>Process a list of reads, in order, starting with \<open>buf\<close> in the buffer.\<close>

fun feed :: "(bytes \<Rightarrow> 'p option result \<times> bytes) \<Rightarrow> bytes \<Rightarrow> bytes list
    \<Rightarrow> 'p list \<times> gearman_error option \<times> bytes" where
  "feed d buf [] = ([], None, buf)"
| "feed d buf (c # cs) =
     (case drain d (Suc (length (buf @ c))) (buf @ c) of
        (ps, Some e, b) \<Rightarrow> (ps, Some e, b)
      | (ps, None, b) \<Rightarrow> (case feed d b cs of (qs, e, b') \<Rightarrow> (ps @ qs, e, b')))"

section \<open>The contract\<close>

locale framing =
  fixes enc :: "'p \<Rightarrow> bytes"
    and dec :: "bytes \<Rightarrow> 'p option result \<times> bytes"
    and ok :: "'p \<Rightarrow> bool"
  assumes dec_enc: "ok p \<Longrightarrow> dec (enc p @ rest) = (Inr (Some p), rest)"
    and dec_prefix: "\<lbrakk>ok p; enc p = pre @ suf; suf \<noteq> []\<rbrakk> \<Longrightarrow> dec pre = (Inr None, pre)"
    and dec_empty: "dec [] = (Inr None, [])"
begin

lemma enc_nonempty: "ok p \<Longrightarrow> enc p \<noteq> []"
  using dec_enc [of p "[]"] dec_empty by auto

lemma length_stream:
  "\<forall>p \<in> set ps. ok p \<Longrightarrow> length ps \<le> length (concat (map enc ps))"
proof (induction ps)
  case (Cons p ps)
  then have "Suc 0 \<le> length (enc p)" using enc_nonempty [of p] by (simp add: Suc_le_eq)
  with Cons show ?case by (simp del: One_nat_def)
qed simp

lemma drain_stream:
  "\<lbrakk>\<forall>p \<in> set ps. ok p; dec tail = (Inr None, tail); length ps < n\<rbrakk>
   \<Longrightarrow> drain dec n (concat (map enc ps) @ tail) = (ps, None, tail)"
proof (induction ps arbitrary: n)
  case Nil
  then show ?case by (cases n) auto
next
  case (Cons p ps)
  then obtain m where "n = Suc m" by (cases n) auto
  with Cons show ?case by (simp add: dec_enc)
qed

text \<open>A prefix of a stream of packets is some of the packets and an incomplete one.\<close>

lemma stream_prefix:
  "\<lbrakk>\<forall>p \<in> set ps. ok p; xs @ ys = concat (map enc ps)\<rbrakk>
   \<Longrightarrow> \<exists>qs rs pre. ps = qs @ rs \<and> xs = concat (map enc qs) @ pre
        \<and> pre @ ys = concat (map enc rs) \<and> dec pre = (Inr None, pre)"
proof (induction ps arbitrary: xs)
  case Nil
  then show ?case by (simp add: dec_empty)
next
  case (Cons p ps)
  show ?case
  proof (cases "length (enc p) \<le> length xs")
    case True
    define xs' where "xs' = drop (length (enc p)) xs"
    from Cons.prems(2) have eq: "xs @ ys = enc p @ concat (map enc ps)" by simp
    from arg_cong [OF eq, of "take (length (enc p))"] True
    have "take (length (enc p)) xs = enc p" by simp
    then have "xs = enc p @ xs'" unfolding xs'_def by (metis append_take_drop_id)
    with eq have xs: "xs = enc p @ xs'" "xs' @ ys = concat (map enc ps)" by auto
    with Cons.IH [of xs'] Cons.prems(1) obtain qs rs pre where
      "ps = qs @ rs" "xs' = concat (map enc qs) @ pre" "pre @ ys = concat (map enc rs)"
      "dec pre = (Inr None, pre)" by auto
    with xs show ?thesis by (intro exI [of _ "p # qs"] exI [of _ rs] exI [of _ pre]) simp
  next
    case False
    with Cons.prems(2) obtain suf where suf: "xs @ suf = enc p"
      by (auto simp: append_eq_append_conv2)
    with False have "suf \<noteq> []" by auto
    with suf [symmetric] have "dec xs = (Inr None, xs)" using dec_prefix Cons.prems(1) by auto
    with Cons.prems(2) show ?thesis
      by (intro exI [of _ "[]"] exI [of _ "p # ps"] exI [of _ xs]) simp
  qed
qed

lemma feed_stream:
  "\<lbrakk>\<forall>p \<in> set ps. ok p; buf @ concat cs = concat (map enc ps); dec buf = (Inr None, buf)\<rbrakk>
   \<Longrightarrow> feed dec buf cs = (ps, None, [])"
proof (induction cs arbitrary: buf ps)
  case Nil
  have "ps = []"
  proof (cases ps)
    case (Cons p qs)
    with Nil dec_enc [of p "concat (map enc qs)"] show ?thesis by simp
  qed simp
  with Nil show ?case by simp
next
  case (Cons c cs)
  then have "(buf @ c) @ concat cs = concat (map enc ps)" by simp
  from stream_prefix [OF Cons.prems(1) this] obtain qs rs pre where
    ps: "ps = qs @ rs" and bc: "buf @ c = concat (map enc qs) @ pre"
    and rest: "pre @ concat cs = concat (map enc rs)" and pre: "dec pre = (Inr None, pre)"
    by blast
  have "length qs < Suc (length (buf @ c))"
    using length_stream [of qs] Cons.prems(1) ps bc by simp
  moreover have "\<forall>p \<in> set qs. ok p" using Cons.prems(1) ps by simp
  ultimately have "drain dec (Suc (length (buf @ c))) (buf @ c) = (qs, None, pre)"
    using drain_stream [OF _ pre] bc by metis
  moreover have "feed dec pre cs = (rs, None, [])"
    using Cons.IH [OF _ rest pre] Cons.prems(1) ps by simp
  ultimately show ?case using ps by (simp del: drain.simps)
qed

end

end
