(* ===== verification/Command.thy ===== *)
theory Command
  imports Errors
begin

text \<open>
  \<^verbatim>\<open>src/protocol/command.rs\<close>: the wire code of each packet type, the inverse conversion
  \<^verbatim>\<open>TryFrom<u32>\<close> with its error, and the number of arguments each packet type carries.
\<close>

definition COMMAND_MAX :: u32 where
  "COMMAND_MAX = 43"

text \<open>\<^verbatim>\<open>From<PacketType> for u32\<close>: the discriminant.\<close>

fun packet_type_code :: "packet_type \<Rightarrow> u32" where
  "packet_type_code CanDo = 1"
| "packet_type_code CantDo = 2"
| "packet_type_code ResetAbilities = 3"
| "packet_type_code PreSleep = 4"
| "packet_type_code Noop = 6"
| "packet_type_code SubmitJob = 7"
| "packet_type_code JobCreated = 8"
| "packet_type_code GrabJob = 9"
| "packet_type_code NoJob = 10"
| "packet_type_code JobAssign = 11"
| "packet_type_code WorkStatus = 12"
| "packet_type_code WorkComplete = 13"
| "packet_type_code WorkFail = 14"
| "packet_type_code GetStatus = 15"
| "packet_type_code EchoReq = 16"
| "packet_type_code EchoRes = 17"
| "packet_type_code SubmitJobBg = 18"
| "packet_type_code Error = 19"
| "packet_type_code StatusRes = 20"
| "packet_type_code SubmitJobHigh = 21"
| "packet_type_code SetClientId = 22"
| "packet_type_code CanDoTimeout = 23"
| "packet_type_code AllYours = 24"
| "packet_type_code WorkException = 25"
| "packet_type_code OptionReq = 26"
| "packet_type_code OptionRes = 27"
| "packet_type_code WorkData = 28"
| "packet_type_code WorkWarning = 29"
| "packet_type_code GrabJobUniq = 30"
| "packet_type_code JobAssignUniq = 31"
| "packet_type_code SubmitJobHighBg = 32"
| "packet_type_code SubmitJobLow = 33"
| "packet_type_code SubmitJobLowBg = 34"
| "packet_type_code SubmitJobSched = 35"
| "packet_type_code SubmitJobEpoch = 36"
| "packet_type_code SubmitReduceJob = 37"
| "packet_type_code SubmitReduceJobBackground = 38"
| "packet_type_code GrabJobAll = 39"
| "packet_type_code JobAssignAll = 40"
| "packet_type_code GetStatusUnique = 41"
| "packet_type_code StatusResUnique = 42"

text \<open>\<^verbatim>\<open>TryFrom<u32> for PacketType\<close>.\<close>

definition try_from_u32 :: "u32 \<Rightarrow> packet_type result" where
  "try_from_u32 n =
     (if n = 1 then Inr CanDo
      else if n = 2 then Inr CantDo
      else if n = 3 then Inr ResetAbilities
      else if n = 4 then Inr PreSleep
      else if n = 6 then Inr Noop
      else if n = 7 then Inr SubmitJob
      else if n = 8 then Inr JobCreated
      else if n = 9 then Inr GrabJob
      else if n = 10 then Inr NoJob
      else if n = 11 then Inr JobAssign
      else if n = 12 then Inr WorkStatus
      else if n = 13 then Inr WorkComplete
      else if n = 14 then Inr WorkFail
      else if n = 15 then Inr GetStatus
      else if n = 16 then Inr EchoReq
      else if n = 17 then Inr EchoRes
      else if n = 18 then Inr SubmitJobBg
      else if n = 19 then Inr Error
      else if n = 20 then Inr StatusRes
      else if n = 21 then Inr SubmitJobHigh
      else if n = 22 then Inr SetClientId
      else if n = 23 then Inr CanDoTimeout
      else if n = 24 then Inr AllYours
      else if n = 25 then Inr WorkException
      else if n = 26 then Inr OptionReq
      else if n = 27 then Inr OptionRes
      else if n = 28 then Inr WorkData
      else if n = 29 then Inr WorkWarning
      else if n = 30 then Inr GrabJobUniq
      else if n = 31 then Inr JobAssignUniq
      else if n = 32 then Inr SubmitJobHighBg
      else if n = 33 then Inr SubmitJobLow
      else if n = 34 then Inr SubmitJobLowBg
      else if n = 35 then Inr SubmitJobSched
      else if n = 36 then Inr SubmitJobEpoch
      else if n = 37 then Inr SubmitReduceJob
      else if n = 38 then Inr SubmitReduceJobBackground
      else if n = 39 then Inr GrabJobAll
      else if n = 40 then Inr JobAssignAll
      else if n = 41 then Inr GetStatusUnique
      else if n = 42 then Inr StatusResUnique
      else Inl (UnknownPacketType n))"

fun arg_count :: "packet_type \<Rightarrow> nat" where
  "arg_count ResetAbilities = 0"
| "arg_count PreSleep = 0"
| "arg_count Noop = 0"
| "arg_count GrabJob = 0"
| "arg_count NoJob = 0"
| "arg_count AllYours = 0"
| "arg_count GrabJobUniq = 0"
| "arg_count GrabJobAll = 0"
| "arg_count CanDo = 1"
| "arg_count CantDo = 1"
| "arg_count JobCreated = 1"
| "arg_count WorkFail = 1"
| "arg_count GetStatus = 1"
| "arg_count EchoReq = 1"
| "arg_count EchoRes = 1"
| "arg_count SetClientId = 1"
| "arg_count OptionReq = 1"
| "arg_count OptionRes = 1"
| "arg_count GetStatusUnique = 1"
| "arg_count Error = 2"
| "arg_count CanDoTimeout = 2"
| "arg_count WorkComplete = 2"
| "arg_count WorkException = 2"
| "arg_count WorkData = 2"
| "arg_count WorkWarning = 2"
| "arg_count SubmitJob = 3"
| "arg_count SubmitJobBg = 3"
| "arg_count SubmitJobHigh = 3"
| "arg_count SubmitJobHighBg = 3"
| "arg_count SubmitJobLow = 3"
| "arg_count SubmitJobLowBg = 3"
| "arg_count WorkStatus = 3"
| "arg_count JobAssign = 3"
| "arg_count SubmitJobEpoch = 4"
| "arg_count JobAssignUniq = 4"
| "arg_count SubmitReduceJob = 5"
| "arg_count SubmitReduceJobBackground = 5"
| "arg_count JobAssignAll = 5"
| "arg_count StatusRes = 5"
| "arg_count StatusResUnique = 6"
| "arg_count SubmitJobSched = 8"

section \<open>Round trips\<close>

lemma try_from_code [wire]: "try_from_u32 (packet_type_code t) = Inr t"
  by (cases t) (simp_all add: try_from_u32_def)

lemma try_from_Inr: "try_from_u32 n = Inr t \<Longrightarrow> n = packet_type_code t"
  by (auto simp: try_from_u32_def split: if_splits)

lemma try_from_Inl: "try_from_u32 n = Inl e \<Longrightarrow> e = UnknownPacketType n"
  by (auto simp: try_from_u32_def split: if_splits)

lemma packet_type_code_inject [simp]:
  "packet_type_code s = packet_type_code t \<longleftrightarrow> s = t"
  by (metis try_from_code sum.inject(2))

lemma packet_type_code_range: "0 < packet_type_code t \<and> packet_type_code t < COMMAND_MAX"
  by (cases t) (simp_all add: COMMAND_MAX_def)

text \<open>
  A wire code decodes to a packet type exactly when it is that type's own code; every code
  from 1 to \<^const>\<open>COMMAND_MAX\<close> (excluded) but 5 is the code of some type, and 0, 5 and every code
  from \<^const>\<open>COMMAND_MAX\<close> on are rejected with the number that was received.
\<close>

theorem packet_type_codes_exact:
  "(try_from_u32 n = Inr t \<longleftrightarrow> n = packet_type_code t)
   \<and> (try_from_u32 n = Inl (UnknownPacketType n) \<longleftrightarrow> n = 0 \<or> n = 5 \<or> COMMAND_MAX \<le> n)"
proof
  show "try_from_u32 n = Inr t \<longleftrightarrow> n = packet_type_code t"
    using try_from_Inr try_from_code by blast
  show "try_from_u32 n = Inl (UnknownPacketType n) \<longleftrightarrow> n = 0 \<or> n = 5 \<or> COMMAND_MAX \<le> n"
  proof (cases "n < COMMAND_MAX")
    case True
    then have "unat n \<in> set [0..<43]"
      by (simp add: COMMAND_MAX_def word_less_nat_alt)
    moreover have "n = of_nat (unat n)" by simp
    ultimately have "n \<in> set (map of_nat [0..<43])" by (metis image_eqI set_map)
    then show ?thesis
      by (auto simp: COMMAND_MAX_def try_from_u32_def upt_rec word_le_nat_alt)
  next
    case False
    then have "try_from_u32 n \<noteq> Inr s" for s
      using try_from_Inr packet_type_code_range by blast
    then have "try_from_u32 n = Inl (UnknownPacketType n)"
      using try_from_Inl by (cases "try_from_u32 n") auto
    with False show ?thesis by (simp add: not_less)
  qed
qed

end
