(* ===== verification/Packet.thy ===== *)
theory Packet
  imports Command
begin

text \<open>
  \<^verbatim>\<open>src/protocol/header.rs\<close> and \<^verbatim>\<open>src/protocol/packet.rs\<close>: the packet record, its constructors and
  accessors, the length of its body on the wire, and the splitting of a body into arguments.
\<close>

section \<open>Headers\<close>

definition REQ_MAGIC :: bytes where
  "REQ_MAGIC = [0x00, 0x52, 0x45, 0x51]"

definition RES_MAGIC :: bytes where
  "RES_MAGIC = [0x00, 0x52, 0x45, 0x53]"

definition HEADER_LEN :: nat where
  "HEADER_LEN = 12"

datatype packet_magic = Req | Res

fun magic_bytes :: "packet_magic \<Rightarrow> bytes" where
  "magic_bytes Req = REQ_MAGIC"
| "magic_bytes Res = RES_MAGIC"

record packet_header =
  hdr_magic :: packet_magic
  hdr_ptype :: packet_type
  hdr_len :: u32

lemma magic_ascii: "REQ_MAGIC = 0 # ascii ''REQ''" "RES_MAGIC = 0 # ascii ''RES''"
  by (simp_all add: REQ_MAGIC_def RES_MAGIC_def)

lemma length_magic_bytes [simp]: "length (magic_bytes m) = 4"
  by (cases m) (simp_all add: REQ_MAGIC_def RES_MAGIC_def)

lemma magic_bytes_inject [simp]: "magic_bytes m = magic_bytes n \<longleftrightarrow> m = n"
  by (cases m; cases n) (simp_all add: REQ_MAGIC_def RES_MAGIC_def)

section \<open>Packets\<close>

record packet =
  magic :: packet_magic
  ptype :: packet_type
  args :: "bytes list"

text \<open>
  \<^verbatim>\<open>Packet::request\<close> and \<^verbatim>\<open>Packet::response\<close>. Their \<^verbatim>\<open>debug_assert_eq!\<close> is compiled out of release
  builds, so no count is checked here; the encoder checks it.
\<close>

definition request :: "packet_type \<Rightarrow> bytes list \<Rightarrow> packet" where
  "request t as = \<lparr>magic = Req, ptype = t, args = as\<rparr>"

definition response :: "packet_type \<Rightarrow> bytes list \<Rightarrow> packet" where
  "response t as = \<lparr>magic = Res, ptype = t, args = as\<rparr>"

lemma request_simps [simp]:
  "magic (request t as) = Req" "ptype (request t as) = t" "args (request t as) = as"
  by (simp_all add: request_def)

lemma response_simps [simp]:
  "magic (response t as) = Res" "ptype (response t as) = t" "args (response t as) = as"
  by (simp_all add: response_def)

definition arg :: "packet \<Rightarrow> nat \<Rightarrow> bytes option" where
  "arg p i = (if i < length (args p) then Some (args p ! i) else None)"

definition arg_str :: "packet \<Rightarrow> nat \<Rightarrow> bytes option" where
  "arg_str p i = Option.bind (arg p i) (\<lambda>b. if utf8_valid b then Some b else None)"

definition last_arg :: "packet \<Rightarrow> bytes option" where
  "last_arg p = (if args p = [] then None else Some (last (args p)))"

definition encoded_body_len :: "packet \<Rightarrow> nat" where
  "encoded_body_len p = sum_list (map length (args p)) + (length (args p) - 1)"

lemma arg_str_Some: "arg_str p i = Some s \<longleftrightarrow> arg p i = Some s \<and> utf8_valid s"
  by (auto simp: arg_str_def Option.bind_eq_Some_conv split: if_splits)

section \<open>Splitting a body into arguments\<close>

text \<open>
  The loop of \<^verbatim>\<open>split_args\<close>: \<open>n\<close> further arguments are cut off at the first NUL each, \<open>acc\<close> holds
  those already pushed, and the rest of the payload becomes the last argument.
\<close>

fun split_loop :: "packet_type \<Rightarrow> nat \<Rightarrow> bytes \<Rightarrow> bytes list \<Rightarrow> bytes list result" where
  "split_loop t 0 payload acc = Inr (acc @ [payload])"
| "split_loop t (Suc n) payload acc =
     (case position (\<lambda>b. b = 0) payload of
        None \<Rightarrow> Inl (MalformedBody t ''missing NUL argument separator'')
      | Some k \<Rightarrow> split_loop t n (drop (Suc k) payload) (acc @ [take k payload]))"

definition split_args :: "packet_type \<Rightarrow> bytes \<Rightarrow> bytes list result" where
  "split_args t payload =
     (let count = arg_count t in
      if count = 0 then
        (if payload \<noteq> [] then Inl (MalformedBody t ''expected empty payload'') else Inr [])
      else split_loop t (count - 1) payload [])"

text \<open>
  The inverse direction, as the encoder writes a body: the arguments with one NUL between them.
  \<open>i\<close> is the index \<^verbatim>\<open>enumerate\<close> counts.
\<close>

fun put_args :: "nat \<Rightarrow> bytes list \<Rightarrow> bytes" where
  "put_args i [] = []"
| "put_args i (a # as) = (if 0 < i then [0] else []) @ a @ put_args (Suc i) as"

text \<open>Arguments that can be told apart on the wire: only the last one may contain NUL bytes.\<close>

definition nul_free :: "bytes \<Rightarrow> bool" where
  "nul_free a \<longleftrightarrow> 0 \<notin> set a"

definition separable :: "bytes list \<Rightarrow> bool" where
  "separable as \<longleftrightarrow> (\<forall>a \<in> set (butlast as). nul_free a)"

lemma nul_free_simps [simp]: "nul_free []" "nul_free (b # s) \<longleftrightarrow> b \<noteq> 0 \<and> nul_free s"
  "nul_free (s @ t) \<longleftrightarrow> nul_free s \<and> nul_free t"
  by (auto simp: nul_free_def)

lemma nul_free_dec [simp]: "nul_free (dec n)"
  using dec_not [of 0 n] by (auto simp: nul_free_def)

lemma separable_simps [simp]: "separable []" "separable [a]"
  "separable (a # b # as) \<longleftrightarrow> nul_free a \<and> separable (b # as)"
  by (auto simp: separable_def)

lemma put_args_Suc: "put_args (Suc i) as = concat (map ((#) 0) as)"
  by (induction as arbitrary: i) auto

lemma put_args_Cons2: "put_args 0 (a # b # as) = a @ 0 # put_args 0 (b # as)"
  by (simp add: put_args_Suc)

lemma length_put_args: "length (put_args 0 as) = sum_list (map length as) + (length as - 1)"
proof (cases as)
  case (Cons a rest)
  have "length (concat (map ((#) 0) rest)) = sum_list (map length rest) + length rest"
    by (induction rest) auto
  with Cons show ?thesis by (simp add: put_args_Suc)
qed simp

lemma length_body [wire]: "length (put_args 0 (args p)) = encoded_body_len p"
  by (simp add: encoded_body_len_def length_put_args)

lemma split_loop_put:
  "\<lbrakk>length as = Suc n; separable as\<rbrakk> \<Longrightarrow> split_loop t n (put_args 0 as) acc = Inr (acc @ as)"
proof (induction n arbitrary: as acc)
  case 0
  then obtain a where "as = [a]" by (auto simp: length_Suc_conv)
  then show ?case by simp
next
  case (Suc n)
  then obtain a b bs where as: "as = a # b # bs" by (auto simp: length_Suc_conv)
  with Suc.prems have "position (\<lambda>x. x = 0) (a @ 0 # put_args 0 (b # bs)) = Some (length a)"
    by (intro position_append_hit) (auto simp: nul_free_def)
  with Suc.prems Suc.IH [of "b # bs" "acc @ [a]"] show ?case
    by (simp add: as put_args_Cons2 del: put_args.simps)
qed

lemma split_loop_Inr:
  "split_loop t n payload acc = Inr as
   \<Longrightarrow> \<exists>bs. as = acc @ bs \<and> length bs = Suc n \<and> separable bs \<and> put_args 0 bs = payload"
proof (induction n arbitrary: payload acc)
  case 0
  then show ?case by (intro exI [of _ "[payload]"]) simp
next
  case (Suc n)
  then obtain k where k: "position (\<lambda>x. x = 0) payload = Some k"
    and rest: "split_loop t n (drop (Suc k) payload) (acc @ [take k payload]) = Inr as"
    by (auto split: option.splits)
  from Suc.IH [OF rest] obtain bs where bs: "as = (acc @ [take k payload]) @ bs"
    "length bs = Suc n" "separable bs" "put_args 0 bs = drop (Suc k) payload" by blast
  then obtain b bs' where bs': "bs = b # bs'" by (cases bs) auto
  from position_Some [OF k] have "nul_free (take k payload)" "payload ! k = 0"
    by (auto simp: nul_free_def)
  with bs bs' position_split [OF k] show ?case
    by (intro exI [of _ "take k payload # bs"]) (simp add: put_args_Cons2 del: put_args.simps)
qed

lemma split_loop_Inl:
  "split_loop t n payload acc = Inl e
   \<Longrightarrow> e = MalformedBody t ''missing NUL argument separator''"
  by (induction n arbitrary: payload acc) (auto split: option.splits)

lemma split_loop_count: "split_loop t n payload acc = Inl e \<Longrightarrow> count_list payload 0 < n"
proof (induction n arbitrary: payload acc)
  case (Suc n)
  show ?case
  proof (cases "position (\<lambda>b. b = 0) payload")
    case None
    then have "count_list payload 0 = 0" by (auto simp: position_None count_list_0_iff)
    then show ?thesis by simp
  next
    case (Some k)
    with Suc have "count_list (drop (Suc k) payload) 0 < n" by auto
    moreover have "count_list payload 0
        = count_list (take k payload) 0 + count_list (payload ! k # drop (Suc k) payload) 0"
      by (metis position_split [OF Some] count_list_append)
    moreover have "count_list (take k payload) 0 = 0" "payload ! k = 0"
      using position_Some [OF Some] by (auto simp: count_list_0_iff)
    ultimately show ?thesis by simp
  qed
qed simp

lemma split_args_put [wire]:
  "\<lbrakk>length as = arg_count t; separable as\<rbrakk> \<Longrightarrow> split_args t (put_args 0 as) = Inr as"
  by (cases "arg_count t") (auto simp: split_args_def split_loop_put)

lemma split_args_Inr:
  "split_args t payload = Inr as
   \<Longrightarrow> length as = arg_count t \<and> separable as \<and> put_args 0 as = payload"
  by (auto simp: split_args_def Let_def split: if_splits dest!: split_loop_Inr)

text \<open>
  \<^verbatim>\<open>split_args\<close> inverts the joining of arguments: it returns \<open>as\<close> exactly when there are as many
  of them as the type has, only the last contains NUL bytes, and joining them with NUL gives the
  payload back. It fails exactly when the payload has too few NUL bytes for the type or, for a type
  without arguments, is not empty.
\<close>

theorem split_args_exact:
  "(split_args t payload = Inr as \<longleftrightarrow>
      length as = arg_count t \<and> separable as \<and> put_args 0 as = payload)
   \<and> ((\<exists>e. split_args t payload = Inl e) \<longleftrightarrow>
      (if arg_count t = 0 then payload \<noteq> [] else count_list payload 0 < arg_count t - 1))"
proof
  show iff: "split_args t payload = Inr as \<longleftrightarrow>
      length as = arg_count t \<and> separable as \<and> put_args 0 as = payload" for as
    using split_args_Inr split_args_put by blast
  have enough: "length as - 1 \<le> count_list (put_args 0 as) 0" for as
  proof (cases as)
    case (Cons a rest)
    have "length rest \<le> count_list (concat (map ((#) 0) rest)) 0"
      by (induction rest) auto
    with Cons show ?thesis by (simp add: put_args_Suc)
  qed simp
  show "(\<exists>e. split_args t payload = Inl e) \<longleftrightarrow>
      (if arg_count t = 0 then payload \<noteq> [] else count_list payload 0 < arg_count t - 1)"
  proof (cases "split_args t payload")
    case (Inl e)
    then show ?thesis by (auto simp: split_args_def Let_def dest: split_loop_count split: if_splits)
  next
    case (Inr as)
    with iff [of as] enough [of as] show ?thesis by (auto simp: not_less)
  qed
qed

end
