(* ===== verification/Codec.thy ===== *)
theory Codec
  imports Framing Packet
begin

text \<open>
  \<^verbatim>\<open>src/protocol/codec.rs\<close>: the decoder and the encoder of the binary protocol. A \<^verbatim>\<open>BytesMut\<close> is the
  list of its bytes; \<^verbatim>\<open>reserve\<close> only asks for capacity and has no effect on them. \<^verbatim>\<open>usize\<close> is taken
  as 64 bits wide, so \<^verbatim>\<open>HEADER_LEN + len\<close> does not wrap and lengths are \<^typ>\<open>nat\<close>.
\<close>

section \<open>The codec\<close>

record gearman_codec =
  max_payload_size :: u32

definition DEFAULT_MAX_PAYLOAD_SIZE :: u32 where
  "DEFAULT_MAX_PAYLOAD_SIZE = 64 * 1024 * 1024"

definition codec_new :: gearman_codec where
  "codec_new = \<lparr>max_payload_size = DEFAULT_MAX_PAYLOAD_SIZE\<rparr>"

definition with_max_payload_size :: "u32 \<Rightarrow> gearman_codec" where
  "with_max_payload_size n = \<lparr>max_payload_size = n\<rparr>"

text \<open>
  \<^verbatim>\<open>Decoder::decode\<close>: the result and the buffer it leaves. The magic, the type and the length are
  read in place; the buffer is only advanced once the whole packet has arrived, before its body is
  split.
\<close>

definition decode :: "gearman_codec \<Rightarrow> bytes \<Rightarrow> packet option result \<times> bytes" where
  "decode c src =
     (if length src < HEADER_LEN then (Inr None, src)
      else
        let mb = take 4 src in
        case (if mb = REQ_MAGIC then Some Req else if mb = RES_MAGIC then Some Res else None) of
          None \<Rightarrow> (Inl (BadMagic mb), src)
        | Some m \<Rightarrow>
            (case try_from_u32 (from_be_bytes (src ! 4) (src ! 5) (src ! 6) (src ! 7)) of
               Inl e \<Rightarrow> (Inl e, src)
             | Inr t \<Rightarrow>
                 let len = from_be_bytes (src ! 8) (src ! 9) (src ! 10) (src ! 11) in
                 if max_payload_size c < len then (Inl (PayloadTooLarge len), src)
                 else if length src < HEADER_LEN + unat len then (Inr None, src)
                 else
                   let body = drop HEADER_LEN src;
                       payload = take (unat len) body;
                       rest = drop (unat len) body
                   in case split_args t payload of
                        Inl e \<Rightarrow> (Inl e, rest)
                      | Inr as \<Rightarrow> (Inr (Some \<lparr>magic = m, ptype = t, args = as\<rparr>), rest)))"

text \<open>\<^verbatim>\<open>Encoder::encode\<close>: the result and the output buffer it leaves.\<close>

definition encode :: "gearman_codec \<Rightarrow> packet \<Rightarrow> bytes \<Rightarrow> unit result \<times> bytes" where
  "encode c pkt dst =
     (let expected = arg_count (ptype pkt) in
      if length (args pkt) \<noteq> expected
      then (Inl (WrongArgCount (ptype pkt) expected (length (args pkt))), dst)
      else
        let body_len = encoded_body_len pkt in
        if unat (max_payload_size c) < body_len
        then (Inl (PayloadTooLarge (max_payload_size c)), dst)
        else (Inr (), dst @ magic_bytes (magic pkt)
                     @ to_be_bytes (packet_type_code (ptype pkt))
                     @ to_be_bytes (of_nat body_len)
                     @ put_args 0 (args pkt)))"

lemma decode_Nil [simp]: "decode c [] = (Inr None, [])"
  by (simp add: decode_def HEADER_LEN_def)

lemma default_cap [simp]: "max_payload_size codec_new = 0x4000000"
  by (simp add: codec_new_def DEFAULT_MAX_PAYLOAD_SIZE_def)

section \<open>The wire form of a packet\<close>

definition header_bytes :: "packet_magic \<Rightarrow> packet_type \<Rightarrow> u32 \<Rightarrow> bytes" where
  "header_bytes m t len = magic_bytes m @ to_be_bytes (packet_type_code t) @ to_be_bytes len"

definition encoded :: "packet \<Rightarrow> bytes" where
  "encoded p = header_bytes (magic p) (ptype p) (of_nat (encoded_body_len p)) @ put_args 0 (args p)"

text \<open>What the encoder checks, and with it what a receiver needs to read the arguments back.\<close>

definition encodable :: "gearman_codec \<Rightarrow> packet \<Rightarrow> bool" where
  "encodable c p \<longleftrightarrow>
     length (args p) = arg_count (ptype p) \<and> encoded_body_len p \<le> unat (max_payload_size c)"

definition sendable :: "gearman_codec \<Rightarrow> packet \<Rightarrow> bool" where
  "sendable c p \<longleftrightarrow> encodable c p \<and> separable (args p)"

lemma length_header_bytes [simp]: "length (header_bytes m t len) = HEADER_LEN"
  by (simp add: header_bytes_def HEADER_LEN_def)

lemma length_encoded [wire]: "length (encoded p) = HEADER_LEN + encoded_body_len p"
  by (simp add: encoded_def length_body)

lemma encode_encodable [wire]: "encodable c p \<Longrightarrow> encode c p dst = (Inr (), dst @ encoded p)"
  by (simp add: encode_def encodable_def encoded_def header_bytes_def Let_def)

lemma body_len_u32:
  assumes "encodable c p"
  shows "unat (of_nat (encoded_body_len p) :: u32) = encoded_body_len p"
proof -
  have "encoded_body_len p < 2 ^ 32"
    using assms unsigned_less [of "max_payload_size c", where ?'a = nat]
    by (simp add: encodable_def)
  then show ?thesis by (simp add: unat_of_nat)
qed


section \<open>Decoding a header\<close>

lemma header_bytes_cons:
  "header_bytes m t len =
     [magic_bytes m ! 0, magic_bytes m ! 1, magic_bytes m ! 2, magic_bytes m ! 3,
      ucast (drop_bit 24 (packet_type_code t)), ucast (drop_bit 16 (packet_type_code t)),
      ucast (drop_bit 8 (packet_type_code t)), ucast (packet_type_code t),
      ucast (drop_bit 24 len), ucast (drop_bit 16 len), ucast (drop_bit 8 len), ucast len]"
  by (cases m) (simp_all add: header_bytes_def REQ_MAGIC_def RES_MAGIC_def to_be_bytes_def)

lemma magic_test:
  "(if magic_bytes m = REQ_MAGIC then Some Req else if magic_bytes m = RES_MAGIC then Some Res
    else None) = Some m"
  by (cases m) (simp_all add: REQ_MAGIC_def RES_MAGIC_def)

text \<open>Behind a well-formed header only the length and the body decide.\<close>

lemma decode_header:
  "decode c (header_bytes m t len @ s) =
     (if max_payload_size c < len then (Inl (PayloadTooLarge len), header_bytes m t len @ s)
      else if length s < unat len then (Inr None, header_bytes m t len @ s)
      else (case split_args t (take (unat len) s) of
              Inl e \<Rightarrow> (Inl e, drop (unat len) s)
            | Inr as \<Rightarrow> (Inr (Some \<lparr>magic = m, ptype = t, args = as\<rparr>), drop (unat len) s)))"
proof -
  let ?src = "header_bytes m t len @ s"
  have mb: "take 4 ?src = magic_bytes m"
    by (simp add: header_bytes_def)
  have nths: "from_be_bytes (?src ! 4) (?src ! 5) (?src ! 6) (?src ! 7) = packet_type_code t"
    "from_be_bytes (?src ! 8) (?src ! 9) (?src ! 10) (?src ! 11) = len"
    by (simp_all add: header_bytes_cons from_to_be_bytes)
  have body: "drop HEADER_LEN ?src = s" and long: "\<not> length ?src < HEADER_LEN"
    and len: "length ?src < HEADER_LEN + unat len \<longleftrightarrow> length s < unat len"
    by simp_all
  show ?thesis
    unfolding decode_def Let_def mb nths try_from_code magic_test body len
    using long by simp
qed

lemma take4: "4 \<le> length xs \<Longrightarrow> take 4 xs = [xs ! 0, xs ! 1, xs ! 2, xs ! 3]"
  by (auto simp: numeral_eq_Suc Suc_le_length_iff)

lemma twelve_bytes:
  assumes "\<not> length src < HEADER_LEN"
  shows "src = take 4 src @ [src ! 4, src ! 5, src ! 6, src ! 7]
               @ [src ! 8, src ! 9, src ! 10, src ! 11] @ drop HEADER_LEN src"
proof -
  have len: "12 \<le> length src" using assms by (simp add: HEADER_LEN_def)
  have a: "src = take 4 src @ drop 4 src"
    and b: "drop 4 src = take 4 (drop 4 src) @ drop 4 (drop 4 src)"
    and d: "drop 8 src = take 4 (drop 8 src) @ drop 4 (drop 8 src)"
    by (simp_all only: append_take_drop_id)
  have "take 4 (drop 4 src) = [src ! 4, src ! 5, src ! 6, src ! 7]"
    "take 4 (drop 8 src) = [src ! 8, src ! 9, src ! 10, src ! 11]"
    using len take4 [of "drop 4 src"] take4 [of "drop 8 src"] by simp_all
  moreover have "drop 4 (drop 4 src) = drop 8 src" "drop 4 (drop 8 src) = drop HEADER_LEN src"
    by (simp_all add: HEADER_LEN_def)
  ultimately show ?thesis using a b d by metis
qed

lemma header_split:
  assumes "\<not> length src < HEADER_LEN" and "take 4 src = magic_bytes m"
    and "try_from_u32 (from_be_bytes (src ! 4) (src ! 5) (src ! 6) (src ! 7)) = Inr t"
  shows "src = header_bytes m t (from_be_bytes (src ! 8) (src ! 9) (src ! 10) (src ! 11))
               @ drop HEADER_LEN src"
proof -
  from try_from_Inr [OF assms(3)]
  have "to_be_bytes (packet_type_code t) = [src ! 4, src ! 5, src ! 6, src ! 7]"
    by (metis to_from_be_bytes)
  with twelve_bytes [OF assms(1)] assms(2) show ?thesis
    by (simp add: header_bytes_def to_from_be_bytes)
qed

text \<open>Every outcome of the decoder is one of the header errors or comes from a full header.\<close>

lemma decode_cases:
  obtains (short) "length src < HEADER_LEN" "decode c src = (Inr None, src)"
  | (bad_magic) "\<not> length src < HEADER_LEN" "take 4 src \<noteq> REQ_MAGIC" "take 4 src \<noteq> RES_MAGIC"
      "decode c src = (Inl (BadMagic (take 4 src)), src)"
  | (bad_type) n where "\<not> length src < HEADER_LEN"
      "n = from_be_bytes (src ! 4) (src ! 5) (src ! 6) (src ! 7)"
      "try_from_u32 n = Inl (UnknownPacketType n)"
      "decode c src = (Inl (UnknownPacketType n), src)"
  | (header) m t len s where "src = header_bytes m t len @ s"
proof (cases "length src < HEADER_LEN")
  case True
  then show ?thesis using short by (simp add: decode_def)
next
  case long: False
  let ?n = "from_be_bytes (src ! 4) (src ! 5) (src ! 6) (src ! 7)"
  show ?thesis
  proof (cases "take 4 src = REQ_MAGIC \<or> take 4 src = RES_MAGIC")
    case False
    then show ?thesis using long bad_magic by (simp add: decode_def)
  next
    case True
    then obtain m where m: "take 4 src = magic_bytes m"
      by (metis magic_bytes.simps)
    show ?thesis
    proof (cases "try_from_u32 ?n")
      case (Inl e)
      then have e: "e = UnknownPacketType ?n" by (rule try_from_Inl)
      have "decode c src = (Inl e, src)"
        unfolding decode_def Let_def m magic_test Inl using long by simp
      with bad_type [OF long refl] Inl e show ?thesis by simp
    next
      case (Inr t)
      from header [OF header_split [OF long m Inr]] show ?thesis .
    qed
  qed
qed


section \<open>The codec keeps the framing contract\<close>

lemma len_within_cap:
  "encodable c p \<Longrightarrow> \<not> max_payload_size c < (of_nat (encoded_body_len p) :: u32)"
  by (simp add: word_less_nat_alt body_len_u32) (simp add: encodable_def)

lemma decode_encoded [wire]:
  assumes "sendable c p"
  shows "decode c (encoded p @ rest) = (Inr (Some p), rest)"
proof -
  from assms have e: "encodable c p" and sep: "separable (args p)"
    and n: "length (args p) = arg_count (ptype p)"
    by (auto simp: sendable_def encodable_def)
  have "take (encoded_body_len p) (put_args 0 (args p) @ rest) = put_args 0 (args p)"
    "drop (encoded_body_len p) (put_args 0 (args p) @ rest) = rest"
    by (simp_all add: length_body [symmetric])
  then show ?thesis
    using len_within_cap [OF e] split_args_put [OF n sep] length_body [of p]
    by (simp add: encoded_def decode_header body_len_u32 [OF e])
qed

lemma decode_Some:
  assumes "decode c src = (Inr (Some p), rest)"
  shows "sendable c p \<and> src = encoded p @ rest"
proof (cases rule: decode_cases [of src c])
  case (header m t len s)
  with assms obtain as where sp: "split_args t (take (unat len) s) = Inr as"
    and p: "p = \<lparr>magic = m, ptype = t, args = as\<rparr>" and rest: "rest = drop (unat len) s"
    and cap: "\<not> max_payload_size c < len" and long: "unat len \<le> length s"
    by (auto simp: decode_header split: if_splits sum.splits)
  from split_args_Inr [OF sp] have as: "length as = arg_count t" "separable as"
    "put_args 0 as = take (unat len) s" by auto
  then have body: "encoded_body_len p = unat len"
    using long length_body [of p] p by simp
  then have "src = encoded p @ rest"
    using header as(3) p rest by (simp add: encoded_def)
  moreover have "sendable c p"
    using as p body cap by (simp add: sendable_def encodable_def word_less_nat_alt)
  ultimately show ?thesis by simp
qed (use assms in simp_all)

lemma decode_prefix:
  assumes p: "sendable c p" and pre: "encoded p = pre @ suf" "suf \<noteq> []"
  shows "decode c pre = (Inr None, pre)"
proof (cases "length pre < HEADER_LEN")
  case True
  then show ?thesis by (simp add: decode_def)
next
  case False
  let ?h = "header_bytes (magic p) (ptype p) (of_nat (encoded_body_len p))"
  from p have e: "encodable c p" by (simp add: sendable_def)
  have "length pre + length suf = HEADER_LEN + encoded_body_len p"
    by (metis length_encoded length_append pre(1))
  moreover have "0 < length suf" using pre(2) by simp
  ultimately have len: "length pre < HEADER_LEN + encoded_body_len p" by linarith
  have "take (length ?h) (encoded p) = ?h" by (simp add: encoded_def)
  then have "take (length ?h) pre = ?h" using pre(1) False by simp
  then obtain s where "pre = ?h @ s" by (metis append_take_drop_id)
  then show ?thesis
    using len len_within_cap [OF e] by (simp add: decode_header body_len_u32 [OF e])
qed

interpretation gearman_framing: framing encoded "decode c" "sendable c" for c
  by unfold_locales (auto simp: decode_encoded decode_prefix)

section \<open>Properties of the codec\<close>

text \<open>
  C3. Round trip and canonical form: the decoder returns the packet \<open>p\<close> and leaves \<open>rest\<close> exactly
  when the buffer is what the encoder writes for \<open>p\<close>, followed by \<open>rest\<close>, and \<open>p\<close> is a packet with
  the right number of arguments, a body within the cap and NUL bytes in its last argument only.
  No other bytes decode to \<open>p\<close>.
\<close>

theorem decode_exact:
  "decode c src = (Inr (Some p), rest) \<longleftrightarrow>
     (sendable c p \<and> encode c p [] = (Inr (), encoded p) \<and> src = encoded p @ rest)"
  using decode_Some [of c src p rest] decode_encoded [of c p rest] encode_encodable [of c p "[]"]
  by (auto simp: sendable_def)

text \<open>
  C4. Packets survive any fragmentation of the byte stream: when the reads, in whatever pieces the
  transport delivers them, concatenate to the encodings of \<open>ps\<close>, a reader that decodes after each
  read gets exactly the packets \<open>ps\<close>, in order, with no error and no byte left over.
\<close>

theorem decode_any_chunks:
  assumes "\<forall>p \<in> set ps. sendable c p" and "concat chunks = concat (map encoded ps)"
  shows "feed (decode c) [] chunks = (ps, None, [])"
  using gearman_framing.feed_stream [of ps c "[]" chunks] assms
  by simp

theorem decode_any_chunks_witness:
  "feed (decode codec_new) []
     [[0, 0x52, 0x45, 0x51, 0, 0, 0], [6, 0, 0, 0, 0, 0, 0x52], [0x45, 0x53, 0, 0, 0, 8, 0, 0, 0, 1], [0x48]]
   = ([request Noop [], response JobCreated [[0x48]]], None, [])"
  by (rule decode_any_chunks [where ps = "[request Noop [], response JobCreated [[0x48]]]"])
    (simp_all add: sendable_def encodable_def encoded_def header_bytes_def REQ_MAGIC_def
      RES_MAGIC_def to_be_bytes_def encoded_body_len_def)

text \<open>
  Asking for more bytes is safe and bounded: when the decoder returns \<^verbatim>\<open>Ok(None)\<close> it has left the
  buffer alone, and the buffer is shorter than the header plus the cap, so a peer cannot make it
  wait for, or make the reader hold, more than that before a packet or an error comes out. After an
  error in the header the buffer is also unchanged.
\<close>

theorem decode_waits_bounded:
  assumes "decode c src = (r, src')"
  shows "(r = Inr None \<longrightarrow> src' = src \<and> length src < HEADER_LEN + unat (max_payload_size c))
    \<and> (\<forall>e. r = Inl e \<longrightarrow> (\<nexists>t why. e = MalformedBody t why) \<longrightarrow> src' = src)"
proof (cases rule: decode_cases [of src c])
  case (header m t len s)
  have "\<nexists>e. split_args t b = Inl e \<and> (\<nexists>t why. e = MalformedBody t why)" for b
    by (auto simp: split_args_def Let_def split: if_splits dest: split_loop_Inl)
  with assms header show ?thesis
    by (auto simp: decode_header not_less word_le_nat_alt split: if_splits sum.splits)
qed (use assms in auto)

theorem decode_waits_bounded_witness:
  "length [0, 0x52, 0x45, 0x51, 0, 0, 0, 16, 0, 0, 0, 3, 7 :: u8]
     < HEADER_LEN + unat (max_payload_size (with_max_payload_size 3))"
  using decode_waits_bounded [of "with_max_payload_size 3"
      "[0, 0x52, 0x45, 0x51, 0, 0, 0, 16, 0, 0, 0, 3, 7]"
      "Inr None" "[0, 0x52, 0x45, 0x51, 0, 0, 0, 16, 0, 0, 0, 3, 7]"]
  by (simp add: decode_def HEADER_LEN_def REQ_MAGIC_def try_from_u32_def from_be_bytes_def
      with_max_payload_size_def)

text \<open>
  A malformed body costs one packet, not the stream: the decoder reports the error after it has
  removed the whole packet, so what follows is decoded as if the malformed packet had not been
  there. A length above the cap is reported from the header alone, whatever has arrived.
\<close>

theorem decode_error_position:
  assumes "len \<le> max_payload_size c" and "unat len = length body"
    and "split_args t body = Inl e"
  shows "decode c (header_bytes m t len @ body @ rest) = (Inl e, rest)
    \<and> (max_payload_size c < len' \<longrightarrow>
         decode c (header_bytes m t len' @ s) = (Inl (PayloadTooLarge len'), header_bytes m t len' @ s))"
proof -
  have "\<not> max_payload_size c < len" using assms(1) by (simp add: not_less)
  then show ?thesis using assms(2,3) by (simp add: decode_header)
qed

theorem decode_error_position_witness:
  "decode codec_new (header_bytes Res WorkComplete 2 @ [0x48, 0x3A] @ [9])
     = (Inl (MalformedBody WorkComplete ''missing NUL argument separator''), [9])"
  using decode_error_position [of 2 codec_new "[0x48, 0x3A]" WorkComplete
      "MalformedBody WorkComplete ''missing NUL argument separator''" Res "[9]"]
  by (simp add: split_args_def word_le_nat_alt)

text \<open>
  Every branch of the encoder: it appends the wire form exactly when the argument count is right
  and the body within the cap; otherwise it leaves the output untouched and reports the count, or
  the cap (not the length of the body that exceeded it).
\<close>

theorem encode_exact:
  "encode c p dst =
     (if length (args p) \<noteq> arg_count (ptype p)
      then (Inl (WrongArgCount (ptype p) (arg_count (ptype p)) (length (args p))), dst)
      else if unat (max_payload_size c) < length (put_args 0 (args p))
      then (Inl (PayloadTooLarge (max_payload_size c)), dst)
      else (Inr (), dst @ header_bytes (magic p) (ptype p) (of_nat (length (put_args 0 (args p))))
                        @ put_args 0 (args p)))"
  by (simp add: encode_def Let_def header_bytes_def length_body)

text \<open>
  C40. The encoder does not check its arguments for NUL: a function name with an embedded NUL is
  accepted and read back by the peer as a different submission, whose unique id is what followed
  the NUL and whose workload starts with the intended unique id.
\<close>

theorem nul_argument_resplits:
  assumes "nul_free f" and "nul_free g" and "nul_free u"
    and "encodable c (request SubmitJob [f @ 0 # g, u, d])"
  shows "encode c (request SubmitJob [f @ 0 # g, u, d]) []
           = (Inr (), encoded (request SubmitJob [f @ 0 # g, u, d]))
    \<and> decode c (encoded (request SubmitJob [f @ 0 # g, u, d]))
           = (Inr (Some (request SubmitJob [f, g, u @ 0 # d])), [])"
proof -
  let ?p = "request SubmitJob [f @ 0 # g, u, d]" and ?q = "request SubmitJob [f, g, u @ 0 # d]"
  have same: "encoded ?p = encoded ?q" and "encoded_body_len ?p = encoded_body_len ?q"
    by (simp_all add: encoded_def encoded_body_len_def)
  then have "sendable c ?q"
    using assms by (simp add: sendable_def encodable_def)
  then show ?thesis
    using decode_encoded [of c ?q "[]"] encode_encodable [OF assms(4), of "[]"] same by simp
qed

theorem nul_argument_resplits_witness:
  "decode codec_new (encoded (request SubmitJob [[0x61, 0, 0x62], [0x75], [0x64]]))
     = (Inr (Some (request SubmitJob [[0x61], [0x62], [0x75, 0, 0x64]])), [])"
  using nul_argument_resplits [of "[0x61]" "[0x62]" "[0x75]" codec_new "[0x64]"]
  by (simp add: encodable_def encoded_body_len_def)

end
