(* ===== verification/Connection.thy ===== *)
theory Connection
  imports Codec
begin

text \<open>
  \<^verbatim>\<open>src/conn.rs\<close>, and the reconnect delays that \<^verbatim>\<open>run_server_actor\<close> and \<^verbatim>\<open>run_worker_connection\<close> share.
  The framed transport is \<^verbatim>\<open>tokio_util\<close>'s: what its stream yields next and how its flush ends are
  inputs of the model; that an item sent through it goes through the codec's encoder is its use
  here.
\<close>

section \<open>Connections\<close>

text \<open>
  A \<^verbatim>\<open>Connection\<close> is a stream and the codec that frames it; the framed transport has no other part that
  the program sets. The field is private and \<^verbatim>\<open>from_stream\<close> is the only constructor, so the codec of
  every connection is \<^const>\<open>codec_new\<close>.
\<close>

record 's connection =
  cn_stream :: 's
  cn_codec :: gearman_codec

definition connection_from_stream :: "'s \<Rightarrow> 's connection" where
  "connection_from_stream stream = \<lparr>cn_stream = stream, cn_codec = codec_new\<rparr>"

text \<open>\<^verbatim>\<open>Connection::connect\<close>: \<open>tcp addr\<close> is how opening the socket ends.\<close>

definition connection_connect :: "(bytes \<Rightarrow> io_error + 's) \<Rightarrow> bytes \<Rightarrow> 's connection result" where
  "connection_connect tcp addr =
     (case tcp addr of Inl e \<Rightarrow> Inl (Io e) | Inr stream \<Rightarrow> Inr (connection_from_stream stream))"

section \<open>Sending and receiving\<close>

text \<open>
  \<^verbatim>\<open>Connection::send\<close>: the packet is encoded into the write buffer, and unless that fails the result
  is \<open>net\<close>, the outcome of writing the buffer out.
\<close>

definition conn_send :: "packet \<Rightarrow> unit result \<Rightarrow> bytes \<Rightarrow> unit result \<times> bytes" where
  "conn_send packet net wbuf =
     (case encode codec_new packet wbuf of
        (Inl e, b) \<Rightarrow> (Inl e, b)
      | (Inr _, b) \<Rightarrow> (net, b))"

text \<open>\<^verbatim>\<open>Connection::recv\<close>: \<^verbatim>\<open>framed.next().await.transpose()\<close>.\<close>

definition conn_recv :: "packet result option \<Rightarrow> packet option result" where
  "conn_recv nxt =
     (case nxt of
        None \<Rightarrow> Inr None
      | Some (Inr packet) \<Rightarrow> Inr (Some packet)
      | Some (Inl e) \<Rightarrow> Inl e)"

text \<open>The result alone; \<^const>\<open>None\<close> is success.\<close>

definition send_error :: "packet \<Rightarrow> unit result \<Rightarrow> gearman_error option" where
  "send_error packet net =
     (case fst (conn_send packet net []) of Inl e \<Rightarrow> Some e | Inr _ \<Rightarrow> None)"

lemma send_error_encodable:
  "encodable codec_new p \<Longrightarrow> send_error p net = (case net of Inl e \<Rightarrow> Some e | Inr _ \<Rightarrow> None)"
  by (simp add: send_error_def conn_send_def encode_encodable)

lemma send_error_None: "send_error p net = None \<longleftrightarrow> encodable codec_new p \<and> net = Inr ()"
  by (auto simp: send_error_def conn_send_def encode_def Let_def encodable_def split: sum.splits if_splits)

section \<open>Reconnect delays\<close>

text \<open>A \<^verbatim>\<open>Duration\<close> is its number of milliseconds.\<close>

definition INITIAL_BACKOFF :: nat where
  "INITIAL_BACKOFF = 100"

definition MAX_BACKOFF :: nat where
  "MAX_BACKOFF = 30000"

definition next_backoff :: "nat \<Rightarrow> nat" where
  "next_backoff d = min (d * 2) MAX_BACKOFF"

lemma next_backoff_iterate:
  "(next_backoff ^^ k) INITIAL_BACKOFF = min (INITIAL_BACKOFF * 2 ^ k) MAX_BACKOFF"
  by (induction k) (auto simp: next_backoff_def INITIAL_BACKOFF_def MAX_BACKOFF_def min_def)

definition backoff_ok :: "nat \<Rightarrow> bool" where
  "backoff_ok d \<longleftrightarrow> INITIAL_BACKOFF \<le> d \<and> d \<le> MAX_BACKOFF"

lemma backoff_ok_initial [simp]: "backoff_ok INITIAL_BACKOFF"
  by (simp add: backoff_ok_def INITIAL_BACKOFF_def MAX_BACKOFF_def)

lemma backoff_ok_next: "backoff_ok d \<Longrightarrow> backoff_ok (next_backoff d)"
  by (simp add: backoff_ok_def next_backoff_def INITIAL_BACKOFF_def MAX_BACKOFF_def)

end
