(* ===== verification/Client_Job.thy ===== *)
theory Client_Job
  imports Packet
begin

text \<open>
  \<^verbatim>\<open>src/client/job.rs\<close> and \<^verbatim>\<open>submit_packet_type\<close> of \<^verbatim>\<open>src/client/mod.rs\<close>: priorities, submit options,
  job handles, job events and job statuses, and what the client reads from \<^verbatim>\<open>WORK_*\<close> and
  \<^verbatim>\<open>STATUS_RES\<close> packets.
\<close>

section \<open>Data\<close>

datatype priority = High | Normal | Low

record submit_options =
  so_priority :: priority
  so_background :: bool

definition submit_options_default :: submit_options where
  "submit_options_default = \<lparr>so_priority = Normal, so_background = False\<rparr>"

definition foreground :: submit_options where
  "foreground = submit_options_default"

definition background :: submit_options where
  "background = submit_options_default\<lparr>so_background := True\<rparr>"

definition with_priority :: "submit_options \<Rightarrow> priority \<Rightarrow> submit_options" where
  "with_priority opts p = opts\<lparr>so_priority := p\<rparr>"

record job_handle =
  jh_server_index :: nat
  jh_handle :: bytes
  jh_unique :: "bytes option"

text \<open>\<^verbatim>\<open>JobHandle::as_str\<close> and its \<^verbatim>\<open>Display\<close>.\<close>

definition as_str :: "job_handle \<Rightarrow> bytes" where
  "as_str h = jh_handle h"

datatype job_event =
    Status u64 u64
  | Data bytes
  | Warning bytes
  | Complete bytes
  | Fail
  | Exception bytes

fun terminal_event :: "job_event \<Rightarrow> bool" where
  "terminal_event (Complete _) = True"
| "terminal_event Fail = True"
| "terminal_event (Exception _) = True"
| "terminal_event _ = False"

record job_status =
  js_known :: bool
  js_running :: bool
  js_numerator :: u64
  js_denominator :: u64
  js_client_count :: "u32 option"

definition submit_packet_type :: "priority \<Rightarrow> bool \<Rightarrow> packet_type" where
  "submit_packet_type p bg =
     (case (p, bg) of
        (Normal, False) \<Rightarrow> SubmitJob
      | (Normal, True) \<Rightarrow> SubmitJobBg
      | (High, False) \<Rightarrow> SubmitJobHigh
      | (High, True) \<Rightarrow> SubmitJobHighBg
      | (Low, False) \<Rightarrow> SubmitJobLow
      | (Low, True) \<Rightarrow> SubmitJobLowBg)"

lemma submit_packet_type_inject:
  "submit_packet_type p bg = submit_packet_type p' bg' \<longleftrightarrow> p = p' \<and> bg = bg'"
  by (cases p; cases p'; cases bg; cases bg') (simp_all add: submit_packet_type_def)

lemma submit_packet_type_args: "arg_count (submit_packet_type p bg) = 3"
  by (cases p; cases bg) (simp_all add: submit_packet_type_def)

section \<open>Reading packets\<close>

text \<open>\<^verbatim>\<open>packet.arg_str(i).and_then(|s| s.parse().ok()).unwrap_or(0)\<close>.\<close>

definition arg_u64_or_0 :: "packet \<Rightarrow> nat \<Rightarrow> u64" where
  "arg_u64_or_0 p i =
     (case Option.bind (arg_str p i) from_str_u64 of Some n \<Rightarrow> n | None \<Rightarrow> 0)"

text \<open>\<^verbatim>\<open>packet.args.get(i).cloned().unwrap_or_default()\<close>.\<close>

definition arg_or_empty :: "packet \<Rightarrow> nat \<Rightarrow> bytes" where
  "arg_or_empty p i = (case arg p i of Some b \<Rightarrow> b | None \<Rightarrow> [])"

text \<open>\<^verbatim>\<open>packet.arg_str(i).unwrap_or_default().to_string()\<close>.\<close>

definition arg_str_or_empty :: "packet \<Rightarrow> nat \<Rightarrow> bytes" where
  "arg_str_or_empty p i = (case arg_str p i of Some b \<Rightarrow> b | None \<Rightarrow> [])"

text \<open>The event of a \<^verbatim>\<open>WORK_*\<close> packet; \<^const>\<open>None\<close> is the \<^verbatim>\<open>unreachable!\<close> branch of its caller.\<close>

definition work_event :: "packet \<Rightarrow> job_event option" where
  "work_event p =
     (case ptype p of
        WorkStatus \<Rightarrow> Some (Status (arg_u64_or_0 p 1) (arg_u64_or_0 p 2))
      | WorkComplete \<Rightarrow> Some (Complete (arg_or_empty p 1))
      | WorkFail \<Rightarrow> Some Fail
      | WorkData \<Rightarrow> Some (Data (arg_or_empty p 1))
      | WorkWarning \<Rightarrow> Some (Warning (arg_or_empty p 1))
      | WorkException \<Rightarrow> Some (Exception (arg_or_empty p 1))
      | _ \<Rightarrow> None)"

definition parse_status_res :: "packet \<Rightarrow> job_status" where
  "parse_status_res p =
     \<lparr>js_known = (arg_str p 1 = Some [0x31]),
      js_running = (arg_str p 2 = Some [0x31]),
      js_numerator = arg_u64_or_0 p 3,
      js_denominator = arg_u64_or_0 p 4,
      js_client_count = None\<rparr>"

definition parse_status_res_unique :: "packet \<Rightarrow> job_status" where
  "parse_status_res_unique p =
     \<lparr>js_known = (arg_str p 1 = Some [0x31]),
      js_running = (arg_str p 2 = Some [0x31]),
      js_numerator = arg_u64_or_0 p 3,
      js_denominator = arg_u64_or_0 p 4,
      js_client_count = Option.bind (arg_str p 5) from_str_u32\<rparr>"

lemma arg_u64_dec:
  "arg p i = Some (dec (unat n)) \<Longrightarrow> arg_u64_or_0 p i = n"
  by (simp add: arg_u64_or_0_def arg_str_def)

text \<open>The arguments of a status reply, as a server prints a status.\<close>

definition bool_arg :: "bool \<Rightarrow> bytes" where
  "bool_arg b = (if b then [0x31] else [0x30])"

lemma bool_arg_read [simp]: "utf8_valid (bool_arg b)" "bool_arg b = [0x31] \<longleftrightarrow> b"
  by (simp_all add: bool_arg_def word_le_nat_alt)

text \<open>
  Status replies are read back: for the decimal and 0/1 fields a server prints, \<^verbatim>\<open>STATUS_RES\<close> gives
  exactly the known and running flags, the two 64-bit progress numbers and no client count, and
  \<^verbatim>\<open>STATUS_RES_UNIQUE\<close> the same with the 32-bit client count.
\<close>

theorem status_replies_roundtrip:
  "parse_status_res (response StatusRes
      [h, bool_arg k, bool_arg r, dec (unat n), dec (unat d)])
    = \<lparr>js_known = k, js_running = r, js_numerator = n, js_denominator = d, js_client_count = None\<rparr>
  \<and> parse_status_res_unique (response StatusResUnique
      [h, bool_arg k, bool_arg r, dec (unat n), dec (unat d), dec (unat c)])
    = \<lparr>js_known = k, js_running = r, js_numerator = n, js_denominator = d, js_client_count = Some c\<rparr>"
  by (simp add: parse_status_res_def parse_status_res_unique_def arg_u64_or_0_def arg_str_def arg_def)

end
