(* ===== verification/Subscribers.thy ===== *)
theory Subscribers
  imports Client_Job "HOL-Library.Multiset"
begin

text \<open>
  \<^verbatim>\<open>HandleSubscribers\<close> and the functions on it in \<^verbatim>\<open>src/client/mod.rs\<close>: who receives which copy of a
  job's events. An event channel's sender is a number; an operation returns, beside the new state,
  the list of sends it makes, in order. A send on a channel whose receiver is gone is in the list
  too: nobody reads it.
\<close>

section \<open>Operations\<close>

type_synonym chan = nat

record handle_subscribers =
  hs_slots :: "chan option list"
  hs_cursor :: nat

text \<open>\<^verbatim>\<open>#[derive(Default)]\<close>.\<close>

definition subscribers_default :: handle_subscribers where
  "subscribers_default = \<lparr>hs_slots = [], hs_cursor = 0\<rparr>"

definition add :: "handle_subscribers \<Rightarrow> chan \<Rightarrow> handle_subscribers" where
  "add subs sender = subs\<lparr>hs_slots := hs_slots subs @ [Some sender]\<rparr>"

text \<open>\<^verbatim>\<open>Vec::swap_remove\<close>, used in range only: the last element takes the removed one's place.\<close>

definition swap_remove :: "nat \<Rightarrow> 'a list \<Rightarrow> 'a list" where
  "swap_remove i xs = butlast (xs[i := last xs])"

definition deliver :: "handle_subscribers \<Rightarrow> job_event \<Rightarrow> bool
    \<Rightarrow> bool \<times> handle_subscribers \<times> (chan \<times> job_event) list" where
  "deliver subs event terminal =
     (if hs_slots subs = [] then (False, subs, [])
      else
        let cursor = (if length (hs_slots subs) \<le> hs_cursor subs then 0 else hs_cursor subs);
            slot = hs_slots subs ! cursor;
            slots = (if terminal then swap_remove cursor (hs_slots subs) else hs_slots subs);
            cursor' = (if terminal then cursor else cursor + 1);
            sends = (case slot of Some sender \<Rightarrow> [(sender, event)] | None \<Rightarrow> []);
            cursor'' = (if length slots \<le> cursor' then 0 else cursor')
        in (slots \<noteq> [], \<lparr>hs_slots = slots, hs_cursor = cursor''\<rparr>, sends))"

text \<open>The body of the sweep for one handle; \<open>closed\<close> says whose \<^verbatim>\<open>JobEventStream\<close> is gone.\<close>

definition prune_slots :: "(chan \<Rightarrow> bool) \<Rightarrow> handle_subscribers \<Rightarrow> handle_subscribers" where
  "prune_slots closed subs =
     subs\<lparr>hs_slots := map (\<lambda>slot. case slot of
            Some sender \<Rightarrow> if closed sender then None else Some sender
          | None \<Rightarrow> None) (hs_slots subs)\<rparr>"

section \<open>The cursor\<close>

definition cursor_ok :: "handle_subscribers \<Rightarrow> bool" where
  "cursor_ok subs \<longleftrightarrow> hs_cursor subs = 0 \<or> hs_cursor subs < length (hs_slots subs)"

lemma cursor_ok_default [simp]: "cursor_ok subscribers_default"
  by (simp add: cursor_ok_def subscribers_default_def)

lemma cursor_ok_add: "cursor_ok subs \<Longrightarrow> cursor_ok (add subs sender)"
  by (auto simp: cursor_ok_def add_def)

lemma length_swap_remove [simp]: "length (swap_remove i xs) = length xs - 1"
  by (simp add: swap_remove_def)

lemma swap_remove_Nil [simp]: "swap_remove i xs = [] \<longleftrightarrow> length xs \<le> 1"
  by (simp flip: length_0_conv)

lemma cursor_ok_deliver:
  "deliver subs event terminal = (remain, subs', sends) \<Longrightarrow> cursor_ok subs \<Longrightarrow> cursor_ok subs'"
  by (auto simp: deliver_def Let_def cursor_ok_def split: if_splits)

lemma cursor_ok_prune: "cursor_ok (prune_slots closed subs) = cursor_ok subs"
  by (simp add: cursor_ok_def prune_slots_def)

lemma deliver_more:
  "deliver subs event terminal = (remain, subs', sends) \<Longrightarrow> remain \<longleftrightarrow> hs_slots subs' \<noteq> []"
  by (auto simp: deliver_def Let_def split: if_splits)

section \<open>Rounds of copies\<close>

text \<open>Successive deliveries, with all their sends.\<close>

fun deliver_all :: "handle_subscribers \<Rightarrow> (job_event \<times> bool) list
    \<Rightarrow> handle_subscribers \<times> (chan \<times> job_event) list" where
  "deliver_all subs [] = (subs, [])"
| "deliver_all subs ((event, terminal) # copies) =
     (case deliver subs event terminal of (_, subs', sends) \<Rightarrow>
        (case deliver_all subs' copies of (subs'', sends') \<Rightarrow> (subs'', sends @ sends')))"

text \<open>The senders a list of slots still holds.\<close>

fun live :: "chan option list \<Rightarrow> chan list" where
  "live [] = []"
| "live (None # slots) = live slots"
| "live (Some c # slots) = c # live slots"

lemma live_append [simp]: "live (xs @ ys) = live xs @ live ys"
  by (induction xs rule: live.induct) auto

lemma set_live: "c \<in> set (live slots) \<longleftrightarrow> Some c \<in> set slots"
  by (induction slots rule: live.induct) auto

lemma live_prune:
  "live (hs_slots (prune_slots closed subs)) = filter (\<lambda>c. \<not> closed c) (live (hs_slots subs))"
proof -
  have "live (map (\<lambda>slot. case slot of
            Some sender \<Rightarrow> if closed sender then None else Some sender
          | None \<Rightarrow> None) slots) = filter (\<lambda>c. \<not> closed c) (live slots)" for slots
    by (induction slots rule: live.induct) auto
  then show ?thesis by (simp add: prune_slots_def)
qed

lemma deliver_all_append:
  "deliver_all subs (xs @ ys) =
     (case deliver_all subs xs of (subs', sends) \<Rightarrow>
        (case deliver_all subs' ys of (subs'', sends') \<Rightarrow> (subs'', sends @ sends')))"
  by (induction subs xs rule: deliver_all.induct) (auto split: prod.splits)

text \<open>The state of a round of \<open>n\<close> copies after \<open>k\<close> of them.\<close>

lemma deliver_copies:
  "\<lbrakk>k \<le> length slots; slots \<noteq> []\<rbrakk> \<Longrightarrow>
   deliver_all \<lparr>hs_slots = slots, hs_cursor = 0\<rparr> (replicate k (event, False))
   = (\<lparr>hs_slots = slots, hs_cursor = if k = length slots then 0 else k\<rparr>,
      map (\<lambda>c. (c, event)) (live (take k slots)))"
proof (induction k)
  case (Suc k)
  then have k: "k < length slots" by simp
  with Suc have IH: "deliver_all \<lparr>hs_slots = slots, hs_cursor = 0\<rparr> (replicate k (event, False))
      = (\<lparr>hs_slots = slots, hs_cursor = k\<rparr>, map (\<lambda>c. (c, event)) (live (take k slots)))"
    by simp
  have "deliver \<lparr>hs_slots = slots, hs_cursor = k\<rparr> event False
      = (True, \<lparr>hs_slots = slots, hs_cursor = if Suc k = length slots then 0 else Suc k\<rparr>,
         map (\<lambda>c. (c, event)) (live [slots ! k]))"
    using k Suc.prems by (auto simp: deliver_def Let_def split: option.splits)
  moreover have "replicate (Suc k) (event, False) = replicate k (event, False) @ [(event, False)]"
    by (simp add: replicate_append_same)
  ultimately show ?case
    using IH by (simp add: deliver_all_append take_Suc_conv_app_nth [OF k] del: replicate.simps)
qed simp

text \<open>A full round of a non-terminal event: one copy per slot, and the cursor is back at 0.\<close>

lemma deliver_round:
  "deliver_all \<lparr>hs_slots = slots, hs_cursor = 0\<rparr> (replicate (length slots) (event, False))
   = (\<lparr>hs_slots = slots, hs_cursor = 0\<rparr>, map (\<lambda>c. (c, event)) (live slots))"
proof (cases "slots = []")
  case False
  then show ?thesis using deliver_copies [of "length slots" slots event] by simp
qed simp

lemma deliver_round_subs:
  "\<lbrakk>hs_cursor subs = 0; length (hs_slots subs) = n\<rbrakk> \<Longrightarrow>
   deliver_all subs (replicate n (event, False))
   = (subs, map (\<lambda>c. (c, event)) (live (hs_slots subs)))"
  using deliver_round [of "hs_slots subs" event] by (cases subs) simp

lemma swap_remove_0:
  "swap_remove 0 (s # slots) = (if slots = [] then [] else last slots # butlast slots)"
  by (simp add: swap_remove_def)

text \<open>A round of a terminal event empties the slots, and every slot gets one copy.\<close>

lemma deliver_last_round:
  "\<exists>sends. deliver_all \<lparr>hs_slots = slots, hs_cursor = 0\<rparr> (replicate (length slots) (event, True))
     = (subscribers_default, sends) \<and> mset sends = mset (map (\<lambda>c. (c, event)) (live slots))"
proof (induction "length slots" arbitrary: slots)
  case 0
  then show ?case by (simp add: subscribers_default_def)
next
  case (Suc n)
  then obtain s rest where slots: "slots = s # rest" by (cases slots) auto
  let ?slots' = "swap_remove 0 slots"
  have len: "n = length ?slots'" using Suc.hyps(2) by simp
  have deliver: "deliver \<lparr>hs_slots = slots, hs_cursor = 0\<rparr> event True
      = (?slots' \<noteq> [], \<lparr>hs_slots = ?slots', hs_cursor = 0\<rparr>, map (\<lambda>c. (c, event)) (live [s]))"
    using slots by (auto simp: deliver_def Let_def split: option.splits)
  have "mset (live slots) = mset (live [s]) + mset (live ?slots')"
  proof (cases "rest = []")
    case False
    then have "rest = butlast rest @ [last rest]" by simp
    then have "mset (live rest) = mset (live [last rest]) + mset (live (butlast rest))"
      by (metis add.commute live_append mset_append)
    moreover have "live slots = live [s] @ live rest"
      using live_append [of "[s]" rest] slots by simp
    moreover have "live (last rest # butlast rest) = live [last rest] @ live (butlast rest)"
      using live_append [of "[last rest]" "butlast rest"] by simp
    ultimately show ?thesis using False slots by (simp add: swap_remove_0)
  qed (simp add: slots swap_remove_0)
  moreover from Suc.hyps(1) [OF len] obtain sends where
    "deliver_all \<lparr>hs_slots = ?slots', hs_cursor = 0\<rparr> (replicate n (event, True))
       = (subscribers_default, sends)"
    "mset sends = mset (map (\<lambda>c. (c, event)) (live ?slots'))"
    using len by auto
  ultimately show ?case
    using Suc.hyps(2) [symmetric] deliver by simp
qed

section \<open>A job with coalesced submissions\<close>

text \<open>
  What gearmand does for one job handle, per the comment on \<^verbatim>\<open>HandleSubscribers\<close>: it registers each
  submission (\<open>Join\<close>, with its \<^verbatim>\<open>JOB_CREATED\<close>) and sends every event once per registration, the
  copies back to back (\<open>Round\<close>). \<open>Sweep\<close> is the client's own sweep, when the streams in \<open>closed\<close>
  are gone. \<open>n\<close> counts the registrations as gearmand does, not as the client does.
\<close>

datatype job_step = Join chan | Round job_event | Sweep "chan list"

fun run_job :: "handle_subscribers \<Rightarrow> nat \<Rightarrow> job_step list
    \<Rightarrow> handle_subscribers \<times> nat \<times> (chan \<times> job_event) list" where
  "run_job subs n [] = (subs, n, [])"
| "run_job subs n (Join c # steps) = run_job (add subs c) (Suc n) steps"
| "run_job subs n (Round event # steps) =
     (case deliver_all subs (replicate n (event, False)) of (subs', sends) \<Rightarrow>
        (case run_job subs' n steps of (subs'', n', sends') \<Rightarrow> (subs'', n', sends @ sends')))"
| "run_job subs n (Sweep closed # steps) = run_job (prune_slots (\<lambda>c. c \<in> set closed) subs) n steps"

text \<open>The abstract promise: a submission gets the events sent after it joined, each once.\<close>

fun rounds :: "job_step list \<Rightarrow> job_event list" where
  "rounds [] = []"
| "rounds (Round event # steps) = event # rounds steps"
| "rounds (_ # steps) = rounds steps"

fun promised :: "chan \<Rightarrow> job_step list \<Rightarrow> job_event list" where
  "promised c [] = []"
| "promised c (Join d # steps) = (if c = d then rounds steps else promised c steps)"
| "promised c (_ # steps) = promised c steps"

fun joins :: "job_step list \<Rightarrow> chan list" where
  "joins [] = []"
| "joins (Join c # steps) = c # joins steps"
| "joins (_ # steps) = joins steps"

fun swept :: "chan \<Rightarrow> job_step list \<Rightarrow> bool" where
  "swept c [] = False"
| "swept c (Sweep closed # steps) = (c \<in> set closed \<or> swept c steps)"
| "swept c (_ # steps) = swept c steps"

definition events_to :: "chan \<Rightarrow> (chan \<times> job_event) list \<Rightarrow> job_event list" where
  "events_to c sends = map snd (filter (\<lambda>x. fst x = c) sends)"

lemma events_to_append [simp]: "events_to c (xs @ ys) = events_to c xs @ events_to c ys"
  by (simp add: events_to_def)

lemma events_to_round:
  "distinct cs \<Longrightarrow> events_to c (map (\<lambda>d. (d, event)) cs) = (if c \<in> set cs then [event] else [])"
  by (induction cs) (auto simp: events_to_def)

lemma run_job_invariant:
  assumes "hs_cursor subs = 0" and "length (hs_slots subs) = n"
    and "run_job subs n steps = (subs', n', sends)"
  shows "hs_cursor subs' = 0 \<and> length (hs_slots subs') = n' \<and> n' = n + length (joins steps)"
  using assms
proof (induction subs n steps arbitrary: sends rule: run_job.induct)
  case (3 subs n event steps)
  note deliver_round_subs [OF 3(2,3)]
  with 3 show ?case by (auto split: prod.splits)
qed (auto simp: add_def prune_slots_def)

lemma run_job_promised:
  assumes "hs_cursor subs = 0" and "length (hs_slots subs) = n"
    and "distinct (live (hs_slots subs) @ joins steps)" and "\<not> swept c steps"
    and "run_job subs n steps = (subs', n', sends)"
  shows "events_to c sends =
    (if c \<in> set (live (hs_slots subs)) then rounds steps else promised c steps)"
  using assms
proof (induction subs n steps arbitrary: sends rule: run_job.induct)
  case (1 subs n)
  then show ?case by (simp add: events_to_def)
next
  case (2 subs n d steps)
  then show ?case by (auto simp: add_def)
next
  case (3 subs n event steps)
  have round: "deliver_all subs (replicate n (event, False))
      = (subs, map (\<lambda>c. (c, event)) (live (hs_slots subs)))"
    by (rule deliver_round_subs [OF 3(2,3)])
  from 3(6) obtain sends' where rest: "run_job subs n steps = (subs', n', sends')"
    and sends: "sends = map (\<lambda>c. (c, event)) (live (hs_slots subs)) @ sends'"
    by (auto simp: round split: prod.splits)
  have "events_to c sends' = (if c \<in> set (live (hs_slots subs)) then rounds steps else promised c steps)"
    using 3(1) [OF round [symmetric] 3(2,3) _ _ rest] 3(4,5) by simp
  with 3(4) sends show ?case by (simp add: events_to_round)
next
  case (4 subs n closed steps)
  have d: "distinct (live (hs_slots (prune_slots (\<lambda>c. c \<in> set closed) subs)) @ joins steps)"
    using 4(4) by (auto simp: live_prune)
  have "events_to c sends = (if c \<in> set (live (hs_slots (prune_slots (\<lambda>c. c \<in> set closed) subs)))
      then rounds steps else promised c steps)"
    by (rule 4(1)) (use 4 d in \<open>auto simp: prune_slots_def\<close>)
  with 4(5) show ?case by (simp add: live_prune)
qed


section \<open>Properties\<close>

lemma live_promised:
  "\<lbrakk>hs_cursor subs = 0; length (hs_slots subs) = n; run_job subs n steps = (subs', n', sends);
    \<not> swept c steps; c \<in> set (live (hs_slots subs)) \<or> c \<in> set (joins steps)\<rbrakk>
   \<Longrightarrow> c \<in> set (live (hs_slots subs'))"
proof (induction subs n steps arbitrary: sends rule: run_job.induct)
  case (3 subs n event steps)
  note deliver_round_subs [OF 3(2,3)]
  with 3 show ?case by (auto split: prod.splits)
next
  case (4 subs n closed steps)
  have "hs_cursor (prune_slots (\<lambda>c. c \<in> set closed) subs) = 0"
    "length (hs_slots (prune_slots (\<lambda>c. c \<in> set closed) subs)) = n"
    using 4(2,3) by (simp_all add: prune_slots_def)
  from 4(1) [OF this] 4(4-6) show ?case by (auto simp: live_prune)
qed (auto simp: add_def)

lemma live_origin:
  "\<lbrakk>hs_cursor subs = 0; length (hs_slots subs) = n; run_job subs n steps = (subs', n', sends)\<rbrakk>
   \<Longrightarrow> distinct (live (hs_slots subs) @ joins steps) \<longrightarrow> distinct (live (hs_slots subs'))"
proof (induction subs n steps arbitrary: sends rule: run_job.induct)
  case (3 subs n event steps)
  note deliver_round_subs [OF 3(2,3)]
  with 3 show ?case by (auto split: prod.splits)
next
  case (4 subs n closed steps)
  have "hs_cursor (prune_slots (\<lambda>c. c \<in> set closed) subs) = 0"
    "length (hs_slots (prune_slots (\<lambda>c. c \<in> set closed) subs)) = n"
    using 4(2,3) by (simp_all add: prune_slots_def)
  from 4(1) [OF this] 4(4) show ?case by (auto simp: live_prune)
qed (auto simp: add_def)

text \<open>
  Coalesced submissions: for any interleaving of joins, event rounds and sweeps on one handle,
  ended by the round of a terminal event, every submission whose stream was not dropped receives
  the events sent after it joined, in order and each exactly once, and then the terminal event
  exactly once - although gearmand sends one copy per registration and registrations of dropped
  streams keep getting copies. The terminal round leaves no slot behind.
\<close>

lemma coalesced_exactly_once:
  assumes "distinct (joins steps)" and "c \<in> set (joins steps)" and "\<not> swept c steps"
    and "run_job subscribers_default 0 steps = (subs, n, sends)"
    and "deliver_all subs (replicate n (final, True)) = (subs', sends')"
  shows "events_to c (sends @ sends') = promised c steps @ [final] \<and> hs_slots subs' = []"
proof -
  have init: "hs_cursor subscribers_default = 0" "length (hs_slots subscribers_default) = 0"
    "live (hs_slots subscribers_default) = []"
    by (simp_all add: subscribers_default_def)
  have inv: "hs_cursor subs = 0" "length (hs_slots subs) = n"
    using run_job_invariant [OF init(1,2) assms(4)] by simp_all
  have first: "events_to c sends = promised c steps"
    using run_job_promised [OF init(1,2) _ assms(3,4)] assms(1) init(3) by simp
  have mem: "c \<in> set (live (hs_slots subs))"
    using live_promised [OF init(1,2) assms(4,3)] assms(2) by simp
  have dist: "distinct (live (hs_slots subs))"
    using live_origin [OF init(1,2) assms(4)] assms(1) init(3) by simp
  from deliver_last_round [of "hs_slots subs" final] inv obtain s where
    "deliver_all subs (replicate n (final, True)) = (subscribers_default, s)"
    and s: "mset s = mset (map (\<lambda>c. (c, final)) (live (hs_slots subs)))"
    by (cases subs) auto
  with assms(5) have subs': "subs' = subscribers_default" and sends': "sends' = s" by simp_all
  have "mset (events_to c sends') = mset (events_to c (map (\<lambda>c. (c, final)) (live (hs_slots subs))))"
  proof -
    have "mset (filter (\<lambda>x. fst x = c) s)
        = mset (filter (\<lambda>x. fst x = c) (map (\<lambda>c. (c, final)) (live (hs_slots subs))))"
      using s by (metis mset_filter)
    then show ?thesis unfolding events_to_def sends' mset_map by simp
  qed
  then have "mset (events_to c sends') = mset [final]"
    using dist mem by (simp add: events_to_round)
  then have "events_to c sends' = [final]" by simp
  with first subs' show ?thesis by (simp add: subscribers_default_def)
qed

text \<open>
  The cursor stays usable: adding a subscriber, delivering one copy of an event of either kind and
  the sweep keep the cursor at 0 or within the slots, so the indexing and \<^verbatim>\<open>swap_remove\<close> in
  \<^verbatim>\<open>deliver\<close> never panic; and \<^verbatim>\<open>deliver\<close> reports whether slots remain, retiring one slot for a
  terminal copy and none otherwise.
\<close>

theorem deliver_keeps_cursor:
  assumes "cursor_ok subs" and "deliver subs event terminal = (remain, subs', sends)"
  shows "cursor_ok subs' \<and> cursor_ok (add subs c) \<and> cursor_ok (prune_slots closed subs)
    \<and> (remain \<longleftrightarrow> hs_slots subs' \<noteq> [])
    \<and> length (hs_slots subs') = length (hs_slots subs) - (if terminal then 1 else 0)
    \<and> length sends \<le> 1"
  using assms cursor_ok_deliver [OF assms(2)] deliver_more [OF assms(2)]
  by (auto simp: cursor_ok_add cursor_ok_prune deliver_def Let_def split: if_splits option.splits)

theorem deliver_keeps_cursor_witness:
  "cursor_ok \<lparr>hs_slots = [Some 7, None], hs_cursor = 1\<rparr>
   \<and> deliver \<lparr>hs_slots = [Some 7, None, Some 8], hs_cursor = 1\<rparr> Fail True
       = (True, \<lparr>hs_slots = [Some 7, Some 8], hs_cursor = 1\<rparr>, [])
   \<and> cursor_ok \<lparr>hs_slots = [Some 7, Some 8], hs_cursor = 1\<rparr>"
proof -
  have deliver: "deliver \<lparr>hs_slots = [Some 7, None, Some 8], hs_cursor = 1\<rparr> Fail True
      = (True, \<lparr>hs_slots = [Some 7, Some 8], hs_cursor = 1\<rparr>, [])"
    by (simp add: deliver_def Let_def swap_remove_def)
  from deliver_keeps_cursor [OF _ this] deliver show ?thesis
    by (simp add: cursor_ok_def)
qed

end
