(* ===== verification/Machine.thy ===== *)
theory Machine
  imports Main
begin

text \<open>
  Event loops. A loop is a step function from a state and an input to the next state, the outputs
  made, and the reason to leave the loop when it is left; \<open>run\<close> feeds it a list of inputs. The
  locale \<open>event_loop\<close> is the interface of an invariant that may speak about the whole history:
  one step is proved, every run follows.
\<close>

fun run :: "('s \<Rightarrow> 'i \<Rightarrow> 's \<times> 'o list \<times> 'r option) \<Rightarrow> 's \<Rightarrow> 'i list \<Rightarrow> 's \<times> 'o list \<times> 'r option" where
  "run step s [] = (s, [], None)"
| "run step s (i # is) =
     (case step s i of
        (s', out, Some r) \<Rightarrow> (s', out, Some r)
      | (s', out, None) \<Rightarrow>
          (case run step s' is of (s'', out', r) \<Rightarrow> (s'', out @ out', r)))"

lemma run_append:
  "run step s (xs @ ys) =
     (case run step s xs of
        (s', out, Some r) \<Rightarrow> (s', out, Some r)
      | (s', out, None) \<Rightarrow>
          (case run step s' ys of (s'', out', r) \<Rightarrow> (s'', out @ out', r)))"
proof (induction xs arbitrary: s)
  case Nil
  then show ?case by (simp split: prod.split)
next
  case (Cons x xs)
  obtain s' out r where "step s x = (s', out, r)" by (cases "step s x") auto
  then show ?case
    by (cases r) (auto simp: Cons split: prod.splits option.splits)
qed

lemma run_snoc:
  assumes "run step s xs = (s', out, None)" and "step s' i = (s'', out', r)"
  shows "run step s (xs @ [i]) = (s'', out @ out', r)"
  using assms by (cases r) (simp_all add: run_append)

text \<open>
  \<open>inv past made s\<close>: after the inputs \<open>past\<close> with outputs \<open>made\<close>, the state is \<open>s\<close> and the loop
  is still running.
\<close>

locale event_loop =
  fixes step :: "'s \<Rightarrow> 'i \<Rightarrow> 's \<times> 'o list \<times> 'r option"
    and start :: 's
    and inv :: "'i list \<Rightarrow> 'o list \<Rightarrow> 's \<Rightarrow> bool"
  assumes inv_start: "inv [] [] start"
    and inv_step: "\<lbrakk>inv past made s; step s i = (s', out, None)\<rbrakk> \<Longrightarrow> inv (past @ [i]) (made @ out) s'"
begin

lemma inv_run_from:
  "\<lbrakk>inv past made s; run step s is = (s', out, None)\<rbrakk> \<Longrightarrow> inv (past @ is) (made @ out) s'"
proof (induction "is" arbitrary: past made s out)
  case (Cons i "is")
  from Cons.prems(2) obtain t out1 out2 where one: "step s i = (t, out1, None)"
    and rest: "run step t is = (s', out2, None)" and out: "out = out1 @ out2"
    by (auto split: prod.splits option.splits)
  from Cons.IH [OF inv_step [OF Cons.prems(1) one] rest] out show ?case by simp
qed simp

lemma inv_run: "run step start is = (s, out, None) \<Longrightarrow> inv is out s"
  using inv_run_from [OF inv_start] by fastforce

end

text \<open>
  The interface of a typing discipline: a step from a typed state on a typed input ends in a typed
  state with typed outputs, also when it leaves the loop. Every run follows.
\<close>

locale typed_loop =
  fixes step :: "'s \<Rightarrow> 'i \<Rightarrow> 's \<times> 'o list \<times> 'r option"
    and state_ok :: "'s \<Rightarrow> bool" and input_ok :: "'i \<Rightarrow> bool" and output_ok :: "'o \<Rightarrow> bool"
  assumes step_typed: "\<lbrakk>state_ok s; input_ok i; step s i = (s', out, r)\<rbrakk> \<Longrightarrow> state_ok s' \<and> list_all output_ok out"
begin

lemma run_typed:
  "\<lbrakk>state_ok s; list_all input_ok is; run step s is = (s', out, r)\<rbrakk> \<Longrightarrow> state_ok s' \<and> list_all output_ok out"
proof (induction "is" arbitrary: s out)
  case (Cons i "is")
  obtain t out1 r1 where one: "step s i = (t, out1, r1)" by (cases "step s i")
  with step_typed [OF Cons.prems(1) _ one] Cons.prems(2)
  have t: "state_ok t" "list_all output_ok out1" by simp_all
  show ?case
  proof (cases r1)
    case None
    with Cons.prems(3) one obtain out2 where "run step t is = (s', out2, r)" "out = out1 @ out2"
      by (auto split: prod.splits)
    with Cons.IH [OF t(1)] Cons.prems(2) t(2) show ?thesis by simp
  next
    case (Some u)
    with Cons.prems(3) one t show ?thesis by simp
  qed
qed simp

end

end
