(* ===== verification/Actor.thy ===== *)
theory Actor
  imports Connection Subscribers Machine
begin

text \<open>
  The connection actor of \<^verbatim>\<open>src/client/mod.rs\<close>: \<^verbatim>\<open>ClientCommand\<close>, \<^verbatim>\<open>PendingReply\<close>, \<^verbatim>\<open>actor_loop\<close>,
  \<^verbatim>\<open>handle_incoming\<close>, \<^verbatim>\<open>dispatch_work_event\<close>, \<^verbatim>\<open>prune_closed_subscribers\<close> and
  \<^verbatim>\<open>fail_all_pending\<close>. Each turn of the \<^verbatim>\<open>select!\<close> is one input of the step function, so every
  interleaving of the three branches is a list of inputs. A oneshot sender and an event channel are
  numbers; using one is an output.
\<close>

section \<open>Data\<close>

type_synonym oneshot = nat

text \<open>The result a oneshot carries: of type \<^verbatim>\<open>Result<String>\<close> or \<^verbatim>\<open>Result<JobStatus>\<close>.\<close>

datatype reply = HandleReply "bytes result" | StatusReply "job_status result"

datatype client_command =
    CmdSubmit packet oneshot "chan option"
  | CmdStatus packet oneshot
  | CmdStatusUnique packet oneshot

datatype pending_reply =
    PendJobCreated oneshot "chan option"
  | PendStatus oneshot
  | PendStatusUnique oneshot

datatype actor_outcome = ConnectionLost | ClientDropped

type_synonym job_event_subscribers = "bytes \<rightharpoonup> handle_subscribers"

record actor =
  pending_replies :: "pending_reply list"
  job_events :: job_event_subscribers

text \<open>
  \<open>Sent\<close>: a packet written out. \<open>Reply\<close>: a oneshot used. \<open>Unanswered\<close>: a oneshot dropped without a
  value, which its receiver reports as a closed connection. \<open>Event\<close>: a send on an event channel.
\<close>

datatype actor_output =
    Sent packet
  | Reply oneshot reply
  | Unanswered oneshot
  | Event chan job_event

text \<open>
  The branches of the \<^verbatim>\<open>select!\<close>: the sweep (with the channels whose receivers are gone), a command
  (with how writing it out would end), the command channel closed, and what the connection's stream
  yields.
\<close>

datatype actor_input =
    Tick "chan list"
  | Command client_command "unit result"
  | CommandsClosed
  | Received "packet result option"

section \<open>Operations\<close>

definition prune_closed_subscribers :: "(chan \<Rightarrow> bool) \<Rightarrow> job_event_subscribers \<Rightarrow> job_event_subscribers" where
  "prune_closed_subscribers closed je = (\<lambda>h. map_option (prune_slots closed) (je h))"

definition fail_all_pending :: "pending_reply list \<Rightarrow> actor_output list" where
  "fail_all_pending pend = map (\<lambda>p. case p of
       PendJobCreated reply _ \<Rightarrow> Reply reply (HandleReply (Inl ConnectionClosed))
     | PendStatus reply \<Rightarrow> Reply reply (StatusReply (Inl ConnectionClosed))
     | PendStatusUnique reply \<Rightarrow> Reply reply (StatusReply (Inl ConnectionClosed))) pend"

text \<open>
  The last case of \<open>work_event\<close> is the \<^verbatim>\<open>unreachable!\<close> one: the caller passes \<^verbatim>\<open>WORK_*\<close> packets only.
\<close>

definition dispatch_work_event :: "packet \<Rightarrow> job_event_subscribers
    \<Rightarrow> job_event_subscribers \<times> actor_output list" where
  "dispatch_work_event packet je =
     (case arg_str packet 0 of
        None \<Rightarrow> (je, [])
      | Some handle \<Rightarrow>
          let terminal = ptype packet \<in> {WorkComplete, WorkFail, WorkException} in
          (case work_event packet of
             None \<Rightarrow> (je, [])
           | Some event \<Rightarrow>
               (case je handle of
                  None \<Rightarrow> (je, [])
                | Some subs \<Rightarrow>
                    (case deliver subs event terminal of (remain, subs', sends) \<Rightarrow>
                       (if remain then je(handle \<mapsto> subs') else je(handle := None),
                        map (\<lambda>(c, e). Event c e) sends)))))"

text \<open>The popped entry when it is not the kind the packet answers: it is dropped.\<close>

definition drop_pending :: "pending_reply \<Rightarrow> actor_output" where
  "drop_pending p = (case p of
       PendJobCreated reply _ \<Rightarrow> Unanswered reply
     | PendStatus reply \<Rightarrow> Unanswered reply
     | PendStatusUnique reply \<Rightarrow> Unanswered reply)"

definition handle_incoming :: "packet \<Rightarrow> actor \<Rightarrow> actor \<times> actor_output list" where
  "handle_incoming packet a =
     (if ptype packet = JobCreated then
        (case pending_replies a of
           [] \<Rightarrow> (a, [])
         | PendJobCreated reply events # rest \<Rightarrow>
             let handle = arg_str_or_empty packet 0 in
             (a\<lparr>pending_replies := rest,
                job_events := (case events of
                   None \<Rightarrow> job_events a
                 | Some sender \<Rightarrow> (job_events a)(handle \<mapsto>
                     add (case job_events a handle of Some subs \<Rightarrow> subs | None \<Rightarrow> subscribers_default)
                       sender))\<rparr>,
              [Reply reply (HandleReply (Inr handle))])
         | other # rest \<Rightarrow> (a\<lparr>pending_replies := rest\<rparr>, [drop_pending other]))
      else if ptype packet = StatusRes then
        (case pending_replies a of
           [] \<Rightarrow> (a, [])
         | PendStatus reply # rest \<Rightarrow>
             (a\<lparr>pending_replies := rest\<rparr>, [Reply reply (StatusReply (Inr (parse_status_res packet)))])
         | other # rest \<Rightarrow> (a\<lparr>pending_replies := rest\<rparr>, [drop_pending other]))
      else if ptype packet = StatusResUnique then
        (case pending_replies a of
           [] \<Rightarrow> (a, [])
         | PendStatusUnique reply # rest \<Rightarrow>
             (a\<lparr>pending_replies := rest\<rparr>,
              [Reply reply (StatusReply (Inr (parse_status_res_unique packet)))])
         | other # rest \<Rightarrow> (a\<lparr>pending_replies := rest\<rparr>, [drop_pending other]))
      else if ptype packet = Error then
        let e = ServerError (arg_str_or_empty packet 0) (arg_str_or_empty packet 1) in
        (case pending_replies a of
           [] \<Rightarrow> (a, [])
         | PendJobCreated reply _ # rest \<Rightarrow>
             (a\<lparr>pending_replies := rest\<rparr>, [Reply reply (HandleReply (Inl e))])
         | PendStatus reply # rest \<Rightarrow>
             (a\<lparr>pending_replies := rest\<rparr>, [Reply reply (StatusReply (Inl e))])
         | PendStatusUnique reply # rest \<Rightarrow>
             (a\<lparr>pending_replies := rest\<rparr>, [Reply reply (StatusReply (Inl e))]))
      else if ptype packet \<in> {WorkStatus, WorkComplete, WorkFail, WorkData, WorkWarning, WorkException} then
        (case dispatch_work_event packet (job_events a) of
           (je, out) \<Rightarrow> (a\<lparr>job_events := je\<rparr>, out))
      else (a, []))"

definition actor_start :: actor where
  "actor_start = \<lparr>pending_replies = [], job_events = Map.empty\<rparr>"

fun actor_step :: "actor \<Rightarrow> actor_input \<Rightarrow> actor \<times> actor_output list \<times> actor_outcome option" where
  "actor_step a (Tick closed) =
     (a\<lparr>job_events := prune_closed_subscribers (\<lambda>c. c \<in> set closed) (job_events a)\<rparr>, [], None)"
| "actor_step a CommandsClosed = (a, [], Some ClientDropped)"
| "actor_step a (Command (CmdSubmit packet reply events) net) =
     (case send_error packet net of
        Some e \<Rightarrow> (a, [Reply reply (HandleReply (Inl e))], Some ConnectionLost)
      | None \<Rightarrow> (a\<lparr>pending_replies := pending_replies a @ [PendJobCreated reply events]\<rparr>,
                 [Sent packet], None))"
| "actor_step a (Command (CmdStatus packet reply) net) =
     (case send_error packet net of
        Some e \<Rightarrow> (a, [Reply reply (StatusReply (Inl e))], Some ConnectionLost)
      | None \<Rightarrow> (a\<lparr>pending_replies := pending_replies a @ [PendStatus reply]\<rparr>, [Sent packet], None))"
| "actor_step a (Command (CmdStatusUnique packet reply) net) =
     (case send_error packet net of
        Some e \<Rightarrow> (a, [Reply reply (StatusReply (Inl e))], Some ConnectionLost)
      | None \<Rightarrow> (a\<lparr>pending_replies := pending_replies a @ [PendStatusUnique reply]\<rparr>,
                 [Sent packet], None))"
| "actor_step a (Received nxt) =
     (case conn_recv nxt of
        Inr (Some packet) \<Rightarrow> (case handle_incoming packet a of (a', out) \<Rightarrow> (a', out, None))
      | Inr None \<Rightarrow> (a, [], Some ConnectionLost)
      | Inl _ \<Rightarrow> (a, [], Some ConnectionLost))"

text \<open>Without an outcome the loop is still running after these inputs.\<close>

definition actor_loop :: "actor_input list \<Rightarrow> actor_output list \<times> actor_outcome option" where
  "actor_loop inputs =
     (case run actor_step actor_start inputs of
        (a, out, None) \<Rightarrow> (out, None)
      | (a, out, Some outcome) \<Rightarrow> (out @ fail_all_pending (pending_replies a), Some outcome))"

section \<open>Requests and their replies\<close>

fun cmd_oneshot :: "client_command \<Rightarrow> oneshot" where
  "cmd_oneshot (CmdSubmit _ reply _) = reply"
| "cmd_oneshot (CmdStatus _ reply) = reply"
| "cmd_oneshot (CmdStatusUnique _ reply) = reply"

fun cmd_packet :: "client_command \<Rightarrow> packet" where
  "cmd_packet (CmdSubmit p _ _) = p"
| "cmd_packet (CmdStatus p _) = p"
| "cmd_packet (CmdStatusUnique p _) = p"

fun cmd_pending :: "client_command \<Rightarrow> pending_reply" where
  "cmd_pending (CmdSubmit _ reply events) = PendJobCreated reply events"
| "cmd_pending (CmdStatus _ reply) = PendStatus reply"
| "cmd_pending (CmdStatusUnique _ reply) = PendStatusUnique reply"

fun pending_oneshot :: "pending_reply \<Rightarrow> oneshot" where
  "pending_oneshot (PendJobCreated reply _) = reply"
| "pending_oneshot (PendStatus reply) = reply"
| "pending_oneshot (PendStatusUnique reply) = reply"

text \<open>The error a command's oneshot gets when its packet cannot be sent.\<close>

fun cmd_error :: "client_command \<Rightarrow> gearman_error \<Rightarrow> reply" where
  "cmd_error (CmdSubmit _ _ _) e = HandleReply (Inl e)"
| "cmd_error (CmdStatus _ _) e = StatusReply (Inl e)"
| "cmd_error (CmdStatusUnique _ _) e = StatusReply (Inl e)"

fun commands :: "actor_input list \<Rightarrow> client_command list" where
  "commands [] = []"
| "commands (Command c _ # is) = c # commands is"
| "commands (_ # is) = commands is"

text \<open>The oneshots used or dropped, the replies made, the event sends and the packets, in order.\<close>

fun settled :: "actor_output list \<Rightarrow> oneshot list" where
  "settled [] = []"
| "settled (Reply r _ # out) = r # settled out"
| "settled (Unanswered r # out) = r # settled out"
| "settled (_ # out) = settled out"

fun replies :: "actor_output list \<Rightarrow> (oneshot \<times> reply) list" where
  "replies [] = []"
| "replies (Reply r x # out) = (r, x) # replies out"
| "replies (_ # out) = replies out"

fun events :: "actor_output list \<Rightarrow> (chan \<times> job_event) list" where
  "events [] = []"
| "events (Event c e # out) = (c, e) # events out"
| "events (_ # out) = events out"

fun sent :: "actor_output list \<Rightarrow> packet list" where
  "sent [] = []"
| "sent (Sent p # out) = p # sent out"
| "sent (_ # out) = sent out"

lemma commands_append [simp]: "commands (xs @ ys) = commands xs @ commands ys"
  by (induction xs rule: commands.induct) auto

lemma outputs_append [simp]:
  "settled (xs @ ys) = settled xs @ settled ys"
  "replies (xs @ ys) = replies xs @ replies ys"
  "events (xs @ ys) = events xs @ events ys"
  "sent (xs @ ys) = sent xs @ sent ys"
  by (induction xs rule: settled.induct) auto

lemma actor_step_command:
  "actor_step a (Command c net) =
     (case send_error (cmd_packet c) net of
        Some e \<Rightarrow> (a, [Reply (cmd_oneshot c) (cmd_error c e)], Some ConnectionLost)
      | None \<Rightarrow> (a\<lparr>pending_replies := pending_replies a @ [cmd_pending c]\<rparr>, [Sent (cmd_packet c)], None))"
  by (cases c) (simp_all split: option.split)

lemma pending_oneshot_cmd [simp]: "pending_oneshot (cmd_pending c) = cmd_oneshot c"
  by (cases c) simp_all

lemma outputs_map_Event [simp]:
  "settled (map (\<lambda>(c, e). Event c e) xs) = []"
  "replies (map (\<lambda>(c, e). Event c e) xs) = []"
  "events (map (\<lambda>(c, e). Event c e) xs) = xs"
  "sent (map (\<lambda>(c, e). Event c e) xs) = []"
  by (induction xs) auto

lemma outputs_fail_all [simp]:
  "settled (fail_all_pending pend) = map pending_oneshot pend"
  "events (fail_all_pending pend) = []"
  "sent (fail_all_pending pend) = []"
  by (induction pend) (auto simp: fail_all_pending_def split: pending_reply.split)

lemma outputs_dispatch:
  "settled (snd (dispatch_work_event p je)) = []"
  "replies (snd (dispatch_work_event p je)) = []"
  "sent (snd (dispatch_work_event p je)) = []"
  by (auto simp: dispatch_work_event_def split: option.split prod.split)

lemma settled_drop [simp]:
  "settled [drop_pending p] = [pending_oneshot p]" "replies [drop_pending p] = []"
  "events [drop_pending p] = []" "sent [drop_pending p] = []"
  by (auto simp: drop_pending_def split: pending_reply.split)

section \<open>Exactly one settlement per request\<close>

lemma handle_incoming_settled:
  "handle_incoming p a = (a', out) \<Longrightarrow>
   settled out @ map pending_oneshot (pending_replies a') = map pending_oneshot (pending_replies a)
   \<and> sent out = []"
  using outputs_dispatch [of p "job_events a"] settled_drop
  by (auto simp: handle_incoming_def Let_def split: list.splits pending_reply.splits if_splits prod.splits)

definition requests_ok :: "actor_input list \<Rightarrow> actor_output list \<Rightarrow> actor \<Rightarrow> bool" where
  "requests_ok past made a \<longleftrightarrow>
     settled made @ map pending_oneshot (pending_replies a) = map cmd_oneshot (commands past)
     \<and> sent made = map cmd_packet (commands past)"

interpretation requests: event_loop actor_step actor_start requests_ok
proof
  show "requests_ok [] [] actor_start"
    by (simp add: requests_ok_def actor_start_def)
next
  fix past made a i a' out
  assume inv: "requests_ok past made a" and step: "actor_step a i = (a', out, None)"
  show "requests_ok (past @ [i]) (made @ out) a'"
  proof (cases i)
    case (Command c net)
    with step inv show ?thesis
      by (auto simp: actor_step_command requests_ok_def split: option.splits)
  next
    case (Received nxt)
    with step obtain p where "handle_incoming p a = (a', out)"
      by (auto simp: conn_recv_def split: option.splits sum.splits prod.splits)
    from handle_incoming_settled [OF this] inv Received show ?thesis
      by (simp add: requests_ok_def)
  qed (use step inv in \<open>auto simp: requests_ok_def\<close>)
qed

lemma actor_step_break:
  "actor_step a i = (a', out, Some outcome) \<Longrightarrow>
   a' = a \<and> settled out = map cmd_oneshot (commands [i]) \<and> events out = [] \<and> sent out = []"
  by (cases i)
    (auto simp: actor_step_command conn_recv_def split: option.splits sum.splits prod.splits)

lemma actor_loop_running:
  "snd (actor_loop is) = None \<longleftrightarrow> (\<exists>a out. run actor_step actor_start is = (a, out, None))"
  by (auto simp: actor_loop_def split: prod.splits option.splits)

lemma actor_loop_break:
  assumes "run actor_step actor_start is = (a, out, None)"
    and "actor_loop (is @ [i]) = (made, Some outcome)"
  obtains out' where "actor_step a i = (a, out', Some outcome)"
    and "made = out @ out' @ fail_all_pending (pending_replies a)"
proof -
  obtain a' out' r where step: "actor_step a i = (a', out', r)" by (cases "actor_step a i") auto
  with assms(2) run_snoc [OF assms(1) step] have "r = Some outcome"
    and "made = (out @ out') @ fail_all_pending (pending_replies a')"
    by (auto simp: actor_loop_def split: option.splits)
  with step actor_step_break [of a i a' out' outcome] that show thesis by auto
qed

text \<open>
  C7. Every request is settled exactly once. As long as the loop runs, the oneshots that have been
  used or dropped, followed by those still queued, are the oneshots of the commands taken so far, in
  the order of the commands, whose packets were all sent in that order. When an input makes the loop
  end, what is settled then is, in this order: the command of that input if it is one (its packet
  could not be sent), and the queued requests in the order of their commands. So every oneshot taken
  has been settled once and no caller waits for ever, and only the command that could not be sent is
  settled ahead of earlier ones.
\<close>

theorem requests_settled_once:
  assumes "run actor_step actor_start is = (a, out, None)"
    and "actor_loop (is @ [i]) = (made, Some outcome)"
  shows "settled out @ map pending_oneshot (pending_replies a) = map cmd_oneshot (commands is)
    \<and> sent out = map cmd_packet (commands is)
    \<and> settled made = settled out @ map cmd_oneshot (commands [i]) @ map pending_oneshot (pending_replies a)
    \<and> mset (settled made) = mset (map cmd_oneshot (commands (is @ [i])))"
proof -
  from requests.inv_run [OF assms(1)]
  have inv: "settled out @ map pending_oneshot (pending_replies a) = map cmd_oneshot (commands is)"
    "sent out = map cmd_packet (commands is)"
    by (simp_all add: requests_ok_def)
  from actor_loop_break [OF assms] obtain out' where step: "actor_step a i = (a, out', Some outcome)"
    and made: "made = out @ out' @ fail_all_pending (pending_replies a)" .
  from actor_step_break [OF step] made
  have order: "settled made = settled out @ map cmd_oneshot (commands [i]) @ map pending_oneshot (pending_replies a)"
    by simp
  then have "mset (settled made) = mset (settled out @ map pending_oneshot (pending_replies a))
      + mset (map cmd_oneshot (commands [i]))"
    by simp
  with inv order show ?thesis by simp
qed

theorem requests_settled_once_witness:
  "settled [Sent (request GetStatus [[72]]), Reply 4 (StatusReply (Inl ConnectionClosed))] = [4]"
proof -
  let ?p = "request GetStatus [[72]]"
  have send: "send_error ?p (Inr ()) = None"
    by (simp add: send_error_None encodable_def request_def encoded_body_len_def codec_new_def
        DEFAULT_MAX_PAYLOAD_SIZE_def)
  have run: "run actor_step actor_start [Command (CmdStatus ?p 4) (Inr ())]
    = (\<lparr>pending_replies = [PendStatus 4], job_events = Map.empty\<rparr>, [Sent ?p], None)"
    by (simp add: send actor_start_def)
  have break: "actor_loop ([Command (CmdStatus ?p 4) (Inr ())] @ [Received None])
    = ([Sent ?p, Reply 4 (StatusReply (Inl ConnectionClosed))], Some ConnectionLost)"
    by (simp add: actor_loop_def send actor_start_def conn_recv_def fail_all_pending_def)
  from requests_settled_once [OF run break] show ?thesis by simp
qed

fun pending_error :: "pending_reply \<Rightarrow> gearman_error \<Rightarrow> reply" where
  "pending_error (PendJobCreated _ _) e = HandleReply (Inl e)"
| "pending_error (PendStatus _) e = StatusReply (Inl e)"
| "pending_error (PendStatusUnique _) e = StatusReply (Inl e)"

lemma replies_fail_all:
  "replies (fail_all_pending pend)
   = map (\<lambda>p. (pending_oneshot p, pending_error p ConnectionClosed)) pend"
  by (induction pend) (auto simp: fail_all_pending_def split: pending_reply.split)

text \<open>Whether an input ends the running loop, and how.\<close>

definition ends_loop :: "actor_input \<Rightarrow> actor_outcome option" where
  "ends_loop i = (case i of
       Tick _ \<Rightarrow> None
     | CommandsClosed \<Rightarrow> Some ClientDropped
     | Command c net \<Rightarrow> (if send_error (cmd_packet c) net = None then None else Some ConnectionLost)
     | Received None \<Rightarrow> Some ConnectionLost
     | Received (Some (Inl e)) \<Rightarrow> Some ConnectionLost
     | Received (Some (Inr packet)) \<Rightarrow> None)"

text \<open>
  C25. What ends the loop, and what the callers see. At any input the running loop ends with
  \<^verbatim>\<open>ClientDropped\<close> if and only if the command channel is closed, and with \<^verbatim>\<open>ConnectionLost\<close> if and only if
  a packet cannot be sent, the stream ends or the stream yields an error; any other input leaves it
  running. When it ends, the command whose packet could not be sent, if that was it, gets that error,
  every queued request gets \<^verbatim>\<open>ConnectionClosed\<close> in queue order, and no event is delivered any more.
\<close>

theorem loop_end:
  assumes "run actor_step actor_start is = (a, out, None)"
  shows "snd (actor_loop (is @ [i])) = ends_loop i
    \<and> (\<forall>made outcome. actor_loop (is @ [i]) = (made, Some outcome) \<longrightarrow>
        replies made = replies out
        @ (case i of
             Command c net \<Rightarrow> (case send_error (cmd_packet c) net of
                 Some e \<Rightarrow> [(cmd_oneshot c, cmd_error c e)] | None \<Rightarrow> [])
           | _ \<Rightarrow> [])
        @ map (\<lambda>p. (pending_oneshot p, pending_error p ConnectionClosed)) (pending_replies a)
        \<and> events made = events out)"
proof (intro conjI allI impI)
  obtain a' out' r where step: "actor_step a i = (a', out', r)" by (cases "actor_step a i")
  then have "snd (actor_loop (is @ [i])) = r"
    using run_snoc [OF assms step] by (auto simp: actor_loop_def split: option.splits)
  moreover have "r = ends_loop i"
    using step by (cases i) (auto simp: ends_loop_def actor_step_command conn_recv_def
        split: option.splits sum.splits prod.splits)
  ultimately show "snd (actor_loop (is @ [i])) = ends_loop i" by simp
next
  fix made outcome
  assume "actor_loop (is @ [i]) = (made, Some outcome)"
  from actor_loop_break [OF assms this] obtain out' where step: "actor_step a i = (a, out', Some outcome)"
    and made: "made = out @ out' @ fail_all_pending (pending_replies a)" .
  with actor_step_break [OF step] show "replies made = replies out
        @ (case i of
             Command c net \<Rightarrow> (case send_error (cmd_packet c) net of
                 Some e \<Rightarrow> [(cmd_oneshot c, cmd_error c e)] | None \<Rightarrow> [])
           | _ \<Rightarrow> [])
        @ map (\<lambda>p. (pending_oneshot p, pending_error p ConnectionClosed)) (pending_replies a)"
    and "events made = events out"
    by (cases i; auto simp: replies_fail_all actor_step_command conn_recv_def
        split: option.splits sum.splits prod.splits)+
qed

theorem loop_end_witness:
  "replies [Sent (request GetStatus [[72]]),
     Reply 9 (HandleReply (Inl (WrongArgCount SubmitJob 3 1))),
     Reply 4 (StatusReply (Inl ConnectionClosed))]
   = [(9, HandleReply (Inl (WrongArgCount SubmitJob 3 1))), (4, StatusReply (Inl ConnectionClosed))]"
proof -
  let ?p = "request GetStatus [[72]]" and ?q = "request SubmitJob [[72]]"
  have send: "send_error ?p (Inr ()) = None"
    by (simp add: send_error_None encodable_def request_def encoded_body_len_def codec_new_def
        DEFAULT_MAX_PAYLOAD_SIZE_def)
  have fails: "send_error ?q net = Some (WrongArgCount SubmitJob 3 1)" for net
    by (simp add: send_error_def conn_send_def encode_def request_def)
  have run: "run actor_step actor_start [Command (CmdStatus ?p 4) (Inr ())]
    = (\<lparr>pending_replies = [PendStatus 4], job_events = Map.empty\<rparr>, [Sent ?p], None)"
    by (simp add: send actor_start_def)
  have break: "actor_loop ([Command (CmdStatus ?p 4) (Inr ())] @ [Command (CmdSubmit ?q 9 None) (Inr ())])
    = ([Sent ?p, Reply 9 (HandleReply (Inl (WrongArgCount SubmitJob 3 1))),
        Reply 4 (StatusReply (Inl ConnectionClosed))], Some ConnectionLost)"
    by (simp add: actor_loop_def send actor_start_def fails fail_all_pending_def)
  from loop_end [OF run, of "Command (CmdSubmit ?q 9 None) (Inr ())"] break fails show ?thesis by simp
qed

section \<open>Replies in order\<close>

definition is_reply :: "packet \<Rightarrow> bool" where
  "is_reply p \<longleftrightarrow> ptype p \<in> {JobCreated, StatusRes, StatusResUnique, Error}"

text \<open>The packets that answer a command, and the reply they make.\<close>

fun answers :: "client_command \<Rightarrow> packet \<Rightarrow> bool" where
  "answers (CmdSubmit _ _ _) p = (ptype p \<in> {JobCreated, Error})"
| "answers (CmdStatus _ _) p = (ptype p \<in> {StatusRes, Error})"
| "answers (CmdStatusUnique _ _) p = (ptype p \<in> {StatusResUnique, Error})"

definition answer :: "client_command \<Rightarrow> packet \<Rightarrow> reply" where
  "answer c p =
     (if ptype p = Error then
        cmd_error c (ServerError (arg_str_or_empty p 0) (arg_str_or_empty p 1))
      else case c of
        CmdSubmit _ _ _ \<Rightarrow> HandleReply (Inr (arg_str_or_empty p 0))
      | CmdStatus _ _ \<Rightarrow> StatusReply (Inr (parse_status_res p))
      | CmdStatusUnique _ _ \<Rightarrow> StatusReply (Inr (parse_status_res_unique p)))"

fun reply_packets :: "actor_input list \<Rightarrow> packet list" where
  "reply_packets [] = []"
| "reply_packets (Received (Some (Inr p)) # is) =
     (if is_reply p then p # reply_packets is else reply_packets is)"
| "reply_packets (_ # is) = reply_packets is"

text \<open>
  What gearmand promises: it answers a connection's requests in order. \<open>q\<close> are the requests not
  answered yet.
\<close>

fun in_order :: "client_command list \<Rightarrow> actor_input list \<Rightarrow> bool" where
  "in_order q [] = True"
| "in_order q (Command c _ # is) = in_order (q @ [c]) is"
| "in_order q (Received (Some (Inr p)) # is) =
     (if is_reply p then
        (case q of [] \<Rightarrow> False | c # q' \<Rightarrow> answers c p \<and> in_order q' is)
      else in_order q is)"
| "in_order q (Tick _ # is) = in_order q is"
| "in_order q (CommandsClosed # is) = in_order q is"
| "in_order q (Received None # is) = in_order q is"
| "in_order q (Received (Some (Inl _)) # is) = in_order q is"

lemma handle_incoming_reply:
  assumes "is_reply p" and "answers c p" and "pending_replies a = cmd_pending c # rest"
  shows "\<exists>je. handle_incoming p a = (\<lparr>pending_replies = rest, job_events = je\<rparr>,
    [Reply (cmd_oneshot c) (answer c p)])"
  using assms
  by (cases c; cases a) (auto simp: handle_incoming_def is_reply_def answer_def Let_def)

lemma handle_incoming_other:
  assumes "\<not> is_reply p"
  shows "\<exists>je out. handle_incoming p a = (\<lparr>pending_replies = pending_replies a, job_events = je\<rparr>, out)
    \<and> replies out = []"
  using assms outputs_dispatch(2) [of p "job_events a"]
  by (cases a) (auto simp: handle_incoming_def is_reply_def split: prod.splits)

lemma run_in_order:
  "\<lbrakk>in_order q is; pending_replies a = map cmd_pending q; run actor_step a is = (a', out, None)\<rbrakk>
   \<Longrightarrow> replies out = map (\<lambda>(c, p). (cmd_oneshot c, answer c p)) (zip (q @ commands is) (reply_packets is))
     \<and> pending_replies a' = map cmd_pending (drop (length (reply_packets is)) (q @ commands is))"
proof (induction q "is" arbitrary: a out rule: in_order.induct)
  case (2 q c net "is")
  then obtain out' where "run actor_step (a\<lparr>pending_replies := pending_replies a @ [cmd_pending c]\<rparr>) is
      = (a', out', None)" and "replies out = replies out'"
    by (auto simp: actor_step_command split: option.splits prod.splits)
  with 2(1) [of "a\<lparr>pending_replies := pending_replies a @ [cmd_pending c]\<rparr>" out'] 2(2,3)
  show ?case by simp
next
  case (3 q p "is")
  show ?case
  proof (cases "is_reply p")
    case True
    with 3 obtain c q' where q: "q = c # q'" "answers c p" "in_order q' is" by (auto split: list.splits)
    with 3(4) True obtain je where "handle_incoming p a
        = (\<lparr>pending_replies = map cmd_pending q', job_events = je\<rparr>, [Reply (cmd_oneshot c) (answer c p)])"
      using handle_incoming_reply [of p c a "map cmd_pending q'"] by auto
    with 3(5) True obtain out' where "run actor_step \<lparr>pending_replies = map cmd_pending q', job_events = je\<rparr> is
        = (a', out', None)" and "replies out = (cmd_oneshot c, answer c p) # replies out'"
      by (auto simp: conn_recv_def split: prod.splits)
    with 3(1) [OF True q(1) q(3) _, of "\<lparr>pending_replies = map cmd_pending q', job_events = je\<rparr>"] q(1) True
    show ?thesis by simp
  next
    case False
    then obtain je out1 where "handle_incoming p a
        = (\<lparr>pending_replies = pending_replies a, job_events = je\<rparr>, out1)" "replies out1 = []"
      using handle_incoming_other by blast
    with 3(5) False obtain out' where "run actor_step \<lparr>pending_replies = pending_replies a, job_events = je\<rparr> is
        = (a', out', None)" and "replies out = replies out'"
      by (auto simp: conn_recv_def split: prod.splits)
    with 3(2) [of "\<lparr>pending_replies = pending_replies a, job_events = je\<rparr>" out'] 3(3,4) False
    show ?thesis by simp
  qed
next
  case (4 q closed "is")
  then have "run actor_step (a\<lparr>job_events :=
      prune_closed_subscribers (\<lambda>c. c \<in> set closed) (job_events a)\<rparr>) is = (a', out, None)"
    by (auto split: prod.splits)
  from 4(1) [OF _ _ this] 4(2,3) show ?case by simp
qed (auto simp: conn_recv_def split: prod.splits)

text \<open>
  C8. Replies go to the requests they answer. Replies on the wire carry no request id; when the server
  answers the requests of the connection in order, whatever events, sweeps and new requests come in
  between, the \<open>i\<close>-th reply packet is delivered to the oneshot of the \<open>i\<close>-th command, as that command's
  result (the job handle, the parsed status, or the server's error), and the commands not answered
  yet are the ones still queued.
\<close>

theorem replies_match_requests:
  assumes "in_order [] is" and "run actor_step actor_start is = (a, out, None)"
  shows "replies out = map (\<lambda>(c, p). (cmd_oneshot c, answer c p)) (zip (commands is) (reply_packets is))
    \<and> pending_replies a = map cmd_pending (drop (length (reply_packets is)) (commands is))"
  using run_in_order [OF assms(1) _ assms(2)] by (simp add: actor_start_def)

theorem replies_match_requests_witness:
  "replies [Sent (request GetStatus [[72]]), Sent (request GetStatus [[73]]),
     Reply 4 (StatusReply (Inl (ServerError [65] [66])))]
   = [(4, StatusReply (Inl (ServerError [65] [66])))]"
proof -
  let ?p = "request GetStatus [[72]]" and ?q = "request GetStatus [[73]]"
  let ?is = "[Command (CmdStatus ?p 4) (Inr ()), Command (CmdStatus ?q 5) (Inr ()),
    Received (Some (Inr (response Error [[65], [66]])))]"
  have send: "send_error (request GetStatus [[x]]) (Inr ()) = None" for x
    by (simp add: send_error_None encodable_def request_def encoded_body_len_def codec_new_def
        DEFAULT_MAX_PAYLOAD_SIZE_def)
  have utf8: "arg_str (response Error [[65], [66]]) 0 = Some [65]"
    "arg_str (response Error [[65], [66]]) (Suc 0) = Some [66]"
    by (simp_all add: arg_str_def arg_def)
  have run: "run actor_step actor_start ?is
    = (\<lparr>pending_replies = [PendStatus 5], job_events = Map.empty\<rparr>,
       [Sent ?p, Sent ?q, Reply 4 (StatusReply (Inl (ServerError [65] [66])))], None)"
    by (simp add: send actor_start_def conn_recv_def handle_incoming_def arg_str_or_empty_def utf8)
  have "in_order [] ?is" by (simp add: is_reply_def)
  from replies_match_requests [OF this run] show ?thesis
    by (simp add: is_reply_def answer_def arg_str_or_empty_def utf8)
qed

end
