(* ===== verification/Reconnect.thy ===== *)
theory Reconnect
  imports Connection Machine
begin

text \<open>
  The reconnect discipline that \<^verbatim>\<open>run_server_actor\<close> and \<^verbatim>\<open>run_worker_connection\<close> share, as an
  interface: a task sleeps for its current delay after a failure, doubles the delay when it wakes, and
  resets it when a connection is ready. The locale derives, once, what an observer sees.
\<close>

section \<open>The delays an observer sees\<close>

definition delay :: "nat \<Rightarrow> nat" where
  "delay k = min (INITIAL_BACKOFF * 2 ^ k) MAX_BACKOFF"

lemma delay_Suc: "delay (Suc k) = next_backoff (delay k)"
  using next_backoff_iterate [of k] next_backoff_iterate [of "Suc k"] by (simp add: delay_def)

lemma delay_0: "delay 0 = INITIAL_BACKOFF"
  by (simp add: delay_def INITIAL_BACKOFF_def MAX_BACKOFF_def)

lemma delay_alt: "delay = (\<lambda>k. min (100 * 2 ^ k) 30000)"
  by (simp add: delay_def [abs_def] INITIAL_BACKOFF_def MAX_BACKOFF_def)

text \<open>The sleeps in a list of outputs since the last one that says a connection is ready.\<close>

fun sleeps_since :: "('o \<Rightarrow> nat option) \<Rightarrow> ('o \<Rightarrow> bool) \<Rightarrow> nat list \<Rightarrow> 'o list \<Rightarrow> nat list" where
  "sleeps_since slept ready ds [] = ds"
| "sleeps_since slept ready ds (x # out) =
     (if ready x then sleeps_since slept ready [] out
      else (case slept x of
              Some d \<Rightarrow> sleeps_since slept ready (ds @ [d]) out
            | None \<Rightarrow> sleeps_since slept ready ds out))"

lemma sleeps_since_append:
  "sleeps_since slept ready ds (xs @ ys) = sleeps_since slept ready (sleeps_since slept ready ds xs) ys"
  by (induction slept ready ds xs rule: sleeps_since.induct) (auto split: option.split)

text \<open>Outputs that are neither.\<close>

definition plain :: "('o \<Rightarrow> nat option) \<Rightarrow> ('o \<Rightarrow> bool) \<Rightarrow> 'o list \<Rightarrow> bool" where
  "plain slept ready out \<longleftrightarrow> list_all (\<lambda>x. slept x = None \<and> \<not> ready x) out"

lemma plain_simps [simp]:
  "plain slept ready []"
  "plain slept ready (x # out) \<longleftrightarrow> slept x = None \<and> \<not> ready x \<and> plain slept ready out"
  "plain slept ready (xs @ ys) \<longleftrightarrow> plain slept ready xs \<and> plain slept ready ys"
  by (auto simp: plain_def)

lemma plain_map: "(\<And>x. slept (f x) = None \<and> \<not> ready (f x)) \<Longrightarrow> plain slept ready (map f xs)"
  by (induction xs) auto

lemma sleeps_since_plain: "plain slept ready out \<Longrightarrow> sleeps_since slept ready ds out = ds"
  by (induction out) auto

section \<open>The discipline\<close>

text \<open>What one step does to the delay, whether the task is sleeping after it, and what it outputs.\<close>

datatype move = Keep | FallAsleep | WakeUp | GetReady

definition follows :: "('o \<Rightarrow> nat option) \<Rightarrow> ('o \<Rightarrow> bool) \<Rightarrow> move
    \<Rightarrow> nat \<times> bool \<Rightarrow> nat \<times> bool \<Rightarrow> 'o list \<Rightarrow> bool" where
  "follows slept ready m before after out =
     (case (before, after) of ((d, asleep), (d', asleep')) \<Rightarrow>
       (case m of
          Keep \<Rightarrow> d' = d \<and> asleep' = asleep \<and> plain slept ready out
        | FallAsleep \<Rightarrow> \<not> asleep \<and> asleep' \<and> d' = d
            \<and> (\<exists>xs x. out = xs @ [x] \<and> plain slept ready xs \<and> slept x = Some d \<and> \<not> ready x)
        | WakeUp \<Rightarrow> asleep \<and> \<not> asleep' \<and> d' = next_backoff d \<and> plain slept ready out
        | GetReady \<Rightarrow> \<not> asleep \<and> \<not> asleep' \<and> d' = INITIAL_BACKOFF
            \<and> (\<exists>xs x. out = xs @ [x] \<and> plain slept ready xs \<and> ready x)))"

locale reconnecting =
  fixes step :: "'s \<Rightarrow> 'i \<Rightarrow> 's \<times> 'o list \<times> 'r option"
    and start :: 's
    and backoff :: "'s \<Rightarrow> nat"
    and asleep :: "'s \<Rightarrow> bool"
    and slept :: "'o \<Rightarrow> nat option"
    and ready :: "'o \<Rightarrow> bool"
  assumes start_delay: "backoff start = INITIAL_BACKOFF" "\<not> asleep start"
    and step_follows: "step s i = (s', out, None) \<Longrightarrow>
      \<exists>m. follows slept ready m (backoff s, asleep s) (backoff s', asleep s') out"
begin

lemma delays_inv:
  "\<lbrakk>run step s is = (s', out, None); ds = map delay [0..<length ds];
    backoff s = delay (if asleep s then length ds - 1 else length ds); asleep s \<longrightarrow> ds \<noteq> []\<rbrakk>
   \<Longrightarrow> let ds' = sleeps_since slept ready ds out in
     ds' = map delay [0..<length ds']
     \<and> backoff s' = delay (if asleep s' then length ds' - 1 else length ds')
     \<and> (asleep s' \<longrightarrow> ds' \<noteq> [])"
proof (induction "is" arbitrary: s ds out)
  case Nil
  then show ?case by simp
next
  case (Cons i "is")
  from Cons.prems(1) obtain t out1 out2 where one: "step s i = (t, out1, None)"
    and rest: "run step t is = (s', out2, None)" and out: "out = out1 @ out2"
    by (auto split: prod.splits option.splits)
  from step_follows [OF one] obtain m where
    m: "follows slept ready m (backoff s, asleep s) (backoff t, asleep t) out1" by blast
  let ?ds = "sleeps_since slept ready ds out1"
  have "?ds = map delay [0..<length ?ds]
      \<and> backoff t = delay (if asleep t then length ?ds - 1 else length ?ds) \<and> (asleep t \<longrightarrow> ?ds \<noteq> [])"
  proof (cases m)
    case Keep
    with m Cons.prems(2-4) show ?thesis by (simp add: follows_def sleeps_since_plain)
  next
    case FallAsleep
    with m have s: "\<not> asleep s" "asleep t" "backoff t = backoff s" and "?ds = ds @ [backoff s]"
      by (auto simp: follows_def sleeps_since_append sleeps_since_plain)
    with Cons.prems(2,3) show ?thesis by simp
  next
    case WakeUp
    with m have "asleep s" "\<not> asleep t" "backoff t = next_backoff (backoff s)" and ds: "?ds = ds"
      by (auto simp: follows_def sleeps_since_plain)
    with Cons.prems(2-4) show ?thesis
      by (cases ds) (simp_all add: delay_Suc [symmetric])
  next
    case GetReady
    with m have "\<not> asleep t" "backoff t = INITIAL_BACKOFF" and "?ds = []"
      by (auto simp: follows_def sleeps_since_append)
    then show ?thesis by (simp add: delay_0)
  qed
  with Cons.IH [OF rest, of ?ds] out show ?case by (simp add: sleeps_since_append)
qed

lemma delays:
  "run step start is = (s, out, None) \<Longrightarrow>
   sleeps_since slept ready [] out = map delay [0..<length (sleeps_since slept ready [] out)]
   \<and> backoff s = delay (if asleep s then length (sleeps_since slept ready [] out) - 1
       else length (sleeps_since slept ready [] out))"
  using delays_inv [of start "is" s out "[]"] start_delay by (simp add: delay_0 Let_def)

end

end
