(* ===== verification/Server_Actor.thy ===== *)
theory Server_Actor
  imports Actor Reconnect
begin

text \<open>
  \<^verbatim>\<open>run_server_actor\<close> and \<^verbatim>\<open>negotiate_exceptions\<close> of \<^verbatim>\<open>src/client/mod.rs\<close>: the life of the task that
  owns one job server, over any number of connections. The unbounded command channel, which outlives
  the connections, is part of the state; connecting (\<^verbatim>\<open>crate::net::connect\<close>), the framed stream and
  the timer are inputs.
\<close>

section \<open>The task\<close>

text \<open>The packets written, and the result.\<close>

definition negotiate_exceptions :: "unit result \<Rightarrow> packet result option \<Rightarrow> packet list \<times> bool result" where
  "negotiate_exceptions net nxt =
     (let opt_pkt = request OptionReq [ascii ''exceptions''] in
      case send_error opt_pkt net of
        Some e \<Rightarrow> ([], Inl e)
      | None \<Rightarrow>
          ([opt_pkt],
           case conn_recv nxt of
             Inl e \<Rightarrow> Inl e
           | Inr (Some packet) \<Rightarrow>
               if ptype packet = OptionRes then Inr True
               else if ptype packet = Error then Inr False
               else Inr False
           | Inr None \<Rightarrow> Inl ConnectionClosed))"

lemma negotiation_written:
  "set (fst (negotiate_exceptions net nxt)) \<subseteq> {request OptionReq [ascii ''exceptions'']}"
  by (simp add: negotiate_exceptions_def Let_def split: option.split)

text \<open>Where the task is: at the first, second or third await of its loop, in \<^verbatim>\<open>actor_loop\<close>, or done.\<close>

datatype phase = Connecting | Negotiating | Looping actor | Sleeping | Returned

record server =
  sv_phase :: phase
  sv_connected :: bool
  sv_attempted :: bool
  sv_backoff :: nat
  sv_queue :: "client_command list"
  sv_dropped :: bool

text \<open>\<open>Out\<close>: an output of the actor loop. \<open>Offered\<close>: a packet that the handshake writes out.\<close>

datatype server_output = Out actor_output | Offered packet | Connected | Sleep nat

text \<open>
  \<open>Enqueue\<close> and \<open>DropClient\<close> are the client's: a command sent, and the last sender dropped. The
  others complete an await of the task: connecting, the handshake (how writing out and reading end),
  the three branches of the \<^verbatim>\<open>select!\<close> in \<^verbatim>\<open>actor_loop\<close>, and the sleep.
\<close>

datatype server_input =
    Enqueue client_command
  | DropClient
  | ConnectDone "unit result"
  | NegotiateDone "unit result" "packet result option"
  | LoopTick "chan list"
  | LoopCommand "unit result"
  | LoopReceived "packet result option"
  | Woken

definition server_start :: server where
  "server_start = \<lparr>sv_phase = Connecting, sv_connected = False, sv_attempted = False,
     sv_backoff = INITIAL_BACKOFF, sv_queue = [], sv_dropped = False\<rparr>"

text \<open>The end of an iteration: \<^verbatim>\<open>attempted\<close> is stored and the sleep begins.\<close>

definition end_iteration :: "server \<Rightarrow> server" where
  "end_iteration s = s\<lparr>sv_attempted := True, sv_phase := Sleeping\<rparr>"

definition enter_loop :: "server \<Rightarrow> server" where
  "enter_loop s = s\<lparr>sv_connected := True, sv_attempted := True, sv_backoff := INITIAL_BACKOFF,
     sv_phase := Looping actor_start\<rparr>"

definition loop_turn :: "server \<Rightarrow> actor \<Rightarrow> actor_input \<Rightarrow> server \<times> server_output list \<times> unit option" where
  "loop_turn s a i =
     (case actor_step a i of
        (a', out, None) \<Rightarrow> (s\<lparr>sv_phase := Looping a'\<rparr>, map Out out, None)
      | (a', out, Some outcome) \<Rightarrow>
          let ended = map Out (out @ fail_all_pending (pending_replies a'));
              s' = s\<lparr>sv_connected := False\<rparr> in
          (case outcome of
             ClientDropped \<Rightarrow> (s'\<lparr>sv_phase := Returned\<rparr>, ended, Some ())
           | ConnectionLost \<Rightarrow> (end_iteration s', ended @ [Sleep (sv_backoff s')], None)))"

text \<open>
  An input that does not belong to the phase changes nothing: the await it completes is not pending.
  In particular \<^verbatim>\<open>cmd_rx.recv()\<close> is ready only with a command queued or all senders gone.
\<close>

fun server_step :: "bool \<Rightarrow> server \<Rightarrow> server_input \<Rightarrow> server \<times> server_output list \<times> unit option" where
  "server_step we s (Enqueue c) = (s\<lparr>sv_queue := sv_queue s @ [c]\<rparr>, [], None)"
| "server_step we s DropClient = (s\<lparr>sv_dropped := True\<rparr>, [], None)"
| "server_step we s (ConnectDone r) =
     (if sv_phase s = Connecting then
        (case r of
           Inr _ \<Rightarrow> if we then (s\<lparr>sv_phase := Negotiating\<rparr>, [], None) else (enter_loop s, [Connected], None)
         | Inl _ \<Rightarrow> (end_iteration s, [Sleep (sv_backoff s)], None))
      else (s, [], None))"
| "server_step we s (NegotiateDone net nxt) =
     (if sv_phase s = Negotiating then
        (case negotiate_exceptions net nxt of
           (offers, Inr supported) \<Rightarrow> (enter_loop s, map Offered offers @ [Connected], None)
         | (offers, Inl _) \<Rightarrow> (end_iteration s, map Offered offers @ [Sleep (sv_backoff s)], None))
      else (s, [], None))"
| "server_step we s (LoopTick closed) =
     (case sv_phase s of Looping a \<Rightarrow> loop_turn s a (Tick closed) | _ \<Rightarrow> (s, [], None))"
| "server_step we s (LoopCommand net) =
     (case sv_phase s of
        Looping a \<Rightarrow>
          (case sv_queue s of
             c # rest \<Rightarrow> loop_turn (s\<lparr>sv_queue := rest\<rparr>) a (Command c net)
           | [] \<Rightarrow> if sv_dropped s then loop_turn s a CommandsClosed else (s, [], None))
      | _ \<Rightarrow> (s, [], None))"
| "server_step we s (LoopReceived nxt) =
     (case sv_phase s of Looping a \<Rightarrow> loop_turn s a (Received nxt) | _ \<Rightarrow> (s, [], None))"
| "server_step we s Woken =
     (if sv_phase s = Sleeping then
        (s\<lparr>sv_backoff := next_backoff (sv_backoff s), sv_phase := Connecting\<rparr>, [], None)
      else (s, [], None))"

section \<open>The invariant\<close>

fun enqueued :: "server_input list \<Rightarrow> oneshot list" where
  "enqueued [] = []"
| "enqueued (Enqueue c # is) = cmd_oneshot c # enqueued is"
| "enqueued (_ # is) = enqueued is"

fun actor_outputs :: "server_output list \<Rightarrow> actor_output list" where
  "actor_outputs [] = []"
| "actor_outputs (Out x # out) = x # actor_outputs out"
| "actor_outputs (_ # out) = actor_outputs out"

definition unsettled :: "server \<Rightarrow> oneshot list" where
  "unsettled s = (case sv_phase s of Looping a \<Rightarrow> map pending_oneshot (pending_replies a) | _ \<Rightarrow> [])
     @ map cmd_oneshot (sv_queue s)"

definition flags_ok :: "server \<Rightarrow> bool" where
  "flags_ok s \<longleftrightarrow> (sv_connected s \<longleftrightarrow> (\<exists>a. sv_phase s = Looping a))
     \<and> (sv_connected s \<or> sv_phase s \<in> {Sleeping, Returned} \<longrightarrow> sv_attempted s)"

definition server_inv :: "server_input list \<Rightarrow> server_output list \<Rightarrow> server \<Rightarrow> bool" where
  "server_inv past made s \<longleftrightarrow>
     flags_ok s
     \<and> mset (settled (actor_outputs made)) + mset (unsettled s) = mset (enqueued past)"

lemma enqueued_append [simp]: "enqueued (xs @ ys) = enqueued xs @ enqueued ys"
  by (induction xs rule: enqueued.induct) auto

lemma actor_outputs_append [simp]: "actor_outputs (xs @ ys) = actor_outputs xs @ actor_outputs ys"
  by (induction xs rule: actor_outputs.induct) auto

lemma actor_outputs_map [simp]: "actor_outputs (map Out xs) = xs" "actor_outputs (map Offered ps) = []"
  by (induction xs, auto) (induction ps, auto)

text \<open>How a handshake ends.\<close>

lemma negotiated_cases:
  assumes "server_step we s (NegotiateDone net nxt) = (s', out, r)" and "sv_phase s = Negotiating"
  obtains offers where "s' = end_iteration s" "out = map Offered offers @ [Sleep (sv_backoff s)]" "r = None"
    "set offers \<subseteq> {request OptionReq [ascii ''exceptions'']}"
  | offers where "s' = enter_loop s" "out = map Offered offers @ [Connected]" "r = None"
    "set offers \<subseteq> {request OptionReq [ascii ''exceptions'']}"
proof -
  obtain offers res where n: "negotiate_exceptions net nxt = (offers, res)" by fastforce
  with negotiation_written [of net nxt] have "set offers \<subseteq> {request OptionReq [ascii ''exceptions'']}" by simp
  with assms n that show thesis by (cases res) auto
qed

lemmas server_simps = server_inv_def flags_ok_def Let_def unsettled_def
  end_iteration_def enter_loop_def

lemma server_inv_start: "server_inv [] [] server_start"
  by (simp add: server_simps server_start_def)

text \<open>A turn of \<^verbatim>\<open>actor_loop\<close> settles or queues what it takes.\<close>

lemma actor_step_settles:
  assumes "actor_step a i = (a', out, None)"
  shows "mset (settled out) + mset (map pending_oneshot (pending_replies a'))
    = mset (map pending_oneshot (pending_replies a)) + mset (map cmd_oneshot (commands [i]))"
proof (cases i)
  case (Received nxt)
  with assms obtain p where "handle_incoming p a = (a', out)"
    by (auto simp: conn_recv_def split: option.splits sum.splits prod.splits)
  from arg_cong [OF conjunct1 [OF handle_incoming_settled [OF this]], of mset] Received
  show ?thesis by simp
qed (use assms in \<open>auto simp: actor_step_command split: option.splits\<close>)

lemma resettle:
  fixes a :: "'a multiset"
  assumes "a + b = c + d" and "q + (m + (c + d)) = e"
  shows "a + (q + (m + b)) = e"
proof -
  have "a + (q + (m + b)) = q + (m + (a + b))" by (simp add: ac_simps)
  with assms show ?thesis by simp
qed

lemma loop_turn_inv:
  assumes inv: "server_inv past made s" and loop: "sv_phase s = Looping a"
    and turn: "loop_turn (s\<lparr>sv_queue := q\<rparr>) a i = (s', out, r)"
    and q: "sv_queue s = commands [i] @ q"
  shows "flags_ok s'
    \<and> mset (settled (actor_outputs (made @ out))) + mset (unsettled s') = mset (enqueued past)"
proof -
  obtain a' out' o' where step: "actor_step a i = (a', out', o')" by (cases "actor_step a i") auto
  have conn: "sv_connected s" "sv_attempted s"
    using inv loop by (auto simp: server_inv_def flags_ok_def)
  have count: "mset (map cmd_oneshot q) + (mset (settled (actor_outputs made))
      + (mset (map pending_oneshot (pending_replies a)) + mset (map cmd_oneshot (commands [i])))) = mset (enqueued past)"
    using inv loop q by (simp add: server_inv_def unsettled_def ac_simps del: commands.simps)
  show ?thesis
  proof (cases o')
    case None
    with step turn have "s' = s\<lparr>sv_queue := q, sv_phase := Looping a'\<rparr>" "out = map Out out'"
      by (simp_all add: loop_turn_def)
    with conn resettle [OF actor_step_settles [OF step [unfolded None]] count] show ?thesis
      by (simp add: flags_ok_def unsettled_def union_ac)
  next
    case (Some outcome)
    note broke = actor_step_break [OF step [unfolded Some]]
    with step turn Some have s': "s' = (case outcome of
          ClientDropped \<Rightarrow> s\<lparr>sv_queue := q, sv_connected := False, sv_phase := Returned\<rparr>
        | ConnectionLost \<Rightarrow> end_iteration (s\<lparr>sv_queue := q, sv_connected := False\<rparr>))"
      and out: "out = map Out (out' @ fail_all_pending (pending_replies a))
        @ (case outcome of ClientDropped \<Rightarrow> [] | ConnectionLost \<Rightarrow> [Sleep (sv_backoff s)])"
      using conn by (auto simp: loop_turn_def Let_def split: actor_outcome.splits)
    show ?thesis using conn count broke
      by (cases outcome)
        (simp_all add: s' out flags_ok_def unsettled_def end_iteration_def union_ac del: commands.simps)
  qed
qed

lemma enter_loop_inv:
  "\<lbrakk>server_inv past made s; sv_phase s = Connecting \<or> sv_phase s = Negotiating\<rbrakk>
   \<Longrightarrow> server_inv (past @ [ConnectDone x]) (made @ [Connected]) (enter_loop s)
     \<and> server_inv (past @ [NegotiateDone net nxt]) (made @ [Connected]) (enter_loop s)"
  by (auto simp: server_simps actor_start_def)

lemma end_iteration_inv:
  "\<lbrakk>server_inv past made s; sv_phase s = Connecting \<or> sv_phase s = Negotiating\<rbrakk>
   \<Longrightarrow> server_inv (past @ [ConnectDone x]) (made @ [Sleep (sv_backoff s)]) (end_iteration s)
     \<and> server_inv (past @ [NegotiateDone net nxt]) (made @ [Sleep (sv_backoff s)]) (end_iteration s)"
  by (auto simp: server_simps)

lemma woken_inv:
  assumes "server_inv past made s" and "sv_phase s = Sleeping"
  shows "server_inv (past @ [Woken]) made
    (s\<lparr>sv_backoff := next_backoff (sv_backoff s), sv_phase := Connecting\<rparr>)"
  using assms by (auto simp: server_simps)

lemma negotiating_inv:
  "\<lbrakk>server_inv past made s; sv_phase s = Connecting\<rbrakk>
   \<Longrightarrow> server_inv (past @ [ConnectDone x]) made (s\<lparr>sv_phase := Negotiating\<rparr>)"
  by (auto simp: server_simps)

text \<open>An input that changes nothing, and one that hands over to \<^verbatim>\<open>loop_turn\<close>.\<close>

lemma server_inv_skip: "\<lbrakk>server_inv past made s; enqueued [i] = []\<rbrakk> \<Longrightarrow> server_inv (past @ [i]) made s"
  by (simp add: server_inv_def)

lemma server_inv_turn:
  "\<lbrakk>server_inv past made s; sv_phase s = Looping a; loop_turn (s\<lparr>sv_queue := q\<rparr>) a j = (s', out, r);
    sv_queue s = commands [j] @ q; enqueued [i] = []\<rbrakk> \<Longrightarrow> server_inv (past @ [i]) (made @ out) s'"
  by (drule (3) loop_turn_inv) (simp add: server_inv_def)

lemma inv_frame [simp]:
  "flags_ok (s\<lparr>sv_queue := q\<rparr>) = flags_ok s" "flags_ok (s\<lparr>sv_dropped := d\<rparr>) = flags_ok s"
  "unsettled (s\<lparr>sv_dropped := d\<rparr>) = unsettled s"
  "mset (unsettled (s\<lparr>sv_queue := sv_queue s @ cs\<rparr>)) = mset (unsettled s) + mset (map cmd_oneshot cs)"
  by (simp_all add: flags_ok_def unsettled_def)

lemma connect_done_inv:
  assumes inv: "server_inv past made s" and step: "server_step we s (ConnectDone x) = (s', out, r)"
  shows "server_inv (past @ [ConnectDone x]) (made @ out) s'"
proof (cases "sv_phase s = Connecting")
  case True
  then consider "s' = end_iteration s" "out = [Sleep (sv_backoff s)]"
    | "s' = s\<lparr>sv_phase := Negotiating\<rparr>" "out = []"
    | "s' = enter_loop s" "out = [Connected]"
    using step by (cases x; cases we) simp_all
  then show ?thesis
  proof cases
    case 1
    with end_iteration_inv [OF inv disjI1 [OF True], of x] show ?thesis by blast
  next
    case 2
    with negotiating_inv [OF inv True, of x] show ?thesis by simp
  next
    case 3
    with enter_loop_inv [OF inv disjI1 [OF True], of x] show ?thesis by blast
  qed
next
  case False
  with step server_inv_skip [OF inv, of "ConnectDone x"] show ?thesis by simp
qed

lemma negotiate_done_inv:
  assumes inv: "server_inv past made s" and step: "server_step we s (NegotiateDone net nxt) = (s', out, r)"
  shows "server_inv (past @ [NegotiateDone net nxt]) (made @ out) s'"
proof (cases "sv_phase s = Negotiating")
  case True
  note invs = enter_loop_inv [OF inv disjI2 [OF True], of undefined net nxt]
    end_iteration_inv [OF inv disjI2 [OF True], of undefined net nxt]
  have offered: "server_inv past (made @ map Offered offers @ out) t \<longleftrightarrow> server_inv past (made @ out) t" for past offers out t
    by (simp add: server_inv_def)
  from step True show ?thesis
    by (cases rule: negotiated_cases) (use invs in \<open>simp_all only: offered\<close>)
next
  case False
  with step server_inv_skip [OF inv, of "NegotiateDone net nxt"] show ?thesis by simp
qed

lemma loop_command_inv:
  assumes inv: "server_inv past made s" and step: "server_step we s (LoopCommand net) = (s', out, r)"
  shows "server_inv (past @ [LoopCommand net]) (made @ out) s'"
proof (cases "\<exists>a. sv_phase s = Looping a \<and> (sv_queue s \<noteq> [] \<or> sv_dropped s)")
  case False
  with step server_inv_skip [OF inv, of "LoopCommand net"] show ?thesis
    by (cases "sv_phase s"; cases "sv_queue s") simp_all
next
  case True
  then obtain a where a: "sv_phase s = Looping a" and some: "sv_queue s \<noteq> [] \<or> sv_dropped s" by blast
  show ?thesis
  proof (cases "sv_queue s")
    case Nil
    have "s\<lparr>sv_queue := sv_queue s\<rparr> = s" by simp
    note turn = server_inv_turn [OF inv a, of "sv_queue s" CommandsClosed s' out r "LoopCommand net",
        unfolded this]
    with step a Nil some show ?thesis by simp
  next
    case (Cons c rest)
    with step a server_inv_turn [OF inv a, of rest "Command c net" s' out r "LoopCommand net"]
    show ?thesis by simp
  qed
qed

lemma server_step_inv:
  assumes inv: "server_inv past made s" and step: "server_step we s i = (s', out, r)"
  shows "server_inv (past @ [i]) (made @ out) s'"
proof (cases i)
  case (ConnectDone x)
  with connect_done_inv [OF inv] step show ?thesis by simp
next
  case (NegotiateDone net nxt)
  with negotiate_done_inv [OF inv] step show ?thesis by simp
next
  case Woken
  with woken_inv [OF inv] step server_inv_skip [OF inv, of i] show ?thesis
    by (cases "sv_phase s = Sleeping") simp_all
next
  case (LoopTick closed)
  with server_inv_turn [OF inv, of _ "sv_queue s" "Tick closed" s' out r i] step
    server_inv_skip [OF inv, of i]
  show ?thesis by (cases "sv_phase s") simp_all
next
  case (LoopReceived nxt)
  with server_inv_turn [OF inv, of _ "sv_queue s" "Received nxt" s' out r i] step
    server_inv_skip [OF inv, of i]
  show ?thesis by (cases "sv_phase s") simp_all
next
  case (LoopCommand net)
  with loop_command_inv [OF inv] step show ?thesis by blast
next
  case (Enqueue c)
  with step have "s' = s\<lparr>sv_queue := sv_queue s @ [c]\<rparr>" "out = []" by simp_all
  with inv Enqueue show ?thesis by (simp add: server_inv_def)
next
  case DropClient
  with step have "s' = s\<lparr>sv_dropped := True\<rparr>" "out = []" by simp_all
  with inv DropClient show ?thesis by (simp add: server_inv_def)
qed

interpretation server_task: event_loop "server_step we" server_start server_inv for we
  by unfold_locales (auto intro: server_inv_start server_step_inv)

section \<open>Sleeping and waking\<close>

fun slept_for :: "server_output \<Rightarrow> nat option" where
  "slept_for (Sleep d) = Some d"
| "slept_for _ = None"

fun is_ready :: "server_output \<Rightarrow> bool" where
  "is_ready Connected = True"
| "is_ready _ = False"

lemma plain_out: "plain slept_for is_ready (map Out xs)" "plain slept_for is_ready (map Offered ps)"
  by (rule plain_map, simp)+

lemma loop_turn_follows:
  assumes "loop_turn s a i = (s', out, None)" and "sv_phase s = Looping b"
  shows "\<exists>m. follows slept_for is_ready m (sv_backoff s, sv_phase s = Sleeping)
    (sv_backoff s', sv_phase s' = Sleeping) out"
proof -
  obtain a' out' o' where step: "actor_step a i = (a', out', o')" by (cases "actor_step a i") auto
  show ?thesis
  proof (cases o')
    case None
    with assms step have "follows slept_for is_ready Keep (sv_backoff s, sv_phase s = Sleeping)
        (sv_backoff s', sv_phase s' = Sleeping) out"
      by (auto simp: loop_turn_def follows_def plain_out)
    then show ?thesis by blast
  next
    case (Some outcome)
    with assms step have "follows slept_for is_ready FallAsleep (sv_backoff s, sv_phase s = Sleeping)
        (sv_backoff s', sv_phase s' = Sleeping) out"
      by (cases outcome) (auto simp: loop_turn_def follows_def plain_out end_iteration_def Let_def
          simp flip: map_append)
    then show ?thesis by blast
  qed
qed

lemma follows_skip: "follows slept ready Keep b b []"
  by (cases b) (simp add: follows_def)

lemma server_step_follows:
  assumes "server_step we s i = (s', out, None)"
  shows "\<exists>m. follows slept_for is_ready m (sv_backoff s, sv_phase s = Sleeping)
    (sv_backoff s', sv_phase s' = Sleeping) out"
proof -
  let ?ok = "\<lambda>m. follows slept_for is_ready m (sv_backoff s, sv_phase s = Sleeping)
    (sv_backoff s', sv_phase s' = Sleeping) out"
  have loop: "\<exists>m. ?ok m" if "loop_turn (s\<lparr>sv_queue := q\<rparr>) a j = (s', out, None)" "sv_phase s = Looping b" for q a j b
    using loop_turn_follows [OF that(1), of b] that(2) by simp
  have skip: "?ok Keep" if "s' = s" "out = []" using that by (simp add: follows_skip)
  have same: "s\<lparr>sv_queue := sv_queue s\<rparr> = s" by simp
  show ?thesis
  proof (cases i)
    case (ConnectDone r)
    with assms consider "?ok Keep" | "?ok FallAsleep" | "?ok GetReady"
      by (cases r; cases we) (auto simp: follows_def end_iteration_def enter_loop_def split: if_splits)
    then show ?thesis by cases blast+
  next
    case (NegotiateDone net nxt)
    show ?thesis
    proof (cases "sv_phase s = Negotiating")
      case True
      from assms [unfolded NegotiateDone] this show ?thesis
      proof (cases rule: negotiated_cases)
        case 1
        with True have "?ok FallAsleep" by (simp add: follows_def end_iteration_def plain_out)
        then show ?thesis by blast
      next
        case 2
        with True have "?ok GetReady" by (simp add: follows_def enter_loop_def plain_out)
        then show ?thesis by blast
      qed
    next
      case False
      with assms NegotiateDone skip show ?thesis by auto
    qed
  next
    case Woken
    with assms consider "?ok Keep" | "?ok WakeUp" by (auto simp: follows_def split: if_splits)
    then show ?thesis by cases blast+
  next
    case (LoopTick closed)
    with assms loop [of "sv_queue s" _ "Tick closed", unfolded same] skip show ?thesis
      by (cases "sv_phase s") auto
  next
    case (LoopReceived nxt)
    with assms loop [of "sv_queue s" _ "Received nxt", unfolded same] skip show ?thesis
      by (cases "sv_phase s") auto
  next
    case (LoopCommand net)
    with assms loop [of "sv_queue s" _ CommandsClosed, unfolded same] loop skip show ?thesis
      by (cases "sv_phase s"; cases "sv_queue s") (auto split: if_splits)
  next
    case (Enqueue c)
    with assms have "?ok Keep" by (auto simp: follows_def)
    then show ?thesis by blast
  next
    case DropClient
    with assms have "?ok Keep" by (auto simp: follows_def)
    then show ?thesis by blast
  qed
qed

interpretation server_reconnect: reconnecting "server_step we" server_start sv_backoff
  "\<lambda>s. sv_phase s = Sleeping" slept_for is_ready for we
  by unfold_locales (simp_all add: server_start_def, rule server_step_follows)

section \<open>Properties\<close>

lemma server_step_returns:
  "(\<exists>s' out. server_step we s i = (s', out, Some u)) \<longleftrightarrow>
   (\<exists>a net. sv_phase s = Looping a \<and> i = LoopCommand net \<and> sv_queue s = [] \<and> sv_dropped s)"
  by (cases i)
    (auto simp: loop_turn_def actor_step_command conn_recv_def Let_def
      split: phase.splits list.splits option.splits sum.splits prod.splits actor_outcome.splits)

text \<open>
  C5. No request is lost between connections. Over any sequence of connects, handshakes, losses, sleeps and
  reconnects, the oneshots settled so far together with those in flight on the connection and those
  waiting in the command channel are exactly the oneshots of the commands the client sent, each
  once; and when the task returns, every one of them has been settled.
\<close>

theorem commands_survive_reconnects:
  assumes "run (server_step we) server_start is = (s, out, None)"
  shows "mset (settled (actor_outputs out)) + mset (unsettled s) = mset (enqueued is)
    \<and> (case server_step we s i of
         (_, ending, Some _) \<Rightarrow> mset (settled (actor_outputs (out @ ending))) = mset (enqueued (is @ [i]))
       | (s', ending, None) \<Rightarrow>
           mset (settled (actor_outputs (out @ ending))) + mset (unsettled s') = mset (enqueued (is @ [i])))"
proof -
  have inv: "server_inv is out s" by (rule server_task.inv_run [OF assms])
  obtain s' ending r where step: "server_step we s i = (s', ending, r)" by (cases "server_step we s i")
  note inv' = server_step_inv [OF inv step]
  show ?thesis
  proof (cases r)
    case None
    with inv inv' step show ?thesis by (simp add: server_inv_def)
  next
    case (Some u)
    with server_step_returns [of we s i] step obtain a net where
      "sv_phase s = Looping a" "i = LoopCommand net" "sv_queue s = []" "sv_dropped s" by auto
    with step have "unsettled s' = []" by (auto simp: loop_turn_def unsettled_def)
    with inv inv' step Some show ?thesis by (simp add: server_inv_def)
  qed
qed

text \<open>A lost connection, a failed connect and a second connection.\<close>

definition flaky :: "server_input list" where
  "flaky =
     [Enqueue (CmdStatus (request GetStatus [[72]]) 4), ConnectDone (Inr ()), LoopCommand (Inr ()),
      Enqueue (CmdStatus (request GetStatus [[73]]) 5), LoopReceived None, Woken,
      ConnectDone (Inl (Io (OsError 111))), Woken]"

definition flaky_end :: server where
  "flaky_end = \<lparr>sv_phase = Connecting, sv_connected = False, sv_attempted = True, sv_backoff = 400,
     sv_queue = [CmdStatus (request GetStatus [[73]]) 5], sv_dropped = False\<rparr>"

definition flaky_out :: "server_output list" where
  "flaky_out = [Connected, Out (Sent (request GetStatus [[72]])),
     Out (Reply 4 (StatusReply (Inl ConnectionClosed))), Sleep 100, Sleep 200]"

lemma run_flaky: "run (server_step False) server_start flaky = (flaky_end, flaky_out, None)"
proof -
  have "send_error (request GetStatus [[72]]) (Inr ()) = None"
    by (simp add: send_error_None encodable_def request_def encoded_body_len_def codec_new_def
        DEFAULT_MAX_PAYLOAD_SIZE_def)
  then show ?thesis
    by (simp add: flaky_def flaky_end_def flaky_out_def server_start_def enter_loop_def end_iteration_def
        loop_turn_def Let_def conn_recv_def fail_all_pending_def actor_start_def next_backoff_def
        INITIAL_BACKOFF_def MAX_BACKOFF_def)
qed

theorem commands_survive_reconnects_witness:
  "mset (settled (actor_outputs flaky_out)) + mset (unsettled flaky_end) = {#4, 5#}"
proof -
  have "enqueued flaky = [4, 5]" by (simp add: flaky_def)
  with commands_survive_reconnects [OF run_flaky] show ?thesis by simp
qed

text \<open>
  The flags the pool reads. Whatever happens to the connections, \<^verbatim>\<open>connected\<close> is set exactly
  while the task is inside \<^verbatim>\<open>actor_loop\<close>, that is, while a command sent to it can be written out, and
  a set \<^verbatim>\<open>attempted\<close> covers every moment at which the first attempt has ended: in the loop, while
  sleeping, and after the task returned.
\<close>

theorem connected_means_in_loop:
  assumes "run (server_step we) server_start is = (s, out, None)"
  shows "(sv_connected s \<longleftrightarrow> (\<exists>a. sv_phase s = Looping a))
    \<and> (sv_connected s \<longrightarrow> sv_attempted s) \<and> (sv_phase s = Sleeping \<longrightarrow> sv_attempted s)
    \<and> (case server_step we s i of (s', _, Some _) \<Rightarrow> \<not> sv_connected s' \<and> sv_attempted s' | _ \<Rightarrow> True)"
proof -
  have inv: "server_inv is out s" by (rule server_task.inv_run [OF assms])
  obtain s' ending r where step: "server_step we s i = (s', ending, r)" by (cases "server_step we s i")
  have "sv_phase s' = Returned" if "r = Some u" for u
    using server_step_returns [of we s i u] step that by (auto simp: loop_turn_def)
  with inv server_step_inv [OF inv step] step show ?thesis
    by (auto simp: server_inv_def flags_ok_def split: option.split)
qed

theorem connected_means_in_loop_witness:
  "\<not> sv_connected flaky_end \<and> (\<nexists>a. sv_phase flaky_end = Looping a)"
  using connected_means_in_loop [OF run_flaky] by (simp add: flaky_end_def)

text \<open>
  C31. Reconnect delays. The sleeps since the connection was last ready are, in order, 100 ms, 200 ms,
  400 ms, ..., doubling up to 30 s and staying there: a connection that was ready resets them, a
  failed connect or handshake does not.
\<close>

theorem reconnect_delays:
  assumes "run (server_step we) server_start is = (s, out, None)"
  shows "let ds = sleeps_since slept_for is_ready [] out
    in ds = map (\<lambda>k. min (100 * 2 ^ k) 30000) [0..<length ds]"
  using server_reconnect.delays [OF assms] unfolding delay_alt Let_def by blast

theorem reconnect_delays_witness: "sleeps_since slept_for is_ready [] flaky_out = [100, 200]"
proof -
  have "length (sleeps_since slept_for is_ready [] flaky_out) = 2" by (simp add: flaky_out_def)
  moreover have "[0..<2] = [0, 1 :: nat]" by (simp add: upt_rec)
  ultimately show ?thesis using reconnect_delays [OF run_flaky] by (simp add: Let_def)
qed

text \<open>
  C32. When the task ends, and when it does not. The task returns exactly when it is in \<^verbatim>\<open>actor_loop\<close>
  with no command queued and the client gone; a task whose server never accepts a connection never
  returns, not even after the client has been dropped: it keeps sleeping and reconnecting.
\<close>

theorem task_returns_only_connected:
  assumes "\<forall>r. ConnectDone (Inr r) \<notin> set is"
  shows "(\<exists>s out. run (server_step we) server_start is = (s, out, None)
      \<and> sv_phase s \<in> {Connecting, Sleeping})
    \<and> ((\<exists>s' out. server_step we t i = (s', out, Some u)) \<longleftrightarrow>
        (\<exists>a net. sv_phase t = Looping a \<and> i = LoopCommand net \<and> sv_queue t = [] \<and> sv_dropped t))"
proof -
  have "\<exists>s out. run (server_step we) t is = (s, out, None) \<and> sv_phase s \<in> {Connecting, Sleeping}"
    if "sv_phase t \<in> {Connecting, Sleeping}" for t
    using assms that
  proof (induction "is" arbitrary: t)
    case (Cons i "is")
    then have "\<exists>t' out. server_step we t i = (t', out, None) \<and> sv_phase t' \<in> {Connecting, Sleeping}"
      by (cases i) (auto simp: end_iteration_def split: sum.splits)
    then obtain t' out where "server_step we t i = (t', out, None)" and "sv_phase t' \<in> {Connecting, Sleeping}"
      by blast
    with Cons.IH [of t'] Cons.prems(1) show ?case by auto
  qed simp
  from this [of server_start] server_step_returns show ?thesis by (simp add: server_start_def)
qed

theorem task_returns_only_connected_witness:
  "\<exists>s out. run (server_step False) server_start
       [DropClient, ConnectDone (Inl (Io (OsError 111))), Woken] = (s, out, None)
     \<and> sv_phase s \<in> {Connecting, Sleeping}"
  using task_returns_only_connected [of "[DropClient, ConnectDone (Inl (Io (OsError 111))), Woken]"]
  by simp

text \<open>
  C33. One command that cannot be encoded costs the whole connection. A queued command whose packet
  the encoder rejects (a body over the cap, say) is refused locally, before anything is written; yet
  the loop ends as for a lost connection: the command's caller gets the encoder's error, every other
  request in flight fails with \<^verbatim>\<open>ConnectionClosed\<close>, and the task disconnects and sleeps.
\<close>

theorem unencodable_command_disconnects:
  assumes "sv_phase s = Looping a" and "sv_queue s = c # rest"
    and "encode codec_new (cmd_packet c) [] = (Inl e, wbuf)"
  shows "server_step we s (LoopCommand net) =
    (s\<lparr>sv_queue := rest, sv_connected := False, sv_attempted := True, sv_phase := Sleeping\<rparr>,
     map Out (Reply (cmd_oneshot c) (cmd_error c e) # fail_all_pending (pending_replies a))
       @ [Sleep (sv_backoff s)],
     None)"
proof -
  have "send_error (cmd_packet c) net = Some e" using assms(3) by (simp add: send_error_def conn_send_def)
  then show ?thesis using assms(1,2)
    by (simp add: loop_turn_def actor_step_command end_iteration_def Let_def)
qed

theorem unencodable_command_disconnects_witness:
  "let s = server_start\<lparr>sv_phase := Looping \<lparr>pending_replies = [PendStatus 4], job_events = Map.empty\<rparr>,
       sv_queue := [CmdSubmit (request SubmitJob []) 9 None]\<rparr>
   in actor_outputs (fst (snd (server_step False s (LoopCommand (Inr ())))))
     = [Reply 9 (HandleReply (Inl (WrongArgCount SubmitJob 3 0))),
        Reply 4 (StatusReply (Inl ConnectionClosed))]"
proof -
  have enc: "encode codec_new (cmd_packet (CmdSubmit (request SubmitJob []) 9 None)) []
      = (Inl (WrongArgCount SubmitJob 3 0), [])"
    by (simp add: encode_def request_def)
  let ?a = "\<lparr>pending_replies = [PendStatus 4], job_events = Map.empty\<rparr>"
  let ?s = "server_start\<lparr>sv_phase := Looping ?a,
    sv_queue := [CmdSubmit (request SubmitJob []) 9 None]\<rparr>"
  have "sv_phase ?s = Looping ?a" by simp
  from unencodable_command_disconnects [OF this _ enc, where we = False and net = "Inr ()"]
  have "actor_outputs (fst (snd (server_step False ?s (LoopCommand (Inr ())))))
    = Reply 9 (HandleReply (Inl (WrongArgCount SubmitJob 3 0))) # fail_all_pending [PendStatus 4]"
    by (simp del: server_step.simps)
  then show ?thesis by (simp add: Let_def fail_all_pending_def del: server_step.simps)
qed

end
