(* ===== verification/Ketama.thy ===== *)
theory Ketama
  imports Rust_Int "HOL-Library.Multiset"
begin

text \<open>
  \<^verbatim>\<open>src/client/ketama.rs\<close>: the consistent-hash ring over the server list. The MD5 digest comes from
  the crate \<^verbatim>\<open>md-5\<close> and is the parameter \<open>md5\<close>; all that is used of it is that a digest has 16
  bytes. \<^verbatim>\<open>sort_unstable_by_key\<close> may order points with equal keys in any way, so it is the
  parameter \<open>srt\<close> with the contract \<open>unstable_sort\<close>.
\<close>

section \<open>Host and port\<close>

definition REPLICAS_PER_SERVER :: nat where
  "REPLICAS_PER_SERVER = 4"

definition DEFAULT_PORT :: u16 where
  "DEFAULT_PORT = 4730"

abbreviation (input) "COLON \<equiv> 0x3A :: u8"
abbreviation (input) "LBRACKET \<equiv> 0x5B :: u8"
abbreviation (input) "RBRACKET \<equiv> 0x5D :: u8"
abbreviation (input) "DASH \<equiv> 0x2D :: u8"

definition split_host_port :: "bytes \<Rightarrow> bytes \<times> u16" where
  "split_host_port addr =
     (let (host, port) =
        (case strip_prefix [LBRACKET] addr of
           Some rest \<Rightarrow>
             (case split_once RBRACKET rest of
                Some (h, tail) \<Rightarrow> (h, strip_prefix [COLON] tail)
              | None \<Rightarrow> (addr, None))
         | None \<Rightarrow>
             (case rsplit_once COLON addr of
                Some (h, p) \<Rightarrow> if COLON \<notin> set h then (h, Some p) else (addr, None)
              | None \<Rightarrow> (addr, None)))
      in (host,
          case Option.bind port from_str_u16 of
            Some p \<Rightarrow> if p \<noteq> 0 then p else DEFAULT_PORT
          | None \<Rightarrow> DEFAULT_PORT))"

section \<open>The ring\<close>

type_synonym points = "(u32 \<times> nat) list"

text \<open>\<^verbatim>\<open>format!("{host}:{port}-{replica}")\<close>.\<close>

definition ring_key :: "bytes \<Rightarrow> u16 \<Rightarrow> nat \<Rightarrow> bytes" where
  "ring_key host port replica = host @ COLON # dec (unat port) @ DASH # dec replica"

text \<open>\<^verbatim>\<open>chunks_exact(4)\<close> of a digest, each chunk read as a little-endian \<^verbatim>\<open>u32\<close>.\<close>

fun digest_points :: "bytes \<Rightarrow> u32 list" where
  "digest_points (a # b # c # d # r) = from_le_bytes a b c d # digest_points r"
| "digest_points _ = []"

definition addr_points :: "(bytes \<Rightarrow> bytes) \<Rightarrow> bytes \<Rightarrow> u32 list" where
  "addr_points md5 addr =
     (case split_host_port addr of (host, port) \<Rightarrow>
        concat (map (\<lambda>replica. digest_points (md5 (ring_key host port replica)))
          [0..<REPLICAS_PER_SERVER]))"

text \<open>The points pushed by the loops of \<^verbatim>\<open>Ring::new\<close>, before they are sorted.\<close>

definition ring_points :: "(bytes \<Rightarrow> bytes) \<Rightarrow> bytes list \<Rightarrow> points" where
  "ring_points md5 servers =
     concat (map (\<lambda>(index, addr). map (\<lambda>pt. (pt, index)) (addr_points md5 addr))
       (enumerate 0 servers))"

definition ring_new :: "(bytes \<Rightarrow> bytes) \<Rightarrow> (points \<Rightarrow> points) \<Rightarrow> bytes list \<Rightarrow> points" where
  "ring_new md5 srt servers = srt (ring_points md5 servers)"

definition md5_u32 :: "(bytes \<Rightarrow> bytes) \<Rightarrow> bytes \<Rightarrow> u32" where
  "md5_u32 md5 key =
     (let digest = md5 key in from_le_bytes (digest ! 0) (digest ! 1) (digest ! 2) (digest ! 3))"

definition next_after :: "points \<Rightarrow> nat \<Rightarrow> nat option" where
  "next_after points failed =
     (let len = length points;
          after = (case position (\<lambda>(_, server). server = failed) points of
                     Some i \<Rightarrow> i | None \<Rightarrow> 0)
      in find (\<lambda>server. server \<noteq> failed)
           (map (\<lambda>offset. snd (points ! ((after + offset) mod len))) [1..<len + 1]))"

text \<open>
  The \<^verbatim>\<open>while\<close> loop of \<^verbatim>\<open>Ring::select\<close>: \<open>Some\<close> is the early return of a healthy server, \<open>None\<close> the
  end of the loop. It ends because every round adds a new server of the ring to \<open>tried\<close>.
\<close>

lemma find_in_map: "find P (map f xs) = Some y \<Longrightarrow> y \<in> f ` set xs"
  by (induction xs) (auto split: if_splits)

lemma next_after_in_ring: "next_after points failed = Some s \<Longrightarrow> s \<in> snd ` set points \<and> s \<noteq> failed"
proof
  assume *: "next_after points failed = Some s"
  then show "s \<noteq> failed"
    by (auto simp: next_after_def Let_def find_Some_iff)
  from * have "points \<noteq> []" by (auto simp: next_after_def)
  from find_in_map [OF * [unfolded next_after_def Let_def]] obtain i where
    "s = snd (points ! (i mod length points))" by auto
  with \<open>points \<noteq> []\<close> show "s \<in> snd ` set points" by simp
qed

function chain :: "points \<Rightarrow> (nat \<Rightarrow> bool) \<Rightarrow> nat \<Rightarrow> nat list \<Rightarrow> nat option" where
  "chain points is_healthy candidate tried =
     (if candidate \<in> set tried then None
      else if is_healthy candidate then Some candidate
      else (case next_after points candidate of
              Some nxt \<Rightarrow> chain points is_healthy nxt (tried @ [candidate])
            | None \<Rightarrow> None))"
  by pat_completeness auto
termination
proof (relation "measure (\<lambda>(points, h, candidate, tried).
    card (insert candidate (snd ` set points) - set tried))", goal_cases)
  case (2 points h candidate tried nxt)
  then have "nxt \<in> snd ` set points" using next_after_in_ring by blast
  then have "insert nxt (snd ` set points) - set (tried @ [candidate])
      \<subset> insert candidate (snd ` set points) - set tried"
    using 2(1) by auto
  then show ?case by (simp add: psubset_card_mono)
qed simp

declare chain.simps [simp del]

definition select :: "(bytes \<Rightarrow> bytes) \<Rightarrow> points \<Rightarrow> bytes \<Rightarrow> (nat \<Rightarrow> bool) \<Rightarrow> nat option" where
  "select md5 points unique is_healthy =
     (if points = [] then None
      else
        let len = length points;
            hash = md5_u32 md5 unique;
            start = length (takeWhile (\<lambda>(point, _). point < hash) points) mod len
        in case chain points is_healthy (snd (points ! start)) [] of
             Some server \<Rightarrow> Some server
           | None \<Rightarrow>
               find is_healthy
                 (map (\<lambda>offset. snd (points ! ((start + offset) mod len))) [0..<len]))"

section \<open>The contract of the sort\<close>

locale unstable_sort =
  fixes srt :: "points \<Rightarrow> points"
  assumes srt_mset: "mset (srt ps) = mset ps"
    and srt_sorted: "sorted (map fst (srt ps))"
begin

lemma srt_set: "set (srt ps) = set ps"
  using srt_mset [of ps] by (metis set_mset_mset)

lemma srt_length: "length (srt ps) = length ps"
  using srt_mset [of ps] by (metis size_mset)

lemma srt_count: "length (filter P (srt ps)) = length (filter P ps)"
  using srt_mset [of ps] by (metis mset_filter size_mset)

end

text \<open>The library's stable sort is one such sort.\<close>

interpretation stable: unstable_sort "sort_key fst"
  by unfold_locales simp_all


section \<open>Walking the ring\<close>

lemma rotate_walk:
  "map (\<lambda>offset. ps ! ((start + offset) mod length ps)) [0..<length ps] = rotate start ps"
  by (rule nth_equalityI) (simp_all add: nth_rotate)

lemma walk_from:
  "map (\<lambda>offset. snd (ps ! ((start + offset) mod length ps))) [0..<length ps]
   = map snd (rotate start ps)"
proof -
  have "map (\<lambda>offset. snd (ps ! ((start + offset) mod length ps))) [0..<length ps]
      = map snd (map (\<lambda>offset. ps ! ((start + offset) mod length ps)) [0..<length ps])"
    by simp
  then show ?thesis by (simp only: rotate_walk)
qed

lemma walk_past:
  "map (\<lambda>offset. snd (ps ! ((after + offset) mod length ps))) [1..<length ps + 1]
   = map snd (rotate (Suc after) ps)"
proof -
  have shift: "[1..<length ps + 1] = map Suc [0..<length ps]"
    by (simp add: map_Suc_upt)
  have "map (\<lambda>offset. snd (ps ! ((after + offset) mod length ps))) [1..<length ps + 1]
      = map (\<lambda>offset. snd (ps ! ((Suc after + offset) mod length ps))) [0..<length ps]"
    unfolding shift by simp
  then show ?thesis by (simp only: walk_from)
qed

lemma find_None_set: "find P xs = None \<longleftrightarrow> (\<forall>x \<in> set xs. \<not> P x)"
  by (auto simp: find_None_iff)

lemma find_Some_set: "find P xs = Some x \<Longrightarrow> P x \<and> x \<in> set xs"
  by (auto simp: find_Some_iff)

definition start_of :: "u32 \<Rightarrow> points \<Rightarrow> nat" where
  "start_of hash ps = length (takeWhile (\<lambda>(point, _). point < hash) ps) mod length ps"

lemma select_alt:
  "ps \<noteq> [] \<Longrightarrow> select md5 ps u h =
     (case chain ps h (snd (ps ! start_of (md5_u32 md5 u) ps)) [] of
        Some s \<Rightarrow> Some s
      | None \<Rightarrow> find h (map snd (rotate (start_of (md5_u32 md5 u) ps) ps)))"
  by (simp only: select_def Let_def start_of_def walk_from if_False)

lemma chain_Some:
  "chain ps h c tried = Some s \<Longrightarrow> h s \<and> (s = c \<or> s \<in> snd ` set ps)"
proof (induction ps h c tried rule: chain.induct)
  case (1 ps h c tried)
  from "1.prems" have eq: "(if c \<in> set tried then None else if h c then Some c
      else case next_after ps c of Some n \<Rightarrow> chain ps h n (tried @ [c]) | None \<Rightarrow> None) = Some s"
    by (simp only: chain.simps [of ps h c tried])
  show ?case
  proof (cases "c \<in> set tried \<or> h c")
    case True
    with eq show ?thesis by (auto split: if_splits)
  next
    case False
    with eq obtain n where n: "next_after ps c = Some n"
      and rest: "chain ps h n (tried @ [c]) = Some s"
      by (auto split: option.splits)
    from False have "c \<notin> set tried" "\<not> h c" by simp_all
    from "1.IH" [OF this n rest] next_after_in_ring [OF n] show ?thesis by auto
  qed
qed

lemma start_in_ring: "ps \<noteq> [] \<Longrightarrow> ps ! start_of hash ps \<in> set ps"
  by (simp add: start_of_def)

lemma select_Some: "select md5 ps u h = Some s \<Longrightarrow> h s \<and> s \<in> snd ` set ps"
proof -
  assume *: "select md5 ps u h = Some s"
  then have ne: "ps \<noteq> []" by (auto simp: select_def)
  let ?c = "snd (ps ! start_of (md5_u32 md5 u) ps)"
  show ?thesis
  proof (cases "chain ps h ?c []")
    case None
    with * ne have "find h (map snd (rotate (start_of (md5_u32 md5 u) ps) ps)) = Some s"
      by (simp add: select_alt)
    from find_Some_set [OF this] show ?thesis by simp
  next
    case (Some s')
    with * ne chain_Some [OF Some] start_in_ring [OF ne, of "md5_u32 md5 u"] show ?thesis
      by (auto simp: select_alt)
  qed
qed

lemma select_None: "select md5 ps u h = None \<longleftrightarrow> (\<forall>s \<in> snd ` set ps. \<not> h s)"
proof
  assume *: "select md5 ps u h = None"
  show "\<forall>s \<in> snd ` set ps. \<not> h s"
  proof (cases "ps = []")
    case False
    with * have "find h (map snd (rotate (start_of (md5_u32 md5 u) ps) ps)) = None"
      by (auto simp: select_alt split: option.splits)
    then show ?thesis by (simp add: find_None_set)
  qed simp
next
  assume "\<forall>s \<in> snd ` set ps. \<not> h s"
  then show "select md5 ps u h = None"
    using select_Some [of md5 ps u h] by (cases "select md5 ps u h") auto
qed

lemma select_primary:
  "\<lbrakk>ps \<noteq> []; h (snd (ps ! start_of (md5_u32 md5 u) ps))\<rbrakk>
   \<Longrightarrow> select md5 ps u h = Some (snd (ps ! start_of (md5_u32 md5 u) ps))"
  by (simp add: select_alt chain.simps [of ps h _ "[]"])

text \<open>
  Selection by unique id finds a healthy server whenever the ring has one: a server that is
  returned is healthy and on the ring, and nothing is returned exactly when every server on the
  ring is down, although the fail-over chain may cycle before it meets a healthy one.
\<close>

theorem select_sound_complete:
  "(\<forall>s. select md5 points unique is_healthy = Some s
      \<longrightarrow> is_healthy s \<and> s \<in> snd ` set points)
   \<and> (select md5 points unique is_healthy = None
      \<longleftrightarrow> (\<forall>s \<in> snd ` set points. \<not> is_healthy s))"
  using select_Some select_None by blast

theorem select_sound_complete_witness:
  "\<exists>s. select (\<lambda>_. [0, 0, 0, 0]) [(5, 0), (7, 1), (9, 0), (11, 2)] [] (\<lambda>s. s = 2) = Some s \<and> s = 2"
  using select_sound_complete [of "\<lambda>_. [0, 0, 0, 0]" "[(5, 0), (7, 1), (9, 0), (11, 2)]" "[]"
      "\<lambda>s. s = 2"]
  by (cases "select (\<lambda>_. [0, 0, 0, 0]) [(5, 0), (7, 1), (9, 0), (11, 2)] [] (\<lambda>s. s = 2)") auto

section \<open>The owner of a hash\<close>

text \<open>
  The abstract rule of consistent hashing: the owner of \<open>h\<close> is the point at or after \<open>h\<close> that
  comes first, or the first point of all when every point lies before \<open>h\<close>.
\<close>

definition owner :: "(u32 \<times> 'a) set \<Rightarrow> u32 \<Rightarrow> u32 \<times> 'a \<Rightarrow> bool" where
  "owner P h x \<longleftrightarrow> x \<in> P \<and>
     (if \<exists>y \<in> P. h \<le> fst y then h \<le> fst x \<and> (\<forall>y \<in> P. h \<le> fst y \<longrightarrow> fst x \<le> fst y)
      else \<forall>y \<in> P. fst x \<le> fst y)"

lemma owner_unique: "\<lbrakk>owner P h x; owner P h y; inj_on fst P\<rbrakk> \<Longrightarrow> x = y"
proof -
  assume "owner P h x" "owner P h y" "inj_on fst P"
  then have "fst x = fst y" "x \<in> P" "y \<in> P"
    by (auto simp: owner_def split: if_splits intro: order_antisym)
  with \<open>inj_on fst P\<close> show "x = y" by (rule inj_onD)
qed

lemma owner_subset: "\<lbrakk>owner P h x; Q \<subseteq> P; x \<in> Q\<rbrakk> \<Longrightarrow> owner Q h x"
  by (auto simp: owner_def split: if_splits)

lemma owner_image:
  "\<lbrakk>owner P h x; \<And>y. fst (f y) = fst y\<rbrakk> \<Longrightarrow> owner (f ` P) h (f x)"
  by (auto simp: owner_def)

lemma start_owner:
  assumes "ps \<noteq> []" and sorted: "sorted (map fst ps)"
  shows "owner (set ps) hash (ps ! start_of hash ps)"
proof -
  let ?before = "takeWhile (\<lambda>(point, _). point < hash) ps"
  let ?k = "length ?before"
  have before: "fst y < hash" if "y \<in> set (take ?k ps)" for y
    using that set_takeWhileD [of y "\<lambda>(point, _). point < hash" ps]
    by (auto simp: takeWhile_eq_take [symmetric])
  have mono: "fst (ps ! i) \<le> fst (ps ! j)" if "i \<le> j" "j < length ps" for i j
    using sorted_nth_mono [OF sorted that(1)] that by simp
  show ?thesis
  proof (cases "?k < length ps")
    case True
    then have start: "start_of hash ps = ?k" by (simp add: start_of_def)
    have hit: "hash \<le> fst (ps ! ?k)"
      using nth_length_takeWhile [OF True] by (auto simp: case_prod_beta)
    have least: "fst (ps ! ?k) \<le> fst y" if "y \<in> set ps" "hash \<le> fst y" for y
    proof -
      from that(1) obtain j where j: "j < length ps" "y = ps ! j" by (auto simp: in_set_conv_nth)
      have "?k \<le> j"
      proof (rule ccontr)
        assume "\<not> ?k \<le> j"
        then have "take ?k ps ! j \<in> set (take ?k ps)" using True by (intro nth_mem) simp
        then have "y \<in> set (take ?k ps)" using j \<open>\<not> ?k \<le> j\<close> by simp
        with before that(2) show False by (meson leD)
      qed
      with mono [of ?k j] j show ?thesis by simp
    qed
    show ?thesis using True start hit least by (auto simp: owner_def)
  next
    case False
    then have k: "?k = length ps" using length_takeWhile_le [of _ ps] by (metis le_neq_implies_less)
    then have "start_of hash ps = 0" by (simp add: start_of_def)
    moreover have "\<not> hash \<le> fst y" if "y \<in> set ps" for y
      using before [of y] that k by (simp add: not_le)
    moreover have "fst (ps ! 0) \<le> fst y" if "y \<in> set ps" for y
      using that mono [of 0] by (auto simp: in_set_conv_nth)
    ultimately show ?thesis using assms(1) by (auto simp: owner_def)
  qed
qed


section \<open>The layout of the ring\<close>

lemma length_digest_points: "length (digest_points d) = length d div 4"
  by (induction d rule: digest_points.induct) auto

lemma length_addr_points:
  assumes "\<And>k. length (md5 k) = 16"
  shows "length (addr_points md5 addr) = 16"
proof -
  have "[0..<REPLICAS_PER_SERVER] = [0, 1, 2, 3]"
    by (simp add: REPLICAS_PER_SERVER_def upt_rec)
  then show ?thesis
    using assms by (simp add: addr_points_def length_digest_points case_prod_beta)
qed

definition points_from :: "(bytes \<Rightarrow> bytes) \<Rightarrow> nat \<Rightarrow> bytes list \<Rightarrow> points" where
  "points_from md5 n servers =
     concat (map (\<lambda>(index, addr). map (\<lambda>pt. (pt, index)) (addr_points md5 addr))
       (enumerate n servers))"

lemma points_from_simps [simp]:
  "points_from md5 n [] = []"
  "points_from md5 n (a # as) = map (\<lambda>pt. (pt, n)) (addr_points md5 a) @ points_from md5 (Suc n) as"
  by (simp_all add: points_from_def)

lemma ring_points_from: "ring_points md5 servers = points_from md5 0 servers"
  by (simp add: ring_points_def points_from_def)

lemma points_from_mem:
  "(pt, i) \<in> set (points_from md5 n servers)
   \<longleftrightarrow> n \<le> i \<and> i < n + length servers \<and> pt \<in> set (addr_points md5 (servers ! (i - n)))"
proof (induction servers arbitrary: n)
  case (Cons a as)
  show ?case
  proof (cases "i = n")
    case False
    with Cons [of "Suc n"] show ?thesis by (auto simp: nth_Cons' Suc_diff_Suc)
  qed (use Cons [of "Suc n"] in auto)
qed simp

lemma ring_points_mem:
  "(pt, i) \<in> set (ring_points md5 servers)
   \<longleftrightarrow> i < length servers \<and> pt \<in> set (addr_points md5 (servers ! i))"
  by (simp add: ring_points_from points_from_mem)

lemma length_points_from:
  "(\<And>k. length (md5 k) = 16) \<Longrightarrow> length (points_from md5 n servers) = 16 * length servers"
  by (induction servers arbitrary: n) (simp_all add: length_addr_points)

lemma count_points_from:
  assumes "\<And>k. length (md5 k) = 16"
  shows "length (filter (\<lambda>x. snd x = i) (points_from md5 n servers))
    = (if n \<le> i \<and> i < n + length servers then 16 else 0)"
proof (induction servers arbitrary: n)
  case (Cons a as)
  have "filter (\<lambda>x. snd x = i) (map (\<lambda>pt. (pt, n)) (addr_points md5 a))
      = (if i = n then map (\<lambda>pt. (pt, n)) (addr_points md5 a) else [])"
    by (auto simp: filter_map o_def)
  with Cons [of "Suc n"] show ?case
    by (auto simp: length_addr_points [OF assms])
qed simp

text \<open>
  The layout of the ring: whatever the sort does with equal points, the ring is ordered by
  point, has sixteen points per configured server, and every server of the list owns exactly
  sixteen of them.
\<close>

theorem ring_layout:
  assumes "unstable_sort srt" and "\<And>k. length (md5 k) = 16"
  shows "sorted (map fst (ring_new md5 srt servers))
    \<and> length (ring_new md5 srt servers) = 16 * length servers
    \<and> length (filter (\<lambda>x. snd x = i) (ring_new md5 srt servers)) = (if i < length servers then 16 else 0)"
  using unstable_sort.srt_sorted [OF assms(1)] unstable_sort.srt_length [OF assms(1)]
    unstable_sort.srt_count [OF assms(1)] length_points_from [OF assms(2)]
    count_points_from [OF assms(2)]
  by (simp add: ring_new_def ring_points_from)

theorem ring_layout_witness:
  "length (ring_new (\<lambda>k. replicate 16 (of_nat (length k))) (sort_key fst) [ascii ''a:1'', ascii ''b'']) = 32"
  using ring_layout [OF stable.unstable_sort_axioms, of "\<lambda>k. replicate 16 (of_nat (length k))"]
  by simp

section \<open>Primary and fail-over\<close>

lemma ring_owner:
  assumes "unstable_sort srt" and "\<And>k. length (md5 k) = 16" and "servers \<noteq> []"
  shows "\<exists>x. owner (set (ring_points md5 servers)) (md5_u32 md5 u) x
    \<and> (\<forall>is_healthy. is_healthy (snd x)
         \<longrightarrow> select md5 (ring_new md5 srt servers) u is_healthy = Some (snd x))"
proof -
  let ?ps = "ring_new md5 srt servers" and ?h = "md5_u32 md5 u"
  have "0 < length ?ps"
    using ring_layout [OF assms(1,2), where servers = servers] assms(3) by simp
  then have ne: "?ps \<noteq> []" by auto
  have set: "set ?ps = set (ring_points md5 servers)"
    by (simp add: ring_new_def unstable_sort.srt_set [OF assms(1)])
  have "sorted (map fst ?ps)"
    by (simp add: ring_new_def unstable_sort.srt_sorted [OF assms(1)])
  from start_owner [OF ne this, of ?h] set
  have "owner (set (ring_points md5 servers)) ?h (?ps ! start_of ?h ?ps)" by simp
  with select_primary [OF ne] show ?thesis by blast
qed

text \<open>
  C10. Agreement with the rule of consistent hashing: for a non-empty server list there is an owner
  of the unique id's hash among the configured points, and as long as that owner's server is
  healthy it is the one selected, whatever the health of the others.
\<close>

theorem select_is_owner:
  assumes "unstable_sort srt" and "\<And>k. length (md5 k) = 16" and "servers \<noteq> []"
  shows "\<exists>x. owner (set (ring_points md5 servers)) (md5_u32 md5 u) x
    \<and> (\<forall>is_healthy. is_healthy (snd x)
         \<longrightarrow> select md5 (ring_new md5 srt servers) u is_healthy = Some (snd x))"
  by (rule ring_owner [OF assms])

lemma position_takeWhile:
  "\<exists>x \<in> set xs. P x \<Longrightarrow> position P xs = Some (length (takeWhile (\<lambda>x. \<not> P x) xs))"
  by (induction xs) auto

text \<open>
  libgearman's \<^verbatim>\<open>after_con\<close> step: the first different server met on a walk around the ring that starts
  just past the failed server's first point.
\<close>

definition after_con :: "points \<Rightarrow> nat \<Rightarrow> nat option" where
  "after_con ps p = find (\<lambda>server. server \<noteq> p)
     (map snd (rotate (Suc (length (takeWhile (\<lambda>x. snd x \<noteq> p) ps))) ps))"

lemma next_after_con:
  assumes "p \<in> snd ` set ps"
  shows "next_after ps p = after_con ps p"
proof -
  have "position (\<lambda>(_, server). server = p) ps
      = Some (length (takeWhile (\<lambda>x. \<not> (case x of (_, server) \<Rightarrow> server = p)) ps))"
    using assms by (intro position_takeWhile) auto
  then show ?thesis
    unfolding next_after_def Let_def walk_past after_con_def
    by (simp add: case_prod_beta del: rotate_Suc)
qed

text \<open>The candidates of \<^const>\<open>chain\<close>, in the order in which they are tried.\<close>

definition fail_over :: "points \<Rightarrow> (nat \<Rightarrow> bool) \<Rightarrow> nat list \<Rightarrow> bool" where
  "fail_over ps is_healthy cs \<longleftrightarrow>
     cs \<noteq> [] \<and> distinct cs \<and> successively (\<lambda>p q. \<not> is_healthy p \<and> after_con ps p = Some q) cs"

lemma chain_fails_over:
  "\<lbrakk>c \<in> snd ` set ps; c \<notin> set tried; distinct tried\<rbrakk> \<Longrightarrow>
     \<exists>cs. cs \<noteq> [] \<and> hd cs = c \<and> distinct (tried @ cs)
       \<and> successively (\<lambda>p q. \<not> h p \<and> after_con ps p = Some q) cs
       \<and> (if h (last cs) then chain ps h c tried = Some (last cs)
          else chain ps h c tried = None
            \<and> (\<forall>q. after_con ps (last cs) = Some q \<longrightarrow> q \<in> set (tried @ cs)))"
proof (induction ps h c tried rule: chain.induct)
  case (1 ps h c tried)
  note eq = chain.simps [of ps h c tried] next_after_con [OF "1.prems"(1)]
  show ?case
  proof (cases "\<not> h c \<and> (\<exists>q. after_con ps c = Some q \<and> q \<notin> set (tried @ [c]))")
    case False
    have "chain ps h c tried = (if h c then Some c else None)"
    proof (cases "h c")
      case True
      with eq "1.prems"(2) show ?thesis by simp
    next
      case down: False
      with False eq "1.prems"(2) show ?thesis
        by (cases "after_con ps c") (auto simp: chain.simps [of ps h _ "tried @ [c]"])
    qed
    with False "1.prems" show ?thesis by (intro exI [of _ "[c]"]) auto
  next
    case True
    then obtain q where q: "\<not> h c" "after_con ps c = Some q" "q \<notin> set (tried @ [c])" by blast
    then have nxt: "next_after ps c = Some q" using eq by simp
    from "1.IH" [OF "1.prems"(2) q(1) this _ q(3)] next_after_in_ring [OF this] "1.prems"(2,3)
    obtain cs where cs: "cs \<noteq> []" "hd cs = q" "distinct ((tried @ [c]) @ cs)"
      "successively (\<lambda>p q. \<not> h p \<and> after_con ps p = Some q) cs"
      "if h (last cs) then chain ps h q (tried @ [c]) = Some (last cs)
       else chain ps h q (tried @ [c]) = None
         \<and> (\<forall>r. after_con ps (last cs) = Some r \<longrightarrow> r \<in> set ((tried @ [c]) @ cs))"
      by auto
    have step: "chain ps h c tried = chain ps h q (tried @ [c])"
      using eq "1.prems"(2) q nxt by simp
    have "last (c # cs) = last cs" using cs(1) by simp
    with cs q step show ?thesis
      by (intro exI [of _ "c # cs"]) (auto simp: successively_Cons)
  qed
qed

text \<open>
  C20. The fail-over rule of libgearman, for any ring and any servers being down. \<^const>\<open>select\<close> tries
  distinct servers one after the other: first the one that a unique id has when every server is up,
  then, as long as the last one tried is down, the first different server on a walk that starts just
  past that server's first point (not past the hash). It returns the first of them that is up; only
  when the walk leads nowhere, or back to a server already tried, with all of them down, it returns
  the first server that is up in ring order from the hash, if there is one.
\<close>

theorem select_fails_over:
  assumes "ps \<noteq> []"
  shows "\<exists>cs. fail_over ps is_healthy cs \<and> select md5 ps u (\<lambda>_. True) = Some (hd cs)
    \<and> (if is_healthy (last cs) then select md5 ps u is_healthy = Some (last cs)
       else (\<forall>q. after_con ps (last cs) = Some q \<longrightarrow> q \<in> set cs)
         \<and> select md5 ps u is_healthy
             = find is_healthy (map snd (rotate (start_of (md5_u32 md5 u) ps) ps)))"
proof -
  let ?p = "snd (ps ! start_of (md5_u32 md5 u) ps)"
  have "?p \<in> snd ` set ps" using start_in_ring [OF assms] by simp
  moreover have "?p \<notin> set []" "distinct ([] :: nat list)" by simp_all
  ultimately have "\<exists>cs. cs \<noteq> [] \<and> hd cs = ?p \<and> distinct ([] @ cs)
       \<and> successively (\<lambda>p q. \<not> is_healthy p \<and> after_con ps p = Some q) cs
       \<and> (if is_healthy (last cs) then chain ps is_healthy ?p [] = Some (last cs)
          else chain ps is_healthy ?p [] = None
            \<and> (\<forall>q. after_con ps (last cs) = Some q \<longrightarrow> q \<in> set ([] @ cs)))"
    by (rule chain_fails_over)
  then obtain cs where cs: "cs \<noteq> []" "hd cs = ?p" "distinct cs"
    "successively (\<lambda>p q. \<not> is_healthy p \<and> after_con ps p = Some q) cs"
    "if is_healthy (last cs) then chain ps is_healthy ?p [] = Some (last cs)
     else chain ps is_healthy ?p [] = None \<and> (\<forall>q. after_con ps (last cs) = Some q \<longrightarrow> q \<in> set cs)"
    unfolding append_Nil by (elim exE conjE)
  have "select md5 ps u (\<lambda>_. True) = Some ?p" by (rule select_primary [OF assms]) simp
  with cs show ?thesis
    by (intro exI [of _ cs]) (auto simp: fail_over_def select_alt [OF assms] split: if_splits)
qed

text \<open>Two servers are down: the walk goes from server 0 to server 1 and from there to server 2.\<close>

theorem select_fails_over_witness:
  "\<exists>cs. fail_over [(5, 0), (7, 1), (9, 2), (11, 0)] (\<lambda>s. s = 2) cs \<and> hd cs = 0 \<and> last cs = 2
    \<and> select (\<lambda>_. [10, 0, 0, 0]) [(5, 0), (7, 1), (9, 2), (11, 0)] [] (\<lambda>s. s = 2) = Some 2"
proof -
  let ?ps = "[(5, 0), (7, 1), (9, 2), (11, 0)] :: points" and ?md5 = "\<lambda>_. [10, 0, 0, 0] :: bytes"
  have hash: "md5_u32 ?md5 [] = 10" by (simp add: md5_u32_def from_le_bytes_def from_be_bytes_def)
  have first: "select ?md5 ?ps [] (\<lambda>_. True) = Some 0"
    by (simp add: select_def hash chain.simps)
  have con: "after_con ?ps 0 = Some 1" "after_con ?ps 1 = Some 2" "after_con ?ps 2 = Some 0"
    by (simp_all add: after_con_def)
  from select_fails_over [of ?ps "\<lambda>s. s = 2" ?md5 "[]"] obtain cs where
    cs: "fail_over ?ps (\<lambda>s. s = 2) cs" "hd cs = 0"
    and sel: "if last cs = 2 then select ?md5 ?ps [] (\<lambda>s. s = 2) = Some (last cs)
       else (\<forall>q. after_con ?ps (last cs) = Some q \<longrightarrow> q \<in> set cs)
         \<and> select ?md5 ?ps [] (\<lambda>s. s = 2) = find (\<lambda>s. s = 2) (map snd (rotate (start_of 10 ?ps) ?ps))"
    unfolding first hash by auto
  have "last cs = 2"
  proof -
    obtain t where t: "cs = 0 # t" using cs by (cases cs) (auto simp: fail_over_def)
    show ?thesis
    proof (cases t)
      case Nil
      with sel t con show ?thesis by simp
    next
      case (Cons a t')
      with cs t con have a: "a = 1" by (simp add: fail_over_def)
      show ?thesis
      proof (cases t')
        case Nil
        with sel t Cons a con show ?thesis by simp
      next
        case (Cons b t'')
        with cs t \<open>t = a # t'\<close> a con have "b = 2" by (simp add: fail_over_def)
        with cs t \<open>t = a # t'\<close> Cons show ?thesis by (cases t'') (simp_all add: fail_over_def)
      qed
    qed
  qed
  with cs sel show ?thesis by auto
qed

section \<open>Changing the server list\<close>

definition addr_labels :: "(bytes \<Rightarrow> bytes) \<Rightarrow> bytes set \<Rightarrow> (u32 \<times> bytes) set" where
  "addr_labels md5 S = {(pt, a). a \<in> S \<and> pt \<in> set (addr_points md5 a)}"

text \<open>No point of one address is a point of another.\<close>

definition collision_free :: "(bytes \<Rightarrow> bytes) \<Rightarrow> bytes list \<Rightarrow> bool" where
  "collision_free md5 servers \<longleftrightarrow>
     (\<forall>a \<in> set servers. \<forall>b \<in> set servers.
        a \<noteq> b \<longrightarrow> set (addr_points md5 a) \<inter> set (addr_points md5 b) = {})"

lemma labels_inj: "collision_free md5 servers \<Longrightarrow> inj_on fst (addr_labels md5 (set servers))"
  by (fastforce simp: collision_free_def addr_labels_def inj_on_def)

lemma labels_mono: "S \<subseteq> T \<Longrightarrow> addr_labels md5 S \<subseteq> addr_labels md5 T"
  by (auto simp: addr_labels_def)

lemma ring_labels:
  "(\<lambda>x. (fst x, servers ! snd x)) ` set (ring_points md5 servers) = addr_labels md5 (set servers)"
proof
  show "(\<lambda>x. (fst x, servers ! snd x)) ` set (ring_points md5 servers)
      \<subseteq> addr_labels md5 (set servers)"
    by (auto simp: addr_labels_def ring_points_mem)
  show "addr_labels md5 (set servers)
      \<subseteq> (\<lambda>x. (fst x, servers ! snd x)) ` set (ring_points md5 servers)"
  proof
    fix y
    assume "y \<in> addr_labels md5 (set servers)"
    then obtain pt i where "y = (pt, servers ! i)" "i < length servers"
      "pt \<in> set (addr_points md5 (servers ! i))"
      by (auto simp: addr_labels_def in_set_conv_nth)
    then show "y \<in> (\<lambda>x. (fst x, servers ! snd x)) ` set (ring_points md5 servers)"
      by (intro image_eqI [of _ _ "(pt, i)"]) (auto simp: ring_points_mem)
  qed
qed

lemma select_owner_label:
  assumes "unstable_sort srt" and "\<And>k. length (md5 k) = 16" and "servers \<noteq> []"
  obtains x where "owner (addr_labels md5 (set servers)) (md5_u32 md5 u) (fst x, servers ! snd x)"
    and "select md5 (ring_new md5 srt servers) u (\<lambda>_. True) = Some (snd x)"
proof -
  from ring_owner [OF assms, where u = u] obtain x where
    x: "owner (set (ring_points md5 servers)) (md5_u32 md5 u) x
      \<and> (\<forall>h. h (snd x) \<longrightarrow> select md5 (ring_new md5 srt servers) u h = Some (snd x))" ..
  from x have sel: "select md5 (ring_new md5 srt servers) u (\<lambda>_. True) = Some (snd x)"
    by simp
  from owner_image [OF conjunct1 [OF x], of "\<lambda>x. (fst x, servers ! snd x)"]
  have "owner (addr_labels md5 (set servers)) (md5_u32 md5 u) (fst x, servers ! snd x)"
    by (simp add: ring_labels)
  from that [OF this sel] show ?thesis .
qed

text \<open>
  C11. Minimal disruption and independence of order: with all servers up, a unique id that one client
  routes to an address goes to the same address in every client whose servers are some of the
  first one's and include that address - in any order and however either sort breaks ties -
  provided no two addresses share a point. Adding servers only moves ids to the new ones, and
  permuting the list moves none.
\<close>

theorem select_minimal_disruption:
  assumes "unstable_sort srt1" and "unstable_sort srt2" and "\<And>k. length (md5 k) = 16"
    and "collision_free md5 big" and "set small \<subseteq> set big"
    and "select md5 (ring_new md5 srt1 big) u (\<lambda>_. True) = Some j" and "big ! j \<in> set small"
  shows "\<exists>i. select md5 (ring_new md5 srt2 small) u (\<lambda>_. True) = Some i \<and> small ! i = big ! j"
proof -
  have ne: "big \<noteq> []" "small \<noteq> []" using assms(5,7) by auto
  obtain x where x: "owner (addr_labels md5 (set big)) (md5_u32 md5 u) (fst x, big ! snd x)"
    and "select md5 (ring_new md5 srt1 big) u (\<lambda>_. True) = Some (snd x)"
    by (rule select_owner_label [OF assms(1,3) ne(1)])
  then have j: "snd x = j" using assms(6) by simp
  obtain y where y: "owner (addr_labels md5 (set small)) (md5_u32 md5 u) (fst y, small ! snd y)"
    and sel: "select md5 (ring_new md5 srt2 small) u (\<lambda>_. True) = Some (snd y)"
    by (rule select_owner_label [OF assms(2,3) ne(2)])
  have "(fst x, big ! snd x) \<in> addr_labels md5 (set small)"
    using x assms(7) j by (auto simp: owner_def addr_labels_def)
  from owner_subset [OF x labels_mono [OF assms(5)] this]
  have "owner (addr_labels md5 (set small)) (md5_u32 md5 u) (fst x, big ! snd x)" .
  moreover have "inj_on fst (addr_labels md5 (set small))"
    using labels_inj [OF assms(4)] labels_mono [OF assms(5)] inj_on_subset by blast
  ultimately have "(fst y, small ! snd y) = (fst x, big ! snd x)"
    using owner_unique [OF y] by blast
  with sel j show ?thesis by simp
qed

section \<open>Host and port\<close>

lemma port_byte_free:
  "COLON \<notin> set (dec p)" "RBRACKET \<notin> set (dec p)"
  using dec_not by blast+

text \<open>
  How an address is read, for every form the tests list: \<^verbatim>\<open>host:port\<close> and \<^verbatim>\<open>[host]:port\<close> give the
  host without brackets and the port, with 4730 for port 0; without a port, in brackets or not, and
  for a bare IPv6 address with two or more colons, the whole host is kept and the port is 4730.
\<close>

theorem split_host_port_forms:
  assumes "COLON \<notin> set h" and "\<forall>t. h \<noteq> LBRACKET # t" and "RBRACKET \<notin> set v"
  shows "split_host_port (h @ COLON # dec (unat p)) = (h, if p = 0 then DEFAULT_PORT else p)
    \<and> split_host_port (LBRACKET # v @ RBRACKET # COLON # dec (unat p))
        = (v, if p = 0 then DEFAULT_PORT else p)
    \<and> split_host_port h = (h, DEFAULT_PORT)
    \<and> split_host_port (LBRACKET # v @ [RBRACKET]) = (v, DEFAULT_PORT)
    \<and> (h \<noteq> [] \<longrightarrow> split_host_port (h @ COLON # h @ COLON # h)
        = (h @ COLON # h @ COLON # h, DEFAULT_PORT))"
proof -
  have no_bracket: "strip_prefix [LBRACKET] (h @ COLON # s) = None" for s
    using assms(2) by (cases h) auto
  have no_bracket': "strip_prefix [LBRACKET] h = None"
    using assms(2) by (cases h) auto
  have two: "rsplit_once COLON (h @ COLON # h @ COLON # h) = Some (h @ COLON # h, h)"
    using rsplit_once_hit [of COLON h "h @ COLON # h"] assms(1) by simp
  have one: "rsplit_once COLON (h @ COLON # dec (unat p)) = Some (h, dec (unat p))"
    using rsplit_once_hit port_byte_free by blast
  show ?thesis
    using assms(1,3) no_bracket no_bracket' one two
    by (simp add: split_host_port_def split_once_hit rsplit_once_None [THEN iffD2])
qed

theorem split_host_port_forms_witness:
  "split_host_port (ascii ''gearman:4731'') = (ascii ''gearman'', 4731)
   \<and> split_host_port (ascii ''[::1]:4731'') = (ascii ''::1'', 4731)
   \<and> split_host_port (ascii ''[::1]'') = (ascii ''::1'', 4730)"
proof -
  have "dec (unat (4731 :: u16)) = ascii ''4731''"
    by (simp add: dec.simps digit_byte_def)
  then show ?thesis
    using split_host_port_forms [of "ascii ''gearman''" "ascii ''::1''" 4731]
    by (simp add: DEFAULT_PORT_def)
qed

section \<open>Witnesses\<close>

text \<open>A digest for the witnesses: the position, the last byte of the key and its first byte.\<close>

definition toy_md5 :: "bytes \<Rightarrow> bytes" where
  "toy_md5 k = concat (map (\<lambda>j. [j, last k, hd k, 0]) [0, 1, 2, 3])"

lemma length_toy_md5: "length (toy_md5 k) = 16"
  by (simp add: toy_md5_def)

lemma toy_points:
  "\<lbrakk>split_host_port addr = (c # t, p); pt \<in> set (addr_points toy_md5 addr)\<rbrakk>
   \<Longrightarrow> \<exists>j l. pt = from_le_bytes j l c 0"
  by (auto simp: addr_points_def toy_md5_def ring_key_def)

definition two_servers :: "bytes list" where
  "two_servers = [ascii ''a'', ascii ''b'']"

lemma two_servers_hosts:
  "split_host_port (ascii ''a'') = ([0x61], DEFAULT_PORT)"
  "split_host_port (ascii ''b'') = ([0x62], DEFAULT_PORT)"
  using split_host_port_forms [of "ascii ''a''" "[]"] split_host_port_forms [of "ascii ''b''" "[]"]
  by simp_all

lemma two_servers_collision_free: "collision_free toy_md5 two_servers"
proof -
  have "set (addr_points toy_md5 (ascii ''a'')) \<inter> set (addr_points toy_md5 (ascii ''b'')) = {}"
    using toy_points [OF two_servers_hosts(1)] toy_points [OF two_servers_hosts(2)]
    by (fastforce simp: from_le_bytes_def from_be_bytes_inject)
  then show ?thesis
    by (auto simp: collision_free_def two_servers_def)
qed

theorem select_is_owner_witness:
  "\<exists>x. owner (set (ring_points toy_md5 two_servers)) (md5_u32 toy_md5 [0x61]) x"
proof -
  have "two_servers \<noteq> []" by (simp add: two_servers_def)
  from select_is_owner [OF stable.unstable_sort_axioms length_toy_md5 this, where u = "[0x61]"]
  obtain x where "owner (set (ring_points toy_md5 two_servers)) (md5_u32 toy_md5 [0x61]) x
    \<and> (\<forall>h. h (snd x) \<longrightarrow> select toy_md5 (ring_new toy_md5 (sort_key fst) two_servers) [0x61] h
             = Some (snd x))" ..
  then show ?thesis by (intro exI) (rule conjunct1)
qed

theorem select_minimal_disruption_witness:
  "\<exists>i j. select toy_md5 (ring_new toy_md5 (sort_key fst) two_servers) [0x61] (\<lambda>_. True) = Some j
    \<and> select toy_md5 (ring_new toy_md5 (sort_key fst) (rev two_servers)) [0x61] (\<lambda>_. True) = Some i
    \<and> rev two_servers ! i = two_servers ! j"
proof -
  have "two_servers \<noteq> []" by (simp add: two_servers_def)
  then obtain x where "owner (addr_labels toy_md5 (set two_servers)) (md5_u32 toy_md5 [0x61])
      (fst x, two_servers ! snd x)"
    and sel: "select toy_md5 (ring_new toy_md5 (sort_key fst) two_servers) [0x61] (\<lambda>_. True)
      = Some (snd x)"
    by (rule select_owner_label [OF stable.unstable_sort_axioms length_toy_md5])
  then have mem: "two_servers ! snd x \<in> set (rev two_servers)"
    by (simp add: owner_def addr_labels_def)
  have "set (rev two_servers) \<subseteq> set two_servers" by simp
  from select_minimal_disruption [OF stable.unstable_sort_axioms stable.unstable_sort_axioms
      length_toy_md5 two_servers_collision_free this sel mem] sel
  show ?thesis by blast
qed

end
