(* ===== verification/Server_Pool.thy ===== *)
theory Server_Pool
  imports Ketama
begin

text \<open>
  \<^verbatim>\<open>src/client/multi.rs\<close>: the pool of job servers and the choice of one for a submission. The atomics
  of a slot are booleans, read by one call as one snapshot; the cursor is a 64-bit \<^verbatim>\<open>usize\<close> that
  wraps. A slot's command channel is the actor with the slot's index.
\<close>

section \<open>The pool\<close>

record server_slot =
  connected :: bool
  attempted :: bool

record server_pool =
  sp_servers :: "server_slot list"
  sp_cursor :: u64
  sp_ring :: "points option"

definition pool_new :: "server_slot list \<Rightarrow> points option \<Rightarrow> server_pool" where
  "pool_new slots r = \<lparr>sp_servers = slots, sp_cursor = 0, sp_ring = r\<rparr>"

text \<open>\<^verbatim>\<open>ServerPool::get\<close>; \<^const>\<open>None\<close> is the panic on an index out of range.\<close>

definition pool_get :: "server_pool \<Rightarrow> nat \<Rightarrow> server_slot option" where
  "pool_get pool i = (if i < length (sp_servers pool) then Some (sp_servers pool ! i) else None)"

text \<open>
  \<^verbatim>\<open>is_healthy\<close> indexes the same list. It is only reached with indices of the list or of the ring,
  which \<open>pool_wf\<close> keeps within the list, so its panic does not occur.
\<close>

definition is_healthy :: "server_pool \<Rightarrow> nat \<Rightarrow> bool" where
  "is_healthy pool i = (case pool_get pool i of Some slot \<Rightarrow> connected slot | None \<Rightarrow> False)"

definition any_healthy :: "server_pool \<Rightarrow> bool" where
  "any_healthy pool = list_ex (is_healthy pool) [0..<length (sp_servers pool)]"

definition all_attempted :: "server_pool \<Rightarrow> bool" where
  "all_attempted pool = list_all attempted (sp_servers pool)"

definition next_healthy :: "server_pool \<Rightarrow> nat option \<times> server_pool" where
  "next_healthy pool =
     (let len = length (sp_servers pool) in
      if len = 0 then (None, pool)
      else
        let start = unat (sp_cursor pool) mod len;
            pool' = pool\<lparr>sp_cursor := sp_cursor pool + 1\<rparr>
        in (find (is_healthy pool) (map (\<lambda>offset. (start + offset) mod len) [0..<len]), pool'))"

definition select_for_submit ::
    "(bytes \<Rightarrow> bytes) \<Rightarrow> server_pool \<Rightarrow> bytes option \<Rightarrow> nat option \<times> server_pool" where
  "select_for_submit md5 pool unique =
     (case (sp_ring pool, unique) of
        (Some ring, Some u) \<Rightarrow>
          if u \<noteq> [] then (select md5 ring u (is_healthy pool), pool) else next_healthy pool
      | _ \<Rightarrow> next_healthy pool)"

section \<open>Health and well-formedness\<close>

text \<open>A ring, when there is one, covers exactly the servers of the pool.\<close>

definition pool_wf :: "server_pool \<Rightarrow> bool" where
  "pool_wf pool \<longleftrightarrow>
     (\<forall>ring. sp_ring pool = Some ring \<longrightarrow> snd ` set ring = {..<length (sp_servers pool)})"

lemma is_healthy_iff:
  "is_healthy pool i \<longleftrightarrow> i < length (sp_servers pool) \<and> connected (sp_servers pool ! i)"
  by (simp add: is_healthy_def pool_get_def)

lemma any_healthy_iff: "any_healthy pool \<longleftrightarrow> (\<exists>i. is_healthy pool i)"
  by (auto simp: any_healthy_def list_ex_iff is_healthy_iff)

lemma is_healthy_cursor [simp]: "is_healthy (pool\<lparr>sp_cursor := c\<rparr>) = is_healthy pool"
  by (simp add: is_healthy_def pool_get_def fun_eq_iff)

lemma round_set: "0 < len \<Longrightarrow> set (map (\<lambda>offset. (start + offset) mod len) [0..<len]) = {..<len}"
proof -
  assume "0 < len"
  have "map (\<lambda>offset. (start + offset) mod len) [0..<len]
      = map (\<lambda>offset. [0..<len] ! ((start + offset) mod length [0..<len])) [0..<length [0..<len]]"
    using \<open>0 < len\<close> by auto
  then have "map (\<lambda>offset. (start + offset) mod len) [0..<len] = rotate start [0..<len]"
    by (simp only: rotate_walk)
  then show ?thesis by (simp add: lessThan_atLeast0 del: set_map)
qed

text \<open>The servers in the order a round-robin pick tries them.\<close>

definition round :: "server_pool \<Rightarrow> nat list" where
  "round pool =
     (let len = length (sp_servers pool)
      in map (\<lambda>offset. (unat (sp_cursor pool) mod len + offset) mod len) [0..<len])"

lemma set_round: "set (round pool) = {..<length (sp_servers pool)}"
  unfolding round_def Let_def
  by (cases "sp_servers pool = []") (simp, rule round_set, simp)

lemma next_healthy_alt:
  "next_healthy pool =
     (find (is_healthy pool) (round pool),
      if sp_servers pool = [] then pool else pool\<lparr>sp_cursor := sp_cursor pool + 1\<rparr>)"
  by (simp add: next_healthy_def round_def Let_def)

lemma find_round_None: "find (is_healthy pool) (round pool) = None \<longleftrightarrow> \<not> any_healthy pool"
  unfolding find_None_set set_round by (auto simp: any_healthy_iff is_healthy_iff)

lemma select_ring_None:
  assumes "pool_wf pool" and "sp_ring pool = Some ring"
  shows "select md5 ring u (is_healthy pool) = None \<longleftrightarrow> \<not> any_healthy pool"
proof -
  have "snd ` set ring = {..<length (sp_servers pool)}"
    using assms by (simp add: pool_wf_def)
  then show ?thesis
    unfolding select_None by (auto simp: any_healthy_iff is_healthy_iff)
qed

lemma select_for_submit_healthy:
  "fst (select_for_submit md5 pool u) = Some i \<Longrightarrow> is_healthy pool i"
  by (auto simp: select_for_submit_def next_healthy_alt split: option.splits if_splits
      dest: find_Some_set select_Some)

lemma select_for_submit_None:
  "pool_wf pool \<Longrightarrow> fst (select_for_submit md5 pool u) = None \<longleftrightarrow> \<not> any_healthy pool"
  by (simp add: select_for_submit_def next_healthy_alt find_round_None select_ring_None
      split: option.split)

lemma select_for_submit_frame [simp]:
  "sp_servers (snd (select_for_submit md5 pool u)) = sp_servers pool"
  "sp_ring (snd (select_for_submit md5 pool u)) = sp_ring pool"
  "is_healthy (snd (select_for_submit md5 pool u)) = is_healthy pool"
  "any_healthy (snd (select_for_submit md5 pool u)) = any_healthy pool"
  "pool_wf (snd (select_for_submit md5 pool u)) = pool_wf pool"
  by (auto simp: select_for_submit_def next_healthy_alt any_healthy_iff pool_wf_def
      split: option.split)


section \<open>The contract of a server selection\<close>

text \<open>A sequence of submissions, each picking its server from the state the previous one left.\<close>

fun pick_run :: "('st \<Rightarrow> 'req \<Rightarrow> nat option \<times> 'st) \<Rightarrow> 'st \<Rightarrow> 'req list \<Rightarrow> nat option list" where
  "pick_run pick st [] = []"
| "pick_run pick st (r # rs) = (case pick st r of (x, st') \<Rightarrow> x # pick_run pick st' rs)"

locale server_selection =
  fixes pick :: "'st \<Rightarrow> 'req \<Rightarrow> nat option \<times> 'st"
    and up :: "'st \<Rightarrow> nat \<Rightarrow> bool"
    and ok :: "'st \<Rightarrow> bool"
  assumes pick_up: "\<lbrakk>ok st; fst (pick st r) = Some i\<rbrakk> \<Longrightarrow> up st i"
    and pick_none: "\<lbrakk>ok st; fst (pick st r) = None\<rbrakk> \<Longrightarrow> \<not> up st i"
    and pick_ok: "ok st \<Longrightarrow> ok (snd (pick st r))"
    and pick_frame: "ok st \<Longrightarrow> up (snd (pick st r)) = up st"
begin

lemma run_up: "\<lbrakk>ok st; Some i \<in> set (pick_run pick st rs)\<rbrakk> \<Longrightarrow> up st i"
proof (induction rs arbitrary: st)
  case (Cons r rs)
  obtain x st' where p: "pick st r = (x, st')" by (cases "pick st r")
  with Cons.prems(1) pick_ok [of st r] pick_frame [of st r] have st': "ok st'" "up st' = up st"
    by simp_all
  show ?case
  proof (cases "x = Some i")
    case True
    with p pick_up [OF Cons.prems(1), of r i] show ?thesis by simp
  next
    case False
    with Cons.prems(2) p Cons.IH [OF st'(1)] st'(2) show ?thesis by auto
  qed
qed simp

lemma run_total: "\<lbrakk>ok st; up st i\<rbrakk> \<Longrightarrow> None \<notin> set (pick_run pick st rs)"
proof (induction rs arbitrary: st)
  case (Cons r rs)
  obtain x st' where p: "pick st r = (x, st')" by (cases "pick st r")
  with Cons.prems pick_ok [of st r] pick_frame [of st r] have "ok st'" "up st' i" by simp_all
  moreover have "x \<noteq> None" using p pick_none [OF Cons.prems(1), of r] Cons.prems(2) by auto
  ultimately show ?case using p Cons.IH by auto
qed simp

end

interpretation pool_selection: server_selection "select_for_submit md5" is_healthy pool_wf for md5
proof unfold_locales
  fix st :: server_pool and r i
  assume "pool_wf st" "fst (select_for_submit md5 st r) = None"
  then have "\<not> any_healthy st" by (simp add: select_for_submit_None)
  then show "\<not> is_healthy st i" by (simp add: any_healthy_iff)
qed (simp_all add: select_for_submit_healthy)

section \<open>Properties of the pool\<close>

text \<open>The pool that \<^verbatim>\<open>connect\<close> builds: a ring over the same servers when selecting by unique id.\<close>

lemma pool_new_wf:
  assumes "unstable_sort srt" and "\<And>k. length (md5 k) = 16" and "length slots = length addrs"
  shows "pool_wf (pool_new slots (if by_unique then Some (ring_new md5 srt addrs) else None))"
proof -
  have "snd ` set (ring_new md5 srt addrs) = {..<length addrs}"
  proof
    show "snd ` set (ring_new md5 srt addrs) \<subseteq> {..<length addrs}"
      by (auto simp: ring_new_def unstable_sort.srt_set [OF assms(1)] ring_points_mem)
    show "{..<length addrs} \<subseteq> snd ` set (ring_new md5 srt addrs)"
    proof
      fix i
      assume "i \<in> {..<length addrs}"
      then have "addr_points md5 (addrs ! i) \<noteq> []" "i < length addrs"
        using length_addr_points [OF assms(2)] by (auto simp flip: length_greater_0_conv)
      then have "(hd (addr_points md5 (addrs ! i)), i) \<in> set (ring_new md5 srt addrs)"
        by (simp add: ring_new_def unstable_sort.srt_set [OF assms(1)] ring_points_mem)
      then show "i \<in> snd ` set (ring_new md5 srt addrs)" by force
    qed
  qed
  with assms(3) show ?thesis by (simp add: pool_wf_def pool_new_def)
qed

text \<open>
  C21. Routing of submissions, in both selection modes: in a pool built over a server list, any sequence
  of submissions - with or without unique ids - is routed to connected servers only, and as long as
  one server is connected every submission finds one.
\<close>

theorem submissions_reach_healthy_servers:
  assumes "unstable_sort srt" and "\<And>k. length (md5 k) = 16" and "length slots = length addrs"
    and "pool = (pool_new slots (if by_unique then Some (ring_new md5 srt addrs) else None))
           \<lparr>sp_cursor := c\<rparr>"
  shows "(Some i \<in> set (pick_run (select_for_submit md5) pool uniques)
            \<longrightarrow> i < length slots \<and> connected (slots ! i))
    \<and> (any_healthy pool \<longrightarrow> None \<notin> set (pick_run (select_for_submit md5) pool uniques))"
proof -
  have wf: "pool_wf pool"
    using pool_new_wf [OF assms(1-3), where by_unique = by_unique] assms(4)
    by (simp add: pool_wf_def)
  have "sp_servers pool = slots" by (simp add: assms(4) pool_new_def)
  then show ?thesis
    using pool_selection.run_up [OF wf] pool_selection.run_total [OF wf]
    by (auto simp: is_healthy_iff any_healthy_iff)
qed

theorem submissions_reach_healthy_servers_witness:
  "None \<notin> set (pick_run (select_for_submit toy_md5)
     ((pool_new [\<lparr>connected = False, attempted = True\<rparr>, \<lparr>connected = True, attempted = True\<rparr>]
       (Some (ring_new toy_md5 (sort_key fst) two_servers)))\<lparr>sp_cursor := 7\<rparr>)
     [Some [0x61], None, Some []])"
proof -
  let ?slots = "[\<lparr>connected = False, attempted = True\<rparr>, \<lparr>connected = True, attempted = True\<rparr>]"
  let ?pool = "(pool_new ?slots (Some (ring_new toy_md5 (sort_key fst) two_servers)))\<lparr>sp_cursor := 7\<rparr>"
  have len: "length ?slots = length two_servers" by (simp add: two_servers_def)
  have pool: "?pool = (pool_new ?slots
      (if True then Some (ring_new toy_md5 (sort_key fst) two_servers) else None))\<lparr>sp_cursor := 7\<rparr>"
    by simp
  have "is_healthy ?pool 1" by (simp add: is_healthy_iff pool_new_def)
  then have "any_healthy ?pool" unfolding any_healthy_iff by (rule exI)
  then show ?thesis
    by (rule conjunct2 [OF submissions_reach_healthy_servers [OF stable.unstable_sort_axioms
        length_toy_md5 len pool], rule_format])
qed

section \<open>Round robin\<close>

lemma next_healthy_all_up:
  assumes "\<And>i. i < length (sp_servers pool) \<Longrightarrow> is_healthy pool i" and "sp_servers pool \<noteq> []"
  shows "fst (next_healthy pool) = Some (unat (sp_cursor pool) mod length (sp_servers pool))"
proof -
  have "round pool \<noteq> []" using assms(2) by (simp add: round_def Let_def)
  then obtain j js where round: "round pool = j # js" by (cases "round pool") auto
  moreover have "j = round pool ! 0" by (simp add: round)
  then have "j = unat (sp_cursor pool) mod length (sp_servers pool)"
    using assms(2) by (simp add: round_def Let_def)
  ultimately show ?thesis using assms by (simp add: next_healthy_alt)
qed

text \<open>
  C29. Round robin is fair: while every server is connected and the cursor does not wrap, the \<open>k\<close>-th
  submission without a unique id goes to server \<open>(cursor + k) mod n\<close>, so any \<open>n\<close> in a row visit each
  of the \<open>n\<close> servers exactly once.
\<close>

theorem round_robin_fair:
  assumes "sp_servers pool \<noteq> []" and "list_all connected (sp_servers pool)"
    and "unat (sp_cursor pool) + k \<le> 2 ^ 64"
  shows "pick_run (select_for_submit md5) pool (replicate k None)
    = map (\<lambda>i. Some ((unat (sp_cursor pool) + i) mod length (sp_servers pool))) [0..<k]"
  using assms
proof (induction k arbitrary: pool)
  case (Suc k)
  let ?len = "length (sp_servers pool)" and ?pool' = "pool\<lparr>sp_cursor := sp_cursor pool + 1\<rparr>"
  have up: "is_healthy pool i" if "i < ?len" for i
    using that Suc.prems(2) by (simp add: is_healthy_iff list_all_length)
  have pick: "select_for_submit md5 pool None = (Some (unat (sp_cursor pool) mod ?len), ?pool')"
    using next_healthy_all_up [OF up Suc.prems(1)] Suc.prems(1)
    by (simp add: select_for_submit_def next_healthy_alt split: option.split)
  show ?case
  proof (cases "k = 0")
    case True
    then show ?thesis by (simp add: pick)
  next
    case False
    then have "unat (sp_cursor pool + 1) = unat (sp_cursor pool) + 1"
      using Suc.prems(3) by (simp add: unat_word_ariths)
    then have "pick_run (select_for_submit md5) ?pool' (replicate k None)
        = map (\<lambda>i. Some ((unat (sp_cursor pool) + Suc i) mod ?len)) [0..<k]"
      using Suc.IH [of ?pool'] Suc.prems by simp
    then show ?thesis
      by (simp add: pick map_upt_Suc del: upt_Suc)
  qed
qed simp

theorem round_robin_fair_witness:
  "pick_run (select_for_submit toy_md5)
     (pool_new (replicate 3 \<lparr>connected = True, attempted = True\<rparr>) None) (replicate 4 None)
   = [Some 0, Some 1, Some 2, Some 0]"
  using round_robin_fair [of "pool_new (replicate 3 \<lparr>connected = True, attempted = True\<rparr>) None" 4 toy_md5]
  by (simp add: pool_new_def upt_rec list_all_iff flip: numeral_2_eq_2)

text \<open>
  Which way a submission is routed: the ring is asked exactly when the client selects by unique id
  and the submission has a non-empty one, and then the round-robin cursor does not move; otherwise
  the pick is the first healthy server from the cursor on, and the cursor advances by one (modulo
  \<open>2 ^ 64\<close>) whether or not a server was found.
\<close>

theorem select_for_submit_routes:
  "select_for_submit md5 pool unique =
     (if sp_ring pool \<noteq> None \<and> unique \<noteq> None \<and> unique \<noteq> Some []
      then (select md5 (the (sp_ring pool)) (the unique) (is_healthy pool), pool)
      else (find (is_healthy pool)
              (map (\<lambda>i. (unat (sp_cursor pool) mod length (sp_servers pool) + i) mod length (sp_servers pool))
                [0..<length (sp_servers pool)]),
            if sp_servers pool = [] then pool else pool\<lparr>sp_cursor := sp_cursor pool + 1\<rparr>))"
  by (auto simp: select_for_submit_def next_healthy_alt round_def Let_def split: option.split)

end
