(* ===== verification/Tls.thy ===== *)
theory Tls
  imports Connection
begin

text \<open>
  \<^verbatim>\<open>src/net.rs\<close> and \<^verbatim>\<open>src/tls.rs\<close>: how a job server is reached. The socket, the TLS handshake and
  \<^verbatim>\<open>ServerName::try_from\<close> belong to other crates: they are arguments. The name under which the server's
  certificate is checked is computed here.
\<close>

section \<open>The server name\<close>

text \<open>
  \<^verbatim>\<open>server_name\<close>: \<open>parse_name\<close> is \<^verbatim>\<open>ServerName::try_from\<close>, \<^const>\<open>None\<close> its error.
\<close>

definition host_of :: "bytes \<Rightarrow> bytes" where
  "host_of addr =
     (let host = (case rsplit_once 0x3A addr of Some (host, _) \<Rightarrow> host | None \<Rightarrow> addr) in
      case Option.bind (strip_prefix [0x5B] host) (strip_suffix [0x5D]) of
        Some inner \<Rightarrow> inner
      | None \<Rightarrow> host)"

definition server_name :: "(bytes \<Rightarrow> 'n option) \<Rightarrow> bytes \<Rightarrow> 'n result" where
  "server_name parse_name addr =
     (case parse_name (host_of addr) of
        Some name \<Rightarrow> Inr name
      | None \<Rightarrow> Inl (InvalidServerName (host_of addr)))"

section \<open>Connecting\<close>

text \<open>A \<^verbatim>\<open>TlsConfig\<close> holds a connector that \<^verbatim>\<open>rustls\<close> makes of the caller's configuration.\<close>

record 'k tls_config =
  tc_connector :: 'k

definition tls_config_new :: "('conf \<Rightarrow> 'k) \<Rightarrow> 'conf \<Rightarrow> 'k tls_config" where
  "tls_config_new connector_from client_config = \<lparr>tc_connector = connector_from client_config\<rparr>"

datatype 'c transport = Plain | OverTls 'c

definition transport_default :: "'c transport" where
  "transport_default = Plain"

text \<open>The stream of a connection, boxed: a socket or a TLS stream.\<close>

datatype ('t, 'u) boxed_stream = TcpStream 't | TlsStream 'u

text \<open>
  \<^verbatim>\<open>net::connect\<close>: \<open>tcp addr\<close> is how opening the socket ends and \<open>handshake k name socket\<close> how the TLS
  handshake over it ends; both fail with an I/O error.
\<close>

definition net_connect :: "(bytes \<Rightarrow> io_error + 't) \<Rightarrow> (bytes \<Rightarrow> 'n option)
    \<Rightarrow> ('k \<Rightarrow> 'n \<Rightarrow> 't \<Rightarrow> io_error + 'u) \<Rightarrow> bytes \<Rightarrow> 'k tls_config transport
    \<Rightarrow> ('t, 'u) boxed_stream connection result" where
  "net_connect tcp parse_name handshake addr transport =
     (case tcp addr of
        Inl e \<Rightarrow> Inl (Io e)
      | Inr socket \<Rightarrow>
          (case transport of
             Plain \<Rightarrow> Inr (connection_from_stream (TcpStream socket))
           | OverTls config \<Rightarrow>
               (case server_name parse_name addr of
                  Inl e \<Rightarrow> Inl e
                | Inr name \<Rightarrow>
                    (case handshake (tc_connector config) name socket of
                       Inl e \<Rightarrow> Inl (Io e)
                     | Inr tls_stream \<Rightarrow> Inr (connection_from_stream (TlsStream tls_stream))))))"

section \<open>Properties\<close>

lemma host_of_port:
  "\<lbrakk>0x3A \<notin> set port; hd host \<noteq> 0x5B \<or> host = []\<rbrakk> \<Longrightarrow> host_of (host @ 0x3A # port) = host"
proof -
  assume "0x3A \<notin> set port" and "hd host \<noteq> 0x5B \<or> host = []"
  moreover from this(1) have "rsplit_once 0x3A (host @ 0x3A # port) = Some (host, port)"
    by (rule rsplit_once_hit)
  ultimately show ?thesis by (cases host) (simp_all add: host_of_def)
qed

lemma host_of_bracketed:
  "0x3A \<notin> set port \<Longrightarrow> host_of (0x5B # host @ 0x5D # 0x3A # port) = host"
proof -
  assume "0x3A \<notin> set port"
  then have "rsplit_once 0x3A ((0x5B # host @ [0x5D]) @ 0x3A # port) = Some (0x5B # host @ [0x5D], port)"
    by (rule rsplit_once_hit)
  moreover have "strip_suffix [0x5D] (host @ [0x5D]) = Some host" by (rule strip_suffix_append)
  ultimately show ?thesis by (simp add: host_of_def)
qed

text \<open>
  C34. The name a server's certificate is checked against. For every address \<open>host:port\<close> whose port has no
  colon it is the host alone, and for a bracketed IPv6 address \<open>[host]:port\<close> the address without its
  brackets, whatever colons it contains; and with TLS configured, a connection is made exactly of the
  stream that the handshake under that name and the configured connector gave: never of the bare
  socket, never of a handshake under another name.
\<close>

theorem tls_verifies_host:
  assumes "0x3A \<notin> set port" and "host = [] \<or> hd host \<noteq> 0x5B"
  shows "host_of (host @ 0x3A # port) = host
    \<and> host_of (0x5B # host @ 0x5D # 0x3A # port) = host
    \<and> (net_connect tcp parse_name handshake (host @ 0x3A # port) (OverTls (tls_config_new mk conf)) = Inr conn \<longleftrightarrow>
        (\<exists>socket name stream. tcp (host @ 0x3A # port) = Inr socket \<and> parse_name host = Some name
           \<and> handshake (mk conf) name socket = Inr stream
           \<and> conn = connection_from_stream (TlsStream stream)))"
  using host_of_port [OF assms(1), of host] host_of_bracketed [OF assms(1), of host] assms(2)
  by (auto simp: net_connect_def server_name_def tls_config_new_def split: sum.splits option.splits)

text \<open>A handshake that gives the name it verified.\<close>

theorem tls_verifies_host_witness:
  "host_of (ascii ''[::1]:4730'') = ascii ''::1''
   \<and> net_connect (\<lambda>_. Inr ()) Some (\<lambda>_ name _. Inr name) (ascii ''gearman:4730'') (OverTls (tls_config_new id ()))
     = Inr (connection_from_stream (TlsStream (ascii ''gearman'')))"
proof -
  note tls = tls_verifies_host [where tcp = "\<lambda>_. Inr ()" and parse_name = Some
      and handshake = "\<lambda>_ name _. Inr name" and mk = id and conf = "()"]
  have "host_of (0x5B # ascii ''::1'' @ 0x5D # 0x3A # ascii ''4730'') = ascii ''::1''"
    using tls [of "ascii ''4730''" "ascii ''::1''"] by simp
  moreover have "net_connect (\<lambda>_. Inr ()) Some (\<lambda>_ name _. Inr name) (ascii ''gearman'' @ 0x3A # ascii ''4730'')
      (OverTls (tls_config_new id ())) = Inr (connection_from_stream (TlsStream (ascii ''gearman'')))"
    using tls [of "ascii ''4730''" "ascii ''gearman''" "connection_from_stream (TlsStream (ascii ''gearman''))"] by simp
  ultimately show ?thesis by simp
qed

end
