(* ===== verification/Client.thy ===== *)
theory Client
  imports Server_Actor Server_Pool Tls
begin

text \<open>
  The client's interface, \<^verbatim>\<open>ClientBuilder\<close> and \<^verbatim>\<open>Client\<close> of \<^verbatim>\<open>src/client/mod.rs\<close>: connecting,
  submitting jobs and asking for their status. A method turns its arguments into a command for one
  server's task and the task's reply into its result; the reply, the identities of the oneshot and
  of the event channel it creates, and whether the task still takes commands are arguments.
\<close>

section \<open>Building and connecting\<close>

datatype server_selection = RoundRobin | ByUnique

record 'c client_builder =
  cb_servers :: "bytes list"
  cb_with_exceptions :: bool
  cb_transport :: "'c transport"
  cb_selection :: server_selection

definition builder_new :: "'c client_builder" where
  "builder_new = \<lparr>cb_servers = [], cb_with_exceptions = False, cb_transport = transport_default,
     cb_selection = RoundRobin\<rparr>"

definition builder_servers :: "'c client_builder \<Rightarrow> bytes list \<Rightarrow> 'c client_builder" where
  "builder_servers b servers = b\<lparr>cb_servers := servers\<rparr>"

definition builder_with_exceptions :: "'c client_builder \<Rightarrow> bool \<Rightarrow> 'c client_builder" where
  "builder_with_exceptions b enabled = b\<lparr>cb_with_exceptions := enabled\<rparr>"

definition builder_server_selection :: "'c client_builder \<Rightarrow> server_selection \<Rightarrow> 'c client_builder" where
  "builder_server_selection b selection = b\<lparr>cb_selection := selection\<rparr>"

definition builder_tls :: "'c client_builder \<Rightarrow> 'c \<Rightarrow> 'c client_builder" where
  "builder_tls b config = b\<lparr>cb_transport := OverTls config\<rparr>"

text \<open>The server tasks that \<^verbatim>\<open>connect\<close> spawns, by address, with what each is given.\<close>

definition client_tasks :: "'c client_builder \<Rightarrow> (bytes \<times> bool \<times> 'c transport) list" where
  "client_tasks b = map (\<lambda>addr. (addr, cb_with_exceptions b, cb_transport b)) (cb_servers b)"

text \<open>A \<^verbatim>\<open>Client\<close> is the pool it shares with its clones; \<^verbatim>\<open>Client::builder\<close> starts a builder.\<close>

type_synonym client = server_pool

definition client_start :: "'c client_builder" where
  "client_start = builder_new"

text \<open>Five seconds and 20 milliseconds.\<close>

definition CONNECT_DEADLINE :: nat where
  "CONNECT_DEADLINE = 5000"

definition POLL_INTERVAL :: nat where
  "POLL_INTERVAL = 20"

text \<open>
  One turn of the waiting loop sees the flags of the slots at its condition, the time since the
  loop began in milliseconds, and the flags again when it is past the deadline.
\<close>

record poll =
  seen :: "server_slot list"
  elapsed :: nat
  seen_late :: "server_slot list"

definition pool_of :: "server_slot list \<Rightarrow> server_pool" where
  "pool_of slots = pool_new slots None"

fun connect_wait :: "bool \<Rightarrow> poll list \<Rightarrow> unit result option" where
  "connect_wait wait_for_all [] = None"
| "connect_wait wait_for_all (p # polls) =
     (if any_healthy (pool_of (seen p)) \<and> (\<not> wait_for_all \<or> all_attempted (pool_of (seen p)))
      then Some (Inr ())
      else if CONNECT_DEADLINE \<le> elapsed p then
        (if any_healthy (pool_of (seen_late p)) then Some (Inr ()) else Some (Inl NoServersAvailable))
      else connect_wait wait_for_all polls)"

text \<open>
  \<^verbatim>\<open>ClientBuilder::connect\<close>: one slot per server, all flags unset, the ring when selecting by unique
  id, then the wait. \<^const>\<open>None\<close>: still waiting after these polls.
\<close>

definition client_connect :: "(bytes \<Rightarrow> bytes) \<Rightarrow> (points \<Rightarrow> points) \<Rightarrow> 'c client_builder \<Rightarrow> poll list
    \<Rightarrow> client result option" where
  "client_connect md5 srt b polls =
     (if cb_servers b = [] then Some (Inl NoServersAvailable)
      else
        let slots = map (\<lambda>addr. \<lparr>connected = False, attempted = False\<rparr>) (cb_servers b);
            ring = (case cb_selection b of
                RoundRobin \<Rightarrow> None
              | ByUnique \<Rightarrow> Some (ring_new md5 srt (cb_servers b)));
            pool = pool_new slots ring
        in (case connect_wait (cb_selection b = ByUnique) polls of
              None \<Rightarrow> None
            | Some (Inl e) \<Rightarrow> Some (Inl e)
            | Some (Inr _) \<Rightarrow> Some (Inr pool)))"

section \<open>Submitting\<close>

text \<open>\<^verbatim>\<open>JobEventStream\<close> is the channel's receiver; polling it polls the receiver, whose \<^verbatim>\<open>poll_recv\<close> is given.\<close>

record 'rx job_event_stream =
  es_rx :: 'rx

definition poll_next :: "('rx \<Rightarrow> 'rx \<times> 'p) \<Rightarrow> 'rx job_event_stream \<Rightarrow> 'rx job_event_stream \<times> 'p" where
  "poll_next poll_recv s = (case poll_recv (es_rx s) of (rx, p) \<Rightarrow> (s\<lparr>es_rx := rx\<rparr>, p))"

text \<open>Below, a stream is named by its channel.\<close>

record submitted_job =
  sj_handle :: job_handle
  sj_events :: "chan option"

text \<open>What a call needs from outside: its oneshot, its channel, which tasks take commands, the reply.\<close>

record 'r call =
  c_oneshot :: oneshot
  c_chan :: chan
  c_open :: "nat \<Rightarrow> bool"
  c_reply :: "'r result option"

text \<open>A oneshot dropped without a value reads as a closed connection.\<close>

definition await_reply :: "'r result option \<Rightarrow> 'r result" where
  "await_reply r = (case r of None \<Rightarrow> Inl ConnectionClosed | Some res \<Rightarrow> res)"

text \<open>\<^verbatim>\<open>Client::submit_packet\<close>: the pool, the commands sent with their server, and the result.\<close>

definition submit_packet :: "(bytes \<Rightarrow> bytes) \<Rightarrow> server_pool \<Rightarrow> bytes call \<Rightarrow> packet_type \<Rightarrow> bytes list
    \<Rightarrow> bytes option \<Rightarrow> bool \<Rightarrow> server_pool \<times> (nat \<times> client_command) list \<times> submitted_job result" where
  "submit_packet md5 pool c t as unique bg =
     (case select_for_submit md5 pool unique of
        (None, pool') \<Rightarrow> (pool', [], Inl NoServersAvailable)
      | (Some i, pool') \<Rightarrow>
          let packet = request t as;
              events = (if bg then None else Some (c_chan c))
          in if \<not> c_open c i then (pool', [], Inl ConnectionClosed)
             else (pool', [(i, CmdSubmit packet (c_oneshot c) events)],
                   (case await_reply (c_reply c) of
                      Inl e \<Rightarrow> Inl e
                    | Inr handle \<Rightarrow>
                        Inr \<lparr>sj_handle = \<lparr>jh_server_index = i, jh_handle = handle, jh_unique = unique\<rparr>,
                             sj_events = events\<rparr>)))"

definition unique_arg :: "bytes option \<Rightarrow> bytes" where
  "unique_arg unique = (case unique of Some u \<Rightarrow> u | None \<Rightarrow> [])"

definition submit :: "(bytes \<Rightarrow> bytes) \<Rightarrow> server_pool \<Rightarrow> bytes call \<Rightarrow> bytes \<Rightarrow> bytes option \<Rightarrow> bytes
    \<Rightarrow> submit_options \<Rightarrow> server_pool \<times> (nat \<times> client_command) list \<times> submitted_job result" where
  "submit md5 pool c f unique payload opts =
     submit_packet md5 pool c (submit_packet_type (so_priority opts) (so_background opts))
       [f, unique_arg unique, payload] unique (so_background opts)"

text \<open>The calls that only want the handle.\<close>

definition handle_only :: "server_pool \<times> (nat \<times> client_command) list \<times> submitted_job result
    \<Rightarrow> server_pool \<times> (nat \<times> client_command) list \<times> job_handle result" where
  "handle_only r = (case r of (pool, cmds, res) \<Rightarrow>
     (pool, cmds, case res of Inl e \<Rightarrow> Inl e | Inr s \<Rightarrow> Inr (sj_handle s)))"

definition submit_epoch :: "(bytes \<Rightarrow> bytes) \<Rightarrow> server_pool \<Rightarrow> bytes call \<Rightarrow> bytes \<Rightarrow> bytes option \<Rightarrow> u64
    \<Rightarrow> bytes \<Rightarrow> server_pool \<times> (nat \<times> client_command) list \<times> job_handle result" where
  "submit_epoch md5 pool c f unique epoch payload =
     handle_only (submit_packet md5 pool c SubmitJobEpoch
       [f, unique_arg unique, dec (unat epoch), payload] unique True)"

definition submit_reduce_job :: "(bytes \<Rightarrow> bytes) \<Rightarrow> server_pool \<Rightarrow> bytes call \<Rightarrow> bytes \<Rightarrow> bytes option
    \<Rightarrow> bytes \<Rightarrow> bytes \<Rightarrow> bool \<Rightarrow> server_pool \<times> (nat \<times> client_command) list \<times> submitted_job result" where
  "submit_reduce_job md5 pool c f unique reducer payload bg =
     submit_packet md5 pool c (if bg then SubmitReduceJobBackground else SubmitReduceJob)
       [f, unique_arg unique, reducer, [], payload] unique bg"

definition submit_bg :: "(bytes \<Rightarrow> bytes) \<Rightarrow> server_pool \<Rightarrow> bytes call \<Rightarrow> bytes \<Rightarrow> bytes
    \<Rightarrow> server_pool \<times> (nat \<times> client_command) list \<times> job_handle result" where
  "submit_bg md5 pool c f payload = handle_only (submit md5 pool c f None payload background)"

text \<open>
  The loop of \<^verbatim>\<open>submit_fg_unique\<close>, over what the event stream yields until it ends.
\<close>

fun await_job :: "bytes \<Rightarrow> job_event list \<Rightarrow> bytes result" where
  "await_job handle [] = Inl ConnectionClosed"
| "await_job handle (Complete res # _) = Inr res"
| "await_job handle (Fail # _) = Inl (JobFailed handle)"
| "await_job handle (Exception payload # _) = Inl (JobException handle payload)"
| "await_job handle (_ # stream) = await_job handle stream"

text \<open>\<open>stream c\<close> is what the channel \<open>c\<close> yields; no channel is the \<^verbatim>\<open>expect\<close> panic, \<^const>\<open>None\<close>.\<close>

definition submit_fg_unique :: "(bytes \<Rightarrow> bytes) \<Rightarrow> server_pool \<Rightarrow> bytes call \<Rightarrow> (chan \<Rightarrow> job_event list)
    \<Rightarrow> bytes \<Rightarrow> bytes option \<Rightarrow> bytes
    \<Rightarrow> server_pool \<times> (nat \<times> client_command) list \<times> bytes result option" where
  "submit_fg_unique md5 pool c stream f unique payload =
     (case submit md5 pool c f unique payload foreground of
        (pool', cmds, Inl e) \<Rightarrow> (pool', cmds, Some (Inl e))
      | (pool', cmds, Inr submitted) \<Rightarrow>
          (pool', cmds,
           (case sj_events submitted of
              None \<Rightarrow> None
            | Some ch \<Rightarrow> Some (await_job (jh_handle (sj_handle submitted)) (stream ch)))))"

definition submit_fg :: "(bytes \<Rightarrow> bytes) \<Rightarrow> server_pool \<Rightarrow> bytes call \<Rightarrow> (chan \<Rightarrow> job_event list)
    \<Rightarrow> bytes \<Rightarrow> bytes \<Rightarrow> server_pool \<times> (nat \<times> client_command) list \<times> bytes result option" where
  "submit_fg md5 pool c stream f payload = submit_fg_unique md5 pool c stream f None payload"

section \<open>Asking for the status\<close>

text \<open>\<^const>\<open>None\<close> is the panic of \<^verbatim>\<open>ServerPool::get\<close> on an index out of range.\<close>

definition get_status :: "server_pool \<Rightarrow> job_status call \<Rightarrow> job_handle
    \<Rightarrow> ((nat \<times> client_command) list \<times> job_status result) option" where
  "get_status pool c h =
     (case pool_get pool (jh_server_index h) of
        None \<Rightarrow> None
      | Some slot \<Rightarrow>
          let i = jh_server_index h; packet = request GetStatus [jh_handle h] in
          if \<not> c_open c i then Some ([], Inl ConnectionClosed)
          else Some ([(i, CmdStatus packet (c_oneshot c))], await_reply (c_reply c)))"

definition get_status_unique :: "server_pool \<Rightarrow> job_status call \<Rightarrow> job_handle
    \<Rightarrow> ((nat \<times> client_command) list \<times> job_status result) option" where
  "get_status_unique pool c h =
     (case jh_unique h of
        None \<Rightarrow> Some ([], Inl (NoUniqueId (jh_handle h)))
      | Some unique \<Rightarrow>
          (case pool_get pool (jh_server_index h) of
             None \<Rightarrow> None
           | Some slot \<Rightarrow>
               let i = jh_server_index h; packet = request GetStatusUnique [unique] in
               if \<not> c_open c i then Some ([], Inl ConnectionClosed)
               else Some ([(i, CmdStatusUnique packet (c_oneshot c))], await_reply (c_reply c))))"

section \<open>Properties of connecting\<close>

lemma connect_wait_ready:
  "connect_wait w polls = Some (Inr ()) \<Longrightarrow>
   \<exists>p \<in> set polls. any_healthy (pool_of (seen p)) \<and> (w \<longrightarrow> all_attempted (pool_of (seen p)))
     \<or> CONNECT_DEADLINE \<le> elapsed p \<and> any_healthy (pool_of (seen_late p))"
  by (induction w polls rule: connect_wait.induct) (auto split: if_splits)

lemma connect_wait_failed:
  "connect_wait w polls = Some (Inl e) \<Longrightarrow>
   e = NoServersAvailable \<and> (\<exists>p \<in> set polls. CONNECT_DEADLINE \<le> elapsed p
     \<and> \<not> any_healthy (pool_of (seen_late p)))"
  by (induction w polls rule: connect_wait.induct) (auto split: if_splits)

lemma connect_wait_returns:
  "\<exists>p \<in> set polls. CONNECT_DEADLINE \<le> elapsed p \<Longrightarrow> connect_wait w polls \<noteq> None"
  by (induction w polls rule: connect_wait.induct) auto

text \<open>
  C23. Connecting ends, and what it promises. Since each turn of the wait sleeps 20 ms, \<^verbatim>\<open>connect\<close> has
  returned after 251 turns, whatever the servers do. It fails only with \<^verbatim>\<open>NoServersAvailable\<close>, and
  only with no servers configured or none connected at the deadline; otherwise some server was seen
  connected - when selecting by unique id with every first attempt over, unless the deadline had
  passed - and the pool has a slot per server and, exactly when selecting by unique id, the ring.
\<close>

theorem connect_returns_in_time:
  assumes "\<forall>k < length polls. POLL_INTERVAL * k \<le> elapsed (polls ! k)" and "250 < length polls"
  shows "case client_connect md5 srt b polls of
      None \<Rightarrow> False
    | Some (Inl e) \<Rightarrow> e = NoServersAvailable \<and>
        (cb_servers b = [] \<or>
         (\<exists>p \<in> set polls. CONNECT_DEADLINE \<le> elapsed p \<and> \<not> any_healthy (pool_of (seen_late p))))
    | Some (Inr pool) \<Rightarrow>
        length (sp_servers pool) = length (cb_servers b)
        \<and> sp_ring pool = (if cb_selection b = ByUnique then Some (ring_new md5 srt (cb_servers b)) else None)
        \<and> (\<exists>p \<in> set polls.
              any_healthy (pool_of (seen p))
                \<and> (cb_selection b = ByUnique \<longrightarrow> all_attempted (pool_of (seen p)))
            \<or> CONNECT_DEADLINE \<le> elapsed p \<and> any_healthy (pool_of (seen_late p)))"
proof (cases "cb_servers b = []")
  case False
  have "CONNECT_DEADLINE \<le> elapsed (polls ! 250)"
    using assms(1) [rule_format, OF assms(2)] by (simp add: CONNECT_DEADLINE_def POLL_INTERVAL_def)
  with assms(2) have "\<exists>p \<in> set polls. CONNECT_DEADLINE \<le> elapsed p" by (meson nth_mem)
  from connect_wait_returns [OF this] obtain res where
    res: "connect_wait (cb_selection b = ByUnique) polls = Some res" by blast
  show ?thesis
  proof (cases res)
    case (Inl e)
    with connect_wait_failed [of "cb_selection b = ByUnique" polls e] res False show ?thesis
      by (simp add: client_connect_def Let_def)
  next
    case (Inr u)
    with connect_wait_ready [of "cb_selection b = ByUnique" polls] res False show ?thesis
      by (cases "cb_selection b") (simp_all add: client_connect_def pool_new_def Let_def)
  qed
qed (simp add: client_connect_def)

theorem connect_returns_in_time_witness:
  "client_connect toy_md5 (sort_key fst) (builder_servers builder_new [ascii ''h:4730''])
     (map (\<lambda>k. \<lparr>seen = [], elapsed = 20 * k, seen_late = []\<rparr>) [0..<251]) = Some (Inl NoServersAvailable)"
proof -
  let ?polls = "map (\<lambda>k. \<lparr>seen = [], elapsed = 20 * k, seen_late = []\<rparr>) [0..<251]"
  let ?b = "builder_servers builder_new [ascii ''h:4730'']"
  have "\<not> any_healthy (pool_of [])" by (simp add: any_healthy_def pool_of_def pool_new_def)
  with connect_returns_in_time [of ?polls ?b toy_md5 "sort_key fst"] show ?thesis
    by (auto simp: POLL_INTERVAL_def simp del: upt_conv_Cons upt.simps
        split: option.splits sum.splits)
qed

section \<open>Properties of submitting\<close>

text \<open>What a command asks the server for, whoever makes it.\<close>

lemma submit_packet_sends:
  assumes "submit_packet md5 pool c t as unique bg = (pool', cmds, res)"
  shows "cmds = [] \<and> (res = Inl NoServersAvailable \<or> res = Inl ConnectionClosed)
    \<or> (\<exists>i. cmds = [(i, CmdSubmit (request t as) (c_oneshot c) (if bg then None else Some (c_chan c)))]
         \<and> is_healthy pool i \<and> c_open c i
         \<and> (\<forall>s. res = Inr s \<longrightarrow> jh_server_index (sj_handle s) = i \<and> jh_unique (sj_handle s) = unique
              \<and> sj_events s = (if bg then None else Some (c_chan c))))"
  using assms select_for_submit_healthy [of md5 pool unique]
  by (auto simp: submit_packet_def Let_def split: option.splits if_splits sum.splits prod.splits)

lemma sent_request_received:
  assumes "length as = arg_count t" and "separable as"
    and "encoded_body_len (request t as) \<le> 0x4000000"
  shows "encode codec_new (request t as) [] = (Inr (), encoded (request t as))
    \<and> decode codec_new (encoded (request t as)) = (Inr (Some (request t as)), [])"
proof -
  have "sendable codec_new (request t as)"
    using assms by (simp add: sendable_def encodable_def)
  with decode_encoded [OF this, of "[]"] encode_encodable [of codec_new _ "[]"] show ?thesis
    by (simp add: sendable_def)
qed

lemma handle_only_cmds [simp]: "fst (snd (handle_only r)) = fst (snd r)"
  by (auto simp: handle_only_def split: prod.split)

text \<open>
  One command is sent, to a healthy server; its packet is accepted by the encoder, starts with the
  magic of a request and the type's number, and is decoded as this type with these arguments.
\<close>

definition sent_as :: "server_pool \<Rightarrow> (nat \<times> client_command) list \<Rightarrow> packet_type \<Rightarrow> u8 \<Rightarrow> bytes list \<Rightarrow> bool" where
  "sent_as pool cmds t code as \<longleftrightarrow>
     (case cmds of
        [(i, cmd)] \<Rightarrow> is_healthy pool i
          \<and> (case encode codec_new (cmd_packet cmd) [] of
               (Inr _, wire) \<Rightarrow> take 8 wire = [0, 0x52, 0x45, 0x51, 0, 0, 0, code]
                 \<and> decode codec_new wire = (Inr (Some \<lparr>magic = Req, ptype = t, args = as\<rparr>), [])
             | (Inl _, _) \<Rightarrow> False)
      | _ \<Rightarrow> False)"

lemma submit_packet_sent:
  assumes pool: "pool_wf pool" "any_healthy pool" "\<And>i. is_healthy pool i \<Longrightarrow> c_open c i"
  obtains i where "fst (snd (submit_packet md5 pool c t as unique bg))
      = [(i, CmdSubmit (request t as) (c_oneshot c) (if bg then None else Some (c_chan c)))]"
    and "is_healthy pool i"
proof -
  from select_for_submit_None [OF pool(1), of md5 unique] pool(2) obtain i
    where i: "fst (select_for_submit md5 pool unique) = Some i" by auto
  then obtain pool' where "select_for_submit md5 pool unique = (Some i, pool')"
    by (cases "select_for_submit md5 pool unique") auto
  with select_for_submit_healthy [OF i] pool(3) that show thesis
    by (simp add: submit_packet_def Let_def)
qed

lemma sent_as_submit:
  assumes "pool_wf pool" "any_healthy pool" "\<And>i. is_healthy pool i \<Longrightarrow> c_open c i"
    and "length as = arg_count t" "separable as" "encoded_body_len (request t as) \<le> 0x4000000"
    and "to_be_bytes (packet_type_code t) = [0, 0, 0, code]"
  shows "sent_as pool (fst (snd (submit_packet md5 pool c t as unique bg))) t code as"
proof -
  obtain i where "fst (snd (submit_packet md5 pool c t as unique bg))
      = [(i, CmdSubmit (request t as) (c_oneshot c) (if bg then None else Some (c_chan c)))]"
    "is_healthy pool i" by (rule submit_packet_sent [OF assms(1-3)])
  moreover have "take 8 (encoded (request t as)) = [0, 0x52, 0x45, 0x51, 0, 0, 0, code]"
    using assms(7) by (simp add: encoded_def header_bytes_def request_def REQ_MAGIC_def numeral_eq_Suc)
  ultimately show ?thesis
    using sent_request_received [OF assms(4-6)] by (simp add: sent_as_def request_def)
qed

lemma body_len_request:
  "encoded_body_len (request t as) = sum_list (map length as) + (length as - 1)"
  by (simp add: encoded_body_len_def request_def)

text \<open>
  C18. Submissions reach the server as the caller meant them. With a healthy server in the pool whose task
  takes commands, with no NUL byte in the function name, unique id (and reducer) and the body within
  the cap, every submission sends one command, to a healthy server, whose packet passes the encoder;
  and what the server decodes is, on the wire and by name, \<^verbatim>\<open>SUBMIT_JOB\<close> (7), \<^verbatim>\<open>SUBMIT_JOB_BG\<close> (18),
  \<^verbatim>\<open>SUBMIT_JOB_HIGH\<close> (21), \<^verbatim>\<open>SUBMIT_JOB_HIGH_BG\<close> (32), \<^verbatim>\<open>SUBMIT_JOB_LOW\<close> (33) or \<^verbatim>\<open>SUBMIT_JOB_LOW_BG\<close>
  (34) for the six priorities and modes, \<^verbatim>\<open>SUBMIT_JOB_EPOCH\<close> (36) for a scheduled job and
  \<^verbatim>\<open>SUBMIT_REDUCE_JOB\<close> (37) or \<^verbatim>\<open>SUBMIT_REDUCE_JOB_BACKGROUND\<close> (38) for a reduced one, with exactly the
  function, the unique id (empty when absent), the epoch in decimal or the reducer, and the payload -
  the payload whatever bytes it holds.
\<close>

theorem submissions_received_as_meant:
  assumes "pool_wf pool" and "any_healthy pool" and "\<And>i. is_healthy pool i \<Longrightarrow> c_open c i"
    and "nul_free f" and "nul_free (unique_arg unique)" and "nul_free reducer"
    and "length f + length (unique_arg unique) + length reducer + length payload + 24 \<le> 0x4000000"
  shows "list_all (\<lambda>(p, bg, t, code).
        sent_as pool (fst (snd (submit md5 pool c f unique payload \<lparr>so_priority = p, so_background = bg\<rparr>)))
          t code [f, unique_arg unique, payload])
      [(Normal, False, SubmitJob, 7), (Normal, True, SubmitJobBg, 18),
       (High, False, SubmitJobHigh, 21), (High, True, SubmitJobHighBg, 32),
       (Low, False, SubmitJobLow, 33), (Low, True, SubmitJobLowBg, 34)]
    \<and> sent_as pool (fst (snd (submit_epoch md5 pool c f unique epoch payload)))
      SubmitJobEpoch 36 [f, unique_arg unique, dec (unat epoch), payload]
    \<and> list_all (\<lambda>(bg, t, code).
        sent_as pool (fst (snd (submit_reduce_job md5 pool c f unique reducer payload bg)))
          t code [f, unique_arg unique, reducer, [], payload])
      [(False, SubmitReduceJob, 37), (True, SubmitReduceJobBackground, 38)]"
proof -
  have epoch: "length (dec (unat epoch)) \<le> 20" by (rule length_dec_u64)
  note plain = sent_as_submit [OF assms(1,2), of c, OF assms(3)]
  show ?thesis
    using assms(4-) epoch
    by (simp add: submit_def submit_epoch_def submit_reduce_job_def submit_packet_type_def plain
        body_len_request to_be_bytes_def)
qed

text \<open>A pool with one connected server, and a call to it.\<close>

definition one_server :: server_pool where
  "one_server = pool_new [\<lparr>connected = True, attempted = True\<rparr>] None"

definition some_call :: "'r result option \<Rightarrow> 'r call" where
  "some_call r = \<lparr>c_oneshot = 4, c_chan = 7, c_open = (\<lambda>_. True), c_reply = r\<rparr>"

lemma one_server_select: "select_for_submit md5 one_server u = (Some 0, one_server\<lparr>sp_cursor := 1\<rparr>)"
  by (simp add: one_server_def select_for_submit_def next_healthy_def pool_new_def is_healthy_iff)

lemma one_server_wf: "pool_wf one_server"
  by (simp add: pool_wf_def one_server_def pool_new_def)

theorem submissions_received_as_meant_witness:
  "sent_as one_server (fst (snd (submit toy_md5 one_server (some_call None) (ascii ''f'') (Some (ascii ''u''))
       [0, 1, 0] (with_priority background High)))) SubmitJobHighBg 32 [ascii ''f'', ascii ''u'', [0, 1, 0]]"
proof -
  have "any_healthy one_server" by (simp add: one_server_def pool_new_def any_healthy_def is_healthy_iff)
  moreover have "c_open (some_call None :: bytes call) i" for i by (simp add: some_call_def)
  ultimately show ?thesis
    using submissions_received_as_meant [of one_server "some_call None" "ascii ''f''" "Some (ascii ''u'')" "[]"
        "[0, 1, 0]" toy_md5] one_server_wf
    by (simp add: unique_arg_def with_priority_def background_def submit_options_default_def)
qed

text \<open>
  C22. Where a submission goes and what comes back. When no server is connected nothing is sent and the
  call fails with \<^verbatim>\<open>NoServersAvailable\<close>, and only then; otherwise at most one command is sent, to one
  connected server whose task takes it (a task that is gone makes the call fail with
  \<^verbatim>\<open>ConnectionClosed\<close>). A successful call returns the handle from the reply, tied to that server, and
  an event stream exactly for a foreground job; and asking for the job's status never panics and asks
  that same server, by unique id exactly when the job was submitted with one.
\<close>

theorem submit_and_status_route:
  assumes "pool_wf pool" and "submit_packet md5 pool c t as unique bg = (pool', cmds, res)"
  shows "(any_healthy pool \<longleftrightarrow> \<not> (cmds = [] \<and> res = Inl NoServersAvailable))
    \<and> length cmds \<le> 1 \<and> (\<forall>(i, cmd) \<in> set cmds. is_healthy pool i \<and> c_open c i)
    \<and> (cmds = [] \<and> any_healthy pool \<longrightarrow> res = Inl ConnectionClosed)
    \<and> (\<forall>s. res = Inr s \<longrightarrow>
         Some (Inr (jh_handle (sj_handle s))) = c_reply c
         \<and> (sj_events s = None \<longleftrightarrow> bg)
         \<and> map fst cmds = [jh_server_index (sj_handle s)]
         \<and> (\<exists>cmds' r. get_status pool' q (sj_handle s) = Some (cmds', r)
              \<and> set (map fst cmds') \<subseteq> {jh_server_index (sj_handle s)})
         \<and> (\<exists>cmds' r. get_status_unique pool' q (sj_handle s) = Some (cmds', r)
              \<and> set (map fst cmds') \<subseteq> {jh_server_index (sj_handle s)}
              \<and> (unique = None \<longrightarrow> r = Inl (NoUniqueId (jh_handle (sj_handle s))))))"
proof -
  obtain i where sel: "fst (select_for_submit md5 pool unique) = i" by blast
  have pool': "sp_servers pool' = sp_servers pool"
  proof -
    have "pool' = snd (select_for_submit md5 pool unique)"
      using assms(2) by (auto simp: submit_packet_def Let_def split: option.splits if_splits prod.splits)
    then show ?thesis by simp
  qed
  have some: "any_healthy pool \<longleftrightarrow> i \<noteq> None"
    using select_for_submit_None [OF assms(1), of md5 unique] sel by auto
  have healthy: "i = Some k \<Longrightarrow> is_healthy pool k" for k
    using select_for_submit_healthy [of md5 pool unique k] sel by simp
  show ?thesis
  proof (cases i)
    case None
    with assms(2) sel some show ?thesis
      by (auto simp: submit_packet_def split: option.splits prod.splits)
  next
    case (Some k)
    have slot: "pool_get pool' k \<noteq> None"
      using healthy [OF Some] pool' by (simp add: pool_get_def is_healthy_iff)
    show ?thesis
      using assms(2) sel Some some healthy [OF Some] slot
      by (auto simp: submit_packet_def Let_def await_reply_def get_status_def get_status_unique_def
          split: option.splits prod.splits if_splits sum.splits)
  qed
qed

theorem submit_and_status_route_witness:
  "\<exists>s. snd (snd (submit_packet toy_md5 one_server (some_call (Some (Inr [72]))) SubmitJob [[102], [], [1]] None False))
      = Inr s \<and> sj_events s \<noteq> None \<and> jh_handle (sj_handle s) = [72]
    \<and> (\<exists>cmds' r. get_status (one_server\<lparr>sp_cursor := 1\<rparr>) (some_call None) (sj_handle s) = Some (cmds', r)
         \<and> set (map fst cmds') \<subseteq> {0})"
proof -
  let ?cmd = "CmdSubmit (request SubmitJob [[102], [], [1]]) 4 (Some 7)"
  let ?s = "\<lparr>sj_handle = \<lparr>jh_server_index = 0, jh_handle = [72], jh_unique = None\<rparr>, sj_events = Some 7\<rparr>"
  have run: "submit_packet toy_md5 one_server (some_call (Some (Inr [72]))) SubmitJob [[102], [], [1]] None False
    = (one_server\<lparr>sp_cursor := 1\<rparr>, [(0, ?cmd)], Inr ?s)"
    by (simp add: submit_packet_def one_server_select some_call_def await_reply_def Let_def)
  from submit_and_status_route [OF one_server_wf run, of "some_call None"] run show ?thesis by auto
qed

text \<open>
  What a foreground call returns. \<^verbatim>\<open>submit_fg\<close> returns what the first terminal event says, whatever
  status, data and warning events come before it and whatever comes after: the result of a completed
  job, and an error with the job's handle for a failed or raising one; a stream that ends without a
  terminal event is a closed connection.
\<close>

theorem await_job_first_terminal:
  "await_job handle stream =
     (case find terminal_event stream of
        Some (Complete res) \<Rightarrow> Inr res
      | Some Fail \<Rightarrow> Inl (JobFailed handle)
      | Some (Exception payload) \<Rightarrow> Inl (JobException handle payload)
      | _ \<Rightarrow> Inl ConnectionClosed)"
  by (induction handle stream rule: await_job.induct) auto

end
