(* ===== verification/Whole_Client.thy ===== *)
theory Whole_Client
  imports Client
begin

text \<open>
  The client over all its servers (\<^verbatim>\<open>src/client/mod.rs\<close>, \<^verbatim>\<open>src/client/multi.rs\<close>): the flags that the
  pool reads are the ones the server tasks set, and a command sent to a task is taken by that task's
  actor loop.
\<close>

text \<open>A slot as its task has set it, and the pool that \<^verbatim>\<open>connect\<close> built over the tasks.\<close>

definition slot_of :: "server \<Rightarrow> server_slot" where
  "slot_of s = \<lparr>connected = sv_connected s, attempted = sv_attempted s\<rparr>"

definition client_pool :: "(bytes \<Rightarrow> bytes) \<Rightarrow> (points \<Rightarrow> points) \<Rightarrow> 'c client_builder \<Rightarrow> server list \<Rightarrow> u64
    \<Rightarrow> server_pool" where
  "client_pool md5 srt b tasks cursor =
     (pool_new (map slot_of tasks)
        (if cb_selection b = ByUnique then Some (ring_new md5 srt (cb_servers b)) else None))
      \<lparr>sp_cursor := cursor\<rparr>"

text \<open>Task \<open>k\<close> has run for some time and has not returned.\<close>

definition reached :: "bool \<Rightarrow> server \<Rightarrow> bool" where
  "reached we s \<longleftrightarrow> (\<exists>is out. run (server_step we) server_start is = (s, out, None))"

definition in_loop :: "server \<Rightarrow> bool" where
  "in_loop s \<longleftrightarrow> (\<exists>a. sv_phase s = Looping a)"

lemma reached_flags: "reached we s \<Longrightarrow> sv_connected s \<longleftrightarrow> in_loop s"
  using server_task.inv_run by (fastforce simp: reached_def in_loop_def server_inv_def flags_ok_def)

lemma healthy_in_loop:
  assumes "\<forall>s \<in> set tasks. reached we s"
  shows "is_healthy (client_pool md5 srt b tasks cursor) i \<longleftrightarrow> i < length tasks \<and> in_loop (tasks ! i)"
  using assms reached_flags [of we "tasks ! i"]
  by (auto simp: is_healthy_iff client_pool_def pool_new_def slot_of_def)

lemma client_pool_wf:
  assumes "unstable_sort srt" "\<And>k. length (md5 k) = 16" "length tasks = length (cb_servers b)"
  shows "pool_wf (client_pool md5 srt b tasks cursor)"
  using pool_new_wf [OF assms(1,2), of "map slot_of tasks" "cb_servers b" "cb_selection b = ByUnique"] assms(3)
  by (simp add: client_pool_def pool_wf_def)

text \<open>What the loop does with a submission on a connection that works.\<close>

lemma submission_written:
  assumes "sv_phase s = Looping a" and "sv_queue s = []" and "encodable codec_new p"
  shows "run (server_step we) s [Enqueue (CmdSubmit p oneshot evs), LoopCommand (Inr ())]
    = (s\<lparr>sv_phase := Looping (a\<lparr>pending_replies := pending_replies a @ [PendJobCreated oneshot evs]\<rparr>)\<rparr>,
       [Out (Sent p)], None)"
proof -
  have "send_error p (Inr ()) = None" using assms(3) by (simp add: send_error_None)
  moreover have "s\<lparr>sv_queue := []\<rparr> = s" using assms(2) by simp
  ultimately show ?thesis using assms(1,2) by (simp add: loop_turn_def)
qed

text \<open>
  C9. A submission goes where it can be written. Over any states that the tasks of a client reach, in
  both selection modes: if no task is inside its actor loop, nothing is sent and the call fails with
  \<^verbatim>\<open>NoServersAvailable\<close>; otherwise exactly one command is sent, to a task that is inside its actor
  loop, and on a connection that works, with nothing queued before it and a packet within the cap,
  the loop's next command turn writes the packet out and queues the call's reply behind those of the
  earlier requests.
\<close>

theorem submission_enters_loop:
  assumes "unstable_sort srt" and "\<And>k. length (md5 k) = 16"
    and "length tasks = length (cb_servers b)" and "\<forall>s \<in> set tasks. reached we s"
    and "\<forall>i < length tasks. c_open c i \<longleftrightarrow> sv_phase (tasks ! i) \<noteq> Returned"
    and "submit_packet md5 (client_pool md5 srt b tasks cursor) c t as unique bg = (pool', cmds, res)"
  shows "if \<forall>s \<in> set tasks. \<not> in_loop s then cmds = [] \<and> res = Inl NoServersAvailable
    else \<exists>i a. cmds = [(i, CmdSubmit (request t as) (c_oneshot c) (if bg then None else Some (c_chan c)))]
      \<and> i < length tasks \<and> sv_phase (tasks ! i) = Looping a
      \<and> (sv_queue (tasks ! i) = [] \<and> encodable codec_new (request t as) \<longrightarrow>
          run (server_step we) (tasks ! i) [Enqueue (snd (hd cmds)), LoopCommand (Inr ())]
          = ((tasks ! i)\<lparr>sv_phase := Looping (a\<lparr>pending_replies := pending_replies a
               @ [PendJobCreated (c_oneshot c) (if bg then None else Some (c_chan c))]\<rparr>)\<rparr>,
             [Out (Sent (request t as))], None))"
proof -
  let ?pool = "client_pool md5 srt b tasks cursor"
  have wf: "pool_wf ?pool" by (rule client_pool_wf [OF assms(1-3)])
  note healthy = healthy_in_loop [OF assms(4), of md5 srt b cursor]
  show ?thesis
  proof (cases "fst (select_for_submit md5 ?pool unique)")
    case None
    with select_for_submit_None [OF wf] have "\<forall>s \<in> set tasks. \<not> in_loop s"
      by (auto simp: any_healthy_iff healthy in_set_conv_nth)
    moreover have "cmds = []" "res = Inl NoServersAvailable"
      using assms(6) None by (auto simp: submit_packet_def split: option.splits prod.splits)
    ultimately show ?thesis by simp
  next
    case (Some i)
    from select_for_submit_healthy [OF Some] healthy have i: "i < length tasks" "in_loop (tasks ! i)" by auto
    then obtain a where a: "sv_phase (tasks ! i) = Looping a" by (auto simp: in_loop_def)
    with assms(5) i(1) have "c_open c i" by simp
    with assms(6) Some
    have cmds: "cmds = [(i, CmdSubmit (request t as) (c_oneshot c) (if bg then None else Some (c_chan c)))]"
      by (auto simp: submit_packet_def Let_def split: option.splits prod.splits)
    have "\<not> (\<forall>s \<in> set tasks. \<not> in_loop s)" using i by (meson nth_mem)
    moreover note submission_written [OF a, of "request t as" we "c_oneshot c"
        "if bg then None else Some (c_chan c)"]
    ultimately show ?thesis using cmds i(1) a by (simp only: if_False) (intro exI [of _ i] exI [of _ a], simp)
  qed
qed

text \<open>Two servers: the first one is down, the second is up.\<close>

definition up_task :: server where
  "up_task = enter_loop server_start"

definition down_task :: server where
  "down_task = end_iteration server_start"

lemma tasks_reached: "reached False up_task" "reached False down_task"
proof -
  have "run (server_step False) server_start [ConnectDone (Inr ())] = (up_task, [Connected], None)"
    by (simp add: up_task_def server_start_def)
  then show "reached False up_task" unfolding reached_def by blast
  have "run (server_step False) server_start [ConnectDone (Inl (Io (OsError 111)))]
      = (down_task, [Sleep INITIAL_BACKOFF], None)"
    by (simp add: down_task_def server_start_def)
  then show "reached False down_task" unfolding reached_def by blast
qed

theorem submission_enters_loop_witness:
  "fst (snd (submit_packet toy_md5 (client_pool toy_md5 (sort_key fst) (builder_servers builder_new two_servers :: unit client_builder)
       [down_task, up_task] 4) (some_call None) SubmitJob [[102], [], [1]] None False))
     = [(1, CmdSubmit (request SubmitJob [[102], [], [1]]) 4 (Some 7))]"
proof -
  let ?b = "builder_servers builder_new two_servers :: unit client_builder" and ?ts = "[down_task, up_task]"
  have phases: "in_loop up_task" "\<not> in_loop down_task" "sv_phase down_task \<noteq> Returned" "sv_phase up_task \<noteq> Returned"
    by (simp_all add: in_loop_def up_task_def down_task_def enter_loop_def end_iteration_def)
  obtain pool' cmds res where run: "submit_packet toy_md5 (client_pool toy_md5 (sort_key fst) ?b ?ts 4)
      (some_call None) SubmitJob [[102], [], [1]] None False = (pool', cmds, res)"
    by (cases "submit_packet toy_md5 (client_pool toy_md5 (sort_key fst) ?b ?ts 4)
      (some_call None) SubmitJob [[102], [], [1]] None False")
  have "length ?ts = length (cb_servers ?b)" by (simp add: builder_servers_def two_servers_def)
  moreover have "\<forall>s \<in> set ?ts. reached False s" using tasks_reached by simp
  moreover have "\<forall>i < length ?ts. c_open (some_call None :: bytes call) i \<longleftrightarrow> sv_phase (?ts ! i) \<noteq> Returned"
    using phases by (simp add: some_call_def nth_Cons')
  ultimately obtain i a where "cmds = [(i, CmdSubmit (request SubmitJob [[102], [], [1]]) 4 (Some 7))]"
    "i < length ?ts" "sv_phase (?ts ! i) = Looping a"
    using submission_enters_loop [OF stable.unstable_sort_axioms length_toy_md5 _ _ _ run, of False] phases
    by (auto simp: some_call_def split: if_splits)
  moreover from this(2,3) phases have "i = 1" by (auto simp: in_loop_def less_Suc_eq)
  ultimately show ?thesis using run by simp
qed

section \<open>Connecting\<close>

text \<open>A task has tried its server when it got ready or went to sleep once.\<close>

definition tried :: "server_output list \<Rightarrow> bool" where
  "tried made \<longleftrightarrow> (\<exists>x \<in> set made. is_ready x \<or> slept_for x \<noteq> None)"

lemma tried_simps [simp]:
  "\<not> tried []" "tried (xs @ ys) \<longleftrightarrow> tried xs \<or> tried ys" "\<not> tried (map Out out)" "\<not> tried (map Offered ps)" "tried [Sleep d]" "tried [Connected]"
  by (auto simp: tried_def)

lemma loop_turn_tried:
  "\<lbrakk>loop_turn s a i = (s', out, r); r = None\<rbrakk> \<Longrightarrow> sv_attempted s' \<longleftrightarrow> sv_attempted s \<or> tried out"
  by (auto simp: loop_turn_def Let_def end_iteration_def simp flip: map_append
      split: prod.splits option.splits actor_outcome.splits)

lemma step_tried:
  assumes "server_step we s i = (s', out, None)"
  shows "sv_attempted s' \<longleftrightarrow> sv_attempted s \<or> tried out"
proof (cases i)
  case (ConnectDone r)
  with assms show ?thesis
    by (cases r) (auto simp: end_iteration_def enter_loop_def split: if_splits)
next
  case (NegotiateDone net nxt)
  with assms show ?thesis
    by (auto simp: end_iteration_def enter_loop_def split: if_splits prod.splits sum.splits)
next
  case (LoopCommand net)
  with assms show ?thesis
    by (auto dest: loop_turn_tried split: phase.splits list.splits if_splits)
qed (use assms in \<open>auto dest: loop_turn_tried split: phase.splits if_splits\<close>)

interpretation attempts: event_loop "server_step we" server_start "\<lambda>past made s. sv_attempted s \<longleftrightarrow> tried made" for we
  by unfold_locales (simp_all add: server_start_def step_tried)

text \<open>The flags of the slots, as the tasks have set them after the inputs \<open>ins\<close>, one list per task.\<close>

definition ran :: "bool \<Rightarrow> server_input list \<Rightarrow> server \<Rightarrow> server_output list \<Rightarrow> bool" where
  "ran we is s out \<longleftrightarrow> run (server_step we) server_start is = (s, out, None)"

definition flags_of :: "bool \<Rightarrow> server_slot list \<Rightarrow> server_input list list \<Rightarrow> bool" where
  "flags_of we slots ins \<longleftrightarrow> list_all2 (\<lambda>slot is. \<exists>s out. ran we is s out \<and> slot = slot_of s) slots ins"

definition task_in_loop :: "bool \<Rightarrow> server_input list \<Rightarrow> bool" where
  "task_in_loop we is \<longleftrightarrow> in_loop (fst (run (server_step we) server_start is))"

definition task_tried :: "bool \<Rightarrow> server_input list \<Rightarrow> bool" where
  "task_tried we is \<longleftrightarrow> tried (fst (snd (run (server_step we) server_start is)))"

lemma ran_flags:
  "ran we is s out \<Longrightarrow> (sv_connected s \<longleftrightarrow> task_in_loop we is) \<and> (sv_attempted s \<longleftrightarrow> task_tried we is)"
  using attempts.inv_run [of we "is" s out] reached_flags [of we s]
  by (auto simp: ran_def task_in_loop_def task_tried_def reached_def)

lemma flags_of_tasks:
  "flags_of we slots ins \<Longrightarrow> map connected slots = map (task_in_loop we) ins \<and> map attempted slots = map (task_tried we) ins"
  unfolding flags_of_def by (induction rule: list_all2_induct) (auto simp: slot_of_def dest: ran_flags)

lemma flags_healthy:
  assumes "flags_of we slots ins"
  shows "any_healthy (pool_of slots) \<longleftrightarrow> (\<exists>is \<in> set ins. task_in_loop we is)"
    and "all_attempted (pool_of slots) \<longleftrightarrow> (\<forall>is \<in> set ins. task_tried we is)"
proof -
  have "any_healthy (pool_of slots) \<longleftrightarrow> True \<in> set (map connected slots)"
    by (auto simp: any_healthy_iff is_healthy_iff pool_of_def pool_new_def in_set_conv_nth) (metis nth_mem)
  then show "any_healthy (pool_of slots) \<longleftrightarrow> (\<exists>is \<in> set ins. task_in_loop we is)"
    using flags_of_tasks [OF assms] by auto
  have "all_attempted (pool_of slots) \<longleftrightarrow> False \<notin> set (map attempted slots)"
    by (auto simp: all_attempted_def pool_of_def pool_new_def list_all_iff)
  then show "all_attempted (pool_of slots) \<longleftrightarrow> (\<forall>is \<in> set ins. task_tried we is)"
    using flags_of_tasks [OF assms] by auto
qed

text \<open>
  The turn that ends the wait: a task is inside its actor loop and, when selecting by unique id, every
  task has tried its server.
\<close>

definition ready_turn :: "server_selection \<Rightarrow> bool \<Rightarrow> server_input list list \<Rightarrow> bool" where
  "ready_turn selection we tasks \<longleftrightarrow> (\<exists>is \<in> set tasks. task_in_loop we is)
     \<and> (selection = ByUnique \<longrightarrow> (\<forall>is \<in> set tasks. task_tried we is))"

lemma connect_wait_find:
  assumes "\<And>p. p \<in> set polls \<Longrightarrow> any_healthy (pool_of (seen p)) \<and> (w \<longrightarrow> all_attempted (pool_of (seen p))) \<longleftrightarrow> ready p"
    and "\<And>p. p \<in> set polls \<Longrightarrow> any_healthy (pool_of (seen_late p)) \<longleftrightarrow> late_ok p"
  shows "connect_wait w polls = (case find (\<lambda>p. ready p \<or> CONNECT_DEADLINE \<le> elapsed p) polls of
      None \<Rightarrow> None
    | Some p \<Rightarrow> Some (if ready p \<or> late_ok p then Inr () else Inl NoServersAvailable))"
  using assms
proof (induction w polls rule: connect_wait.induct)
  case (2 w p polls)
  then have "any_healthy (pool_of (seen p)) \<and> (\<not> w \<or> all_attempted (pool_of (seen p))) \<longleftrightarrow> ready p"
    "any_healthy (pool_of (seen_late p)) \<longleftrightarrow> late_ok p" by auto
  with 2 show ?case by (simp only: connect_wait.simps find.simps split: if_split) simp
qed simp

text \<open>
  C24. What \<^verbatim>\<open>connect\<close> waits for. Let the flags that each turn of its wait sees be those that the server
  tasks have set by then. \<^verbatim>\<open>connect\<close> returns at the first turn at which a task is inside its actor
  loop, connected and through its handshake - and, when selecting by unique id, every task has by
  then got ready once or failed once and gone to sleep, so that the ring is not used while a server
  may only be slow - or the deadline is over, and at no earlier turn. It then succeeds, with a slot
  for each server and exactly by unique id the ring, if that turn was such a turn or if, with the
  deadline over, a task is inside its actor loop; otherwise it fails with \<^verbatim>\<open>NoServersAvailable\<close>.
\<close>

theorem connect_waits_for_tasks:
  assumes "\<forall>p \<in> set polls. flags_of we (seen p) (ins p) \<and> flags_of we (seen_late p) (late p)"
    and "cb_servers b \<noteq> []"
  shows "client_connect md5 srt b polls =
    (case find (\<lambda>p. ready_turn (cb_selection b) we (ins p) \<or> CONNECT_DEADLINE \<le> elapsed p) polls of
       None \<Rightarrow> None
     | Some p \<Rightarrow> Some
         (if ready_turn (cb_selection b) we (ins p) \<or> (\<exists>is \<in> set (late p). task_in_loop we is)
          then Inr (pool_new (map (\<lambda>addr. \<lparr>connected = False, attempted = False\<rparr>) (cb_servers b))
            (if cb_selection b = ByUnique then Some (ring_new md5 srt (cb_servers b)) else None))
          else Inl NoServersAvailable))"
proof -
  let ?w = "cb_selection b = ByUnique"
  have "any_healthy (pool_of (seen p)) \<and> (?w \<longrightarrow> all_attempted (pool_of (seen p)))
      \<longleftrightarrow> ready_turn (cb_selection b) we (ins p)"
    "any_healthy (pool_of (seen_late p)) \<longleftrightarrow> (\<exists>is \<in> set (late p). task_in_loop we is)"
    if "p \<in> set polls" for p
    using assms(1) that flags_healthy [of we "seen p" "ins p"] flags_healthy(1) [of we "seen_late p" "late p"]
    by (simp_all add: ready_turn_def)
  from connect_wait_find [OF this, where polls = polls] assms(2) show ?thesis
    by (cases "cb_selection b") (simp_all add: client_connect_def Let_def split: option.split)
qed

text \<open>Two servers, by unique id: at the second turn one is up and the other has not been tried yet.\<close>

theorem connect_waits_for_tasks_witness:
  "\<exists>pool. client_connect toy_md5 (sort_key fst)
      (builder_server_selection (builder_servers builder_new two_servers) ByUnique :: unit client_builder)
      (map (\<lambda>k. \<lparr>seen = [slot_of (if k = 0 then server_start else up_task),
           slot_of (if k < 2 then server_start else down_task)], elapsed = 20 * k,
         seen_late = []\<rparr>) [0, 1, 2]) = Some (Inr pool)
    \<and> \<not> ready_turn ByUnique False [[ConnectDone (Inr ())], []]
    \<and> ready_turn ByUnique False [[ConnectDone (Inr ())], [ConnectDone (Inl (Io (OsError 111)))]]"
proof -
  let ?poll = "\<lambda>k :: nat. \<lparr>seen = [slot_of (if k = 0 then server_start else up_task),
           slot_of (if k < 2 then server_start else down_task)], elapsed = 20 * k, seen_late = []\<rparr>"
  let ?b = "builder_server_selection (builder_servers builder_new two_servers) ByUnique :: unit client_builder"
  let ?up = "[ConnectDone (Inr ())]" and ?down = "[ConnectDone (Inl (Io (OsError 111)))]"
  let ?ins = "\<lambda>p. [if elapsed p = 0 then [] else ?up, if elapsed p < 40 then [] else ?down]
      :: server_input list list"
  have ran: "ran False [] server_start []" "ran False ?up up_task [Connected]"
    "ran False ?down down_task [Sleep INITIAL_BACKOFF]"
    by (simp_all add: ran_def up_task_def down_task_def server_start_def)
  then have flags: "\<forall>p \<in> set (map ?poll [0, 1, 2]). flags_of False (seen p) (?ins p) \<and> flags_of False (seen_late p) []"
    by (auto simp: flags_of_def)
  have "cb_servers ?b \<noteq> []" by (simp add: builder_server_selection_def builder_servers_def two_servers_def)
  note connect = connect_waits_for_tasks [OF flags this, of toy_md5 "sort_key fst"]
  have turns: "\<not> ready_turn ByUnique False [[], []]" "\<not> ready_turn ByUnique False [?up, []]"
    "ready_turn ByUnique False [?up, ?down]"
    using ran by (auto simp: ready_turn_def task_in_loop_def task_tried_def ran_def in_loop_def
        up_task_def down_task_def enter_loop_def end_iteration_def server_start_def tried_def)
  have "cb_selection ?b = ByUnique" by (simp add: builder_server_selection_def)
  with connect turns show ?thesis by (simp add: CONNECT_DEADLINE_def)
qed

end
