(* ===== verification/Worker_Job.thy ===== *)
theory Worker_Job
  imports Connection Client_Job
begin

text \<open>
  \<^verbatim>\<open>src/worker/job.rs\<close>, \<^verbatim>\<open>src/worker/registry.rs\<close>, and the two functions of
  \<^verbatim>\<open>src/worker/mod.rs\<close> that use them on a connection: \<^verbatim>\<open>register_functions\<close> and
  \<^verbatim>\<open>dispatch_job\<close>. A handler is the user's code: a function from the job to the progress reports it
  makes and how it ends, a panic included.
\<close>

section \<open>Jobs and reports\<close>

datatype work_error = WorkFailed | WorkRaised bytes

record worker_job =
  wj_handle :: bytes
  wj_function :: bytes
  wj_unique :: "bytes option"
  wj_reducer :: "bytes option"
  wj_payload :: bytes

datatype report = ReportStatus u64 u64 | SendData bytes | Warn bytes

text \<open>The packet that a \<^verbatim>\<open>Reporter\<close> of the handle sends: \<^verbatim>\<open>report_status\<close>, \<^verbatim>\<open>send_data\<close>, \<^verbatim>\<open>warn\<close>.\<close>

fun report_packet :: "bytes \<Rightarrow> report \<Rightarrow> packet" where
  "report_packet handle (ReportStatus numerator denominator) =
     request WorkStatus [handle, dec (unat numerator), dec (unat denominator)]"
| "report_packet handle (SendData d) = request WorkData [handle, d]"
| "report_packet handle (Warn d) = request WorkWarning [handle, d]"

datatype handler_end = Returns "work_error + bytes" | Panics

type_synonym handler = "worker_job \<Rightarrow> report list \<times> handler_end"

text \<open>A \<^verbatim>\<open>Duration\<close> as its number of nanoseconds, and its whole seconds.\<close>

definition as_secs :: "nat \<Rightarrow> nat" where
  "as_secs d = d div 10 ^ 9"

record registered_handler =
  rh_handler :: handler
  rh_timeout :: "nat option"

text \<open>
  The registry, a \<^verbatim>\<open>HashMap\<close>: its entries in the order it iterates over them. Nothing depends on the
  order but the order of the registration packets.
\<close>

type_synonym registry = "(bytes \<times> registered_handler) list"

definition registry_insert :: "bytes \<Rightarrow> registered_handler \<Rightarrow> registry \<Rightarrow> registry" where
  "registry_insert f h reg = (f, h) # filter (\<lambda>(g, _). g \<noteq> f) reg"

definition registry_remove :: "bytes \<Rightarrow> registry \<Rightarrow> registry" where
  "registry_remove f reg = filter (\<lambda>(g, _). g \<noteq> f) reg"

lemma registry_insert_lookup: "map_of (registry_insert f h reg) = (map_of reg)(f \<mapsto> h)"
proof
  fix g
  show "map_of (registry_insert f h reg) g = ((map_of reg)(f \<mapsto> h)) g"
    by (induction reg) (auto simp: registry_insert_def)
qed

lemma registry_remove_lookup: "map_of (registry_remove f reg) = (map_of reg)(f := None)"
proof
  fix g
  show "map_of (registry_remove f reg) g = ((map_of reg)(f := None)) g"
    by (induction reg) (auto simp: registry_remove_def)
qed

lemma registry_remove_keys: "fst ` set (registry_remove f reg) = fst ` set reg - {f}"
  by (auto simp: registry_remove_def)

section \<open>Sending a list of packets\<close>

text \<open>
  Packets sent one after the other until one fails; \<open>net k\<close> is how writing out the \<open>k\<close>-th ends. The
  packets that were written out, and the error if one failed.
\<close>

fun send_until_error :: "(nat \<Rightarrow> unit result) \<Rightarrow> nat \<Rightarrow> packet list \<Rightarrow> packet list \<times> gearman_error option" where
  "send_until_error net k [] = ([], None)"
| "send_until_error net k (p # ps) =
     (case send_error p (net k) of
        Some e \<Rightarrow> ([], Some e)
      | None \<Rightarrow> (case send_until_error net (Suc k) ps of (out, r) \<Rightarrow> (p # out, r)))"

text \<open>Packets sent one after the other, errors ignored.\<close>

fun send_ignoring :: "(nat \<Rightarrow> unit result) \<Rightarrow> nat \<Rightarrow> packet list \<Rightarrow> packet list" where
  "send_ignoring net k [] = []"
| "send_ignoring net k (p # ps) =
     (if send_error p (net k) = None then p # send_ignoring net (Suc k) ps
      else send_ignoring net (Suc k) ps)"

lemma send_until_error_prefix:
  "send_until_error net k ps = (out, r) \<Longrightarrow>
   (r = None \<longrightarrow> out = ps) \<and> (\<exists>rest. ps = out @ rest \<and> (r \<noteq> None \<longrightarrow> rest \<noteq> []))"
proof (induction net k ps arbitrary: out r rule: send_until_error.induct)
  case (2 net k p ps)
  show ?case
  proof (cases "send_error p (net k)")
    case None
    with 2 show ?thesis by (auto split: prod.splits)
  next
    case (Some e)
    with 2(2) have "out = []" "r = Some e" by simp_all
    then show ?thesis by simp
  qed
qed simp

lemma send_ignoring_subset: "set (send_ignoring net k ps) \<subseteq> set ps"
  by (induction net k ps rule: send_ignoring.induct) auto

lemma send_ignoring_all:
  "\<forall>p \<in> set ps. encodable codec_new p \<Longrightarrow> \<forall>i. net i = Inr () \<Longrightarrow> send_ignoring net k ps = ps"
  by (induction net k ps rule: send_ignoring.induct) (auto simp: send_error_None)

section \<open>Registering functions\<close>

fun registration_packet :: "bytes \<times> registered_handler \<Rightarrow> packet" where
  "registration_packet (name, reg) =
     (case rh_timeout reg of
        Some timeout \<Rightarrow> request CanDoTimeout [name, dec (as_secs timeout)]
      | None \<Rightarrow> request CanDo [name])"

text \<open>\<^verbatim>\<open>register_functions\<close>: the packets written out and the result.\<close>

definition register_functions :: "(nat \<Rightarrow> unit result) \<Rightarrow> registry \<Rightarrow> packet list \<times> unit result" where
  "register_functions net reg =
     (case send_until_error net 0 (map registration_packet reg) of
        (out, None) \<Rightarrow> (out, Inr ())
      | (out, Some e) \<Rightarrow> (out, Inl e))"

lemma register_functions_done:
  assumes "register_functions net reg = (out, Inr u)"
  shows "out = map registration_packet reg"
proof -
  obtain out' r where send: "send_until_error net 0 (map registration_packet reg) = (out', r)"
    by (cases "send_until_error net 0 (map registration_packet reg)")
  with assms have "r = None" "out = out'" by (cases r; simp add: register_functions_def)+
  with send_until_error_prefix [OF send] show ?thesis by simp
qed

section \<open>Running a job\<close>

text \<open>The job in a \<^verbatim>\<open>JOB_ASSIGN*\<close> packet.\<close>

definition job_of :: "packet \<Rightarrow> worker_job" where
  "job_of pkt =
     (let (unique, reducer, payload) =
        (if ptype pkt = JobAssignAll then (arg_str pkt 2, arg_str pkt 3, arg_or_empty pkt 4)
         else if ptype pkt = JobAssignUniq then (arg_str pkt 2, None, arg_or_empty pkt 3)
         else (None, None, arg_or_empty pkt 2))
      in \<lparr>wj_handle = arg_str_or_empty pkt 0, wj_function = arg_str_or_empty pkt 1,
          wj_unique = unique, wj_reducer = reducer, wj_payload = payload\<rparr>)"

text \<open>The packet for how a handler's future resolved.\<close>

definition response_packet :: "bytes \<Rightarrow> work_error + bytes \<Rightarrow> packet" where
  "response_packet handle res =
     (case res of
        Inr payload \<Rightarrow> request WorkComplete [handle, payload]
      | Inl WorkFailed \<Rightarrow> request WorkFail [handle]
      | Inl (WorkRaised payload) \<Rightarrow> request WorkException [handle, payload])"

text \<open>
  \<^verbatim>\<open>dispatch_job\<close>: the packets it tries to send, and whether it returns (a panic of the handler unwinds
  it). Every send's error is ignored.
\<close>

definition dispatch_packets :: "registry \<Rightarrow> packet \<Rightarrow> packet list \<times> bool" where
  "dispatch_packets reg pkt =
     (let job = job_of pkt; handle = wj_handle job in
      case map_of reg (wj_function job) of
        None \<Rightarrow> ([request WorkFail [handle]], True)
      | Some rh \<Rightarrow>
          (case rh_handler rh job of
             (reports, Returns res) \<Rightarrow> (map (report_packet handle) reports @ [response_packet handle res], True)
           | (reports, Panics) \<Rightarrow> (map (report_packet handle) reports, False)))"

definition dispatch_job :: "(nat \<Rightarrow> unit result) \<Rightarrow> registry \<Rightarrow> packet \<Rightarrow> packet list \<times> bool" where
  "dispatch_job net reg pkt =
     (case dispatch_packets reg pkt of (packets, returns) \<Rightarrow> (send_ignoring net 0 packets, returns))"

section \<open>Properties\<close>

definition terminal_type :: "packet \<Rightarrow> bool" where
  "terminal_type p \<longleftrightarrow> ptype p \<in> {WorkComplete, WorkFail, WorkException}"

definition progress_type :: "packet \<Rightarrow> bool" where
  "progress_type p \<longleftrightarrow> ptype p \<in> {WorkStatus, WorkData, WorkWarning}"

lemma report_packet_shape:
  "\<not> terminal_type (report_packet h r)" "arg (report_packet h r) 0 = Some h"
  "progress_type (report_packet h r)"
  "length (args (report_packet h r)) = arg_count (ptype (report_packet h r))"
  by (cases r; simp add: terminal_type_def progress_type_def request_def arg_def)+

lemma response_packet_shape:
  "terminal_type (response_packet h res)" "arg (response_packet h res) 0 = Some h"
  "length (args (response_packet h res)) = arg_count (ptype (response_packet h res))"
  by (auto simp: response_packet_def terminal_type_def request_def arg_def split: sum.split work_error.split)

definition reports_then :: "bytes \<Rightarrow> packet list \<Rightarrow> packet list \<Rightarrow> bool" where
  "reports_then h reports final \<longleftrightarrow>
     (\<forall>p \<in> set (reports @ final). arg p 0 = Some h \<and> length (args p) = arg_count (ptype p))
     \<and> (\<forall>p \<in> set reports. progress_type p) \<and> (\<forall>p \<in> set final. terminal_type p)"

lemma dispatch_packets_shape:
  assumes "dispatch_packets reg pkt = (packets, returns)"
  shows "\<exists>reports final. packets = reports @ final
    \<and> reports_then (wj_handle (job_of pkt)) reports final \<and> length final = (if returns then 1 else 0)"
proof (cases "map_of reg (wj_function (job_of pkt))")
  case None
  let ?p = "request WorkFail [wj_handle (job_of pkt)]"
  have "reports_then (wj_handle (job_of pkt)) [] [?p]"
    by (simp add: reports_then_def terminal_type_def request_def arg_def)
  moreover have "packets = [] @ [?p]" "returns" using assms None by (simp_all add: dispatch_packets_def Let_def)
  ultimately show ?thesis by fastforce
next
  case (Some rh)
  obtain reports ending where run: "rh_handler rh (job_of pkt) = (reports, ending)"
    by (cases "rh_handler rh (job_of pkt)")
  let ?h = "wj_handle (job_of pkt)"
  let ?final = "case ending of Returns res \<Rightarrow> [response_packet ?h res] | Panics \<Rightarrow> []"
  have "reports_then ?h (map (report_packet ?h) reports) ?final"
    by (auto simp: reports_then_def report_packet_shape response_packet_shape split: handler_end.split)
  moreover have "packets = map (report_packet ?h) reports @ ?final" "length ?final = (if returns then 1 else 0)"
    using assms Some run by (auto simp: dispatch_packets_def Let_def split: handler_end.splits)
  ultimately show ?thesis by blast
qed

lemma send_ignoring_append:
  "send_ignoring net k (xs @ ys) = send_ignoring net k xs @ send_ignoring net (k + length xs) ys"
  by (induction net k xs rule: send_ignoring.induct) auto

text \<open>
  C19. A job is reported on under its own handle and ends at most once. Every packet that \<^verbatim>\<open>dispatch_job\<close>
  sends carries the handle of the assigned job; a terminal packet is the last one, there is at most
  one, and there is none when the handler panics; and on a connection that works, with packets within
  the cap, a handler that returns is always followed by exactly one terminal packet: the result's, or
  \<^verbatim>\<open>WORK_FAIL\<close> for a function that is not registered.
\<close>

theorem job_reported_once:
  assumes "dispatch_job net reg pkt = (out, returns)"
  shows "(\<forall>p \<in> set out. arg p 0 = Some (wj_handle (job_of pkt)))
    \<and> length (filter terminal_type out) \<le> 1
    \<and> (filter terminal_type out \<noteq> [] \<longrightarrow> returns \<and> terminal_type (last out))
    \<and> ((\<forall>i. net i = Inr ()) \<and> (\<forall>p \<in> set (fst (dispatch_packets reg pkt)). encodable codec_new p) \<and> returns \<longrightarrow>
        out \<noteq> [] \<and> last out =
          (case map_of reg (wj_function (job_of pkt)) of
             None \<Rightarrow> request WorkFail [wj_handle (job_of pkt)]
           | Some rh \<Rightarrow> (case rh_handler rh (job_of pkt) of
               (_, Returns res) \<Rightarrow> response_packet (wj_handle (job_of pkt)) res
             | (_, Panics) \<Rightarrow> last out)))"
proof -
  obtain packets where d: "dispatch_packets reg pkt = (packets, returns)"
    and out: "out = send_ignoring net 0 packets"
    using assms by (auto simp: dispatch_job_def split: prod.splits)
  from dispatch_packets_shape [OF d] obtain reports final where shape: "packets = reports @ final"
    "reports_then (wj_handle (job_of pkt)) reports final" "length final = (if returns then 1 else 0)"
    by blast
  let ?r = "send_ignoring net 0 reports" and ?f = "send_ignoring net (length reports) final"
  have out': "out = ?r @ ?f" using out shape(1) by (simp add: send_ignoring_append)
  have "filter terminal_type ?r = []"
    using send_ignoring_subset [of net 0 reports] shape(2)
    by (force simp: filter_empty_conv terminal_type_def progress_type_def reports_then_def)
  moreover have "?f = [] \<or> returns \<and> (\<exists>p. ?f = [p] \<and> terminal_type p)"
    using shape(2,3) by (cases final) (auto simp: reports_then_def split: if_splits)
  ultimately have terminals: "length (filter terminal_type out) \<le> 1
      \<and> (filter terminal_type out \<noteq> [] \<longrightarrow> returns \<and> terminal_type (last out))"
    using out' by auto
  have "out = packets" if "\<forall>i. net i = Inr ()" "\<forall>p \<in> set packets. encodable codec_new p"
    using send_ignoring_all [OF that(2,1)] out by simp
  then have "(\<forall>i. net i = Inr ()) \<and> (\<forall>p \<in> set packets. encodable codec_new p) \<and> returns \<longrightarrow>
      out \<noteq> [] \<and> last out =
        (case map_of reg (wj_function (job_of pkt)) of
             None \<Rightarrow> request WorkFail [wj_handle (job_of pkt)]
           | Some rh \<Rightarrow> (case rh_handler rh (job_of pkt) of
               (_, Returns res) \<Rightarrow> response_packet (wj_handle (job_of pkt)) res
             | (_, Panics) \<Rightarrow> last out))"
    using d by (auto simp: dispatch_packets_def Let_def split: option.splits prod.splits handler_end.splits)
  moreover have "\<forall>p \<in> set out. arg p 0 = Some (wj_handle (job_of pkt))"
    using send_ignoring_subset [of net 0 packets] shape(1,2) out unfolding reports_then_def by blast
  ultimately show ?thesis using terminals d by simp
qed

text \<open>A function that reports half-way and reverses its payload.\<close>

definition reverse_fn :: registered_handler where
  "reverse_fn = \<lparr>rh_handler = (\<lambda>job. ([ReportStatus 1 2], Returns (Inr (rev (wj_payload job))))),
     rh_timeout = None\<rparr>"

definition assigned :: packet where
  "assigned = response JobAssignUniq [[72], [102], [117], [1, 2]]"

lemma job_of_assigned:
  "job_of assigned = \<lparr>wj_handle = [72], wj_function = [102], wj_unique = Some [117], wj_reducer = None,
     wj_payload = [1, 2]\<rparr>"
  by (simp add: job_of_def assigned_def arg_str_or_empty_def arg_or_empty_def arg_str_def arg_def)

lemma dispatch_reverse:
  "dispatch_packets [([102], reverse_fn)] assigned =
     ([request WorkStatus [[72], dec 1, dec 2], request WorkComplete [[72], [2, 1]]], True)"
  by (simp add: dispatch_packets_def job_of_assigned reverse_fn_def response_packet_def Let_def)

theorem job_reported_once_witness:
  "last (fst (dispatch_job (\<lambda>_. Inr ()) [([102], reverse_fn)] assigned)) = request WorkComplete [[72], [2, 1]]"
proof -
  obtain out where run: "dispatch_job (\<lambda>_. Inr ()) [([102], reverse_fn)] assigned = (out, True)"
    by (simp add: dispatch_job_def dispatch_reverse)
  have "\<forall>p \<in> set (fst (dispatch_packets [([102], reverse_fn)] assigned)). encodable codec_new p"
    by (simp add: dispatch_reverse encodable_def request_def encoded_body_len_def dec.simps)
  with job_reported_once [OF run] run show ?thesis
    by (simp add: job_of_assigned reverse_fn_def response_packet_def)
qed

text \<open>
  The three layouts of an assignment. A \<^verbatim>\<open>JOB_ASSIGN\<close>, \<^verbatim>\<open>JOB_ASSIGN_UNIQ\<close> or
  \<^verbatim>\<open>JOB_ASSIGN_ALL\<close> packet that a server sends for a job, cut into arguments by the decoder, becomes
  the \<^verbatim>\<open>WorkerJob\<close> with exactly the job's handle, function and payload, the unique id unless the
  layout has none, and the reducer exactly in the last layout.
\<close>

theorem assignments_read_exactly:
  assumes "utf8_valid h" and "utf8_valid f" and "utf8_valid u" and "utf8_valid r"
    and "separable [h, f, u, r, payload]"
    and "length h + length f + length u + length r + length payload + 4 \<le> 0x4000000"
  shows "map (\<lambda>p. case decode codec_new (encoded p) of
        (Inr (Some q), rest) \<Rightarrow> Some (job_of q) | _ \<Rightarrow> None)
      [response JobAssign [h, f, payload],
       response JobAssignUniq [h, f, u, payload],
       response JobAssignAll [h, f, u, r, payload]]
    = map (\<lambda>(unique, reducer). Some \<lparr>wj_handle = h, wj_function = f, wj_unique = unique,
        wj_reducer = reducer, wj_payload = payload\<rparr>)
      [(None, None), (Some u, None), (Some u, Some r)]"
proof -
  have received: "decode codec_new (encoded p) = (Inr (Some p), [])" if "sendable codec_new p" for p
    using decode_encoded [OF that, of "[]"] by simp
  show ?thesis using assms
    by (simp add: received sendable_def encodable_def encoded_body_len_def response_def job_of_def
        arg_str_or_empty_def arg_or_empty_def arg_str_def arg_def nth_Cons' Let_def)
qed

theorem assignments_read_exactly_witness:
  "job_of (response JobAssign [[72], [102], [0, 9]])
   = \<lparr>wj_handle = [72], wj_function = [102], wj_unique = None, wj_reducer = None, wj_payload = [0, 9]\<rparr>"
proof -
  let ?p = "response JobAssign [[72], [102], [0, 9]]"
  have "decode codec_new (encoded ?p) = (Inr (Some ?p), [])"
    using decode_encoded [of codec_new ?p "[]"]
    by (simp add: sendable_def encodable_def encoded_body_len_def response_def)
  with assignments_read_exactly [of "[72]" "[102]" "[117]" "[]" "[0, 9]"] show ?thesis by simp
qed

text \<open>
  C36. A result over the cap is lost without a word. When a handler returns a result that the encoder
  refuses, \<^verbatim>\<open>dispatch_job\<close> ignores the error and returns as if the job were done: no terminal packet is
  sent, on a connection that works and that the grab loop goes on using, so the server keeps the job
  as running and a waiting client keeps waiting.
\<close>

theorem oversized_result_unreported:
  assumes "map_of reg (wj_function (job_of pkt)) = Some rh"
    and "rh_handler rh (job_of pkt) = (reports, Returns (Inr res))"
    and "length res > 0x4000000"
  shows "filter terminal_type (fst (dispatch_job net reg pkt)) = [] \<and> snd (dispatch_job net reg pkt)"
proof -
  let ?h = "wj_handle (job_of pkt)"
  have d: "dispatch_packets reg pkt = (map (report_packet ?h) reports @ [response_packet ?h (Inr res)], True)"
    using assms(1,2) by (simp add: dispatch_packets_def Let_def)
  have "send_error (response_packet ?h (Inr res)) e \<noteq> None" for e
    using assms(3) by (simp add: send_error_None encodable_def response_packet_def request_def
        encoded_body_len_def)
  then have "fst (dispatch_job net reg pkt) = send_ignoring net 0 (map (report_packet ?h) reports)"
    by (simp add: dispatch_job_def d send_ignoring_append)
  moreover have "filter terminal_type (send_ignoring net 0 (map (report_packet ?h) reports)) = []"
    using send_ignoring_subset [of net 0 "map (report_packet ?h) reports"] report_packet_shape(1)
    by (auto simp: filter_empty_conv)
  ultimately show ?thesis using d by (simp add: dispatch_job_def)
qed

theorem oversized_result_unreported_witness:
  "filter terminal_type (fst (dispatch_job (\<lambda>_. Inr ())
     [([102], \<lparr>rh_handler = (\<lambda>job. ([], Returns (Inr (replicate 0x4000001 0)))), rh_timeout = None\<rparr>)]
     assigned)) = []"
  using oversized_result_unreported [of
      "[([102], \<lparr>rh_handler = (\<lambda>job. ([], Returns (Inr (replicate 0x4000001 0)))), rh_timeout = None\<rparr>)]"
      assigned _ "[]" "replicate 0x4000001 0" "\<lambda>_. Inr ()"]
  by (simp add: job_of_assigned del: replicate.simps)

text \<open>
  What a worker advertises. Over a connection that works, \<^verbatim>\<open>register_functions\<close> sends one packet per
  registered function, \<^verbatim>\<open>CAN_DO_TIMEOUT\<close> with the whole seconds of its timeout when it has one and
  \<^verbatim>\<open>CAN_DO\<close> otherwise - so a timeout below one second is advertised as 0; otherwise it stops at the
  first packet that fails and returns its error, with the packets before it sent.
\<close>

theorem registrations_sent:
  "case register_functions net reg of
     (out, Inr _) \<Rightarrow> out = map registration_packet reg
   | (out, Inl e) \<Rightarrow> (\<exists>p rest. map registration_packet reg = out @ p # rest
        \<and> send_error p (net (length out)) = Some e)"
proof -
  have "send_until_error net k ps = (out, Some e) \<Longrightarrow>
      \<exists>p rest. ps = out @ p # rest \<and> send_error p (net (k + length out)) = Some e" for k ps out e
  proof (induction net k ps arbitrary: out rule: send_until_error.induct)
    case (2 net k p ps)
    show ?case
    proof (cases "send_error p (net k)")
      case None
      with 2(2) obtain out' where "out = p # out'" "send_until_error net (Suc k) ps = (out', Some e)"
        by (auto split: prod.splits)
      with 2(1) [OF None this(2)] show ?thesis by auto
    next
      case (Some e')
      with 2(2) show ?thesis by auto
    qed
  qed simp
  from this [of 0] send_until_error_prefix [of net 0 "map registration_packet reg"] show ?thesis
    by (auto simp: register_functions_def split: prod.splits option.splits)
qed

lemma subsecond_timeout:
  assumes "rh_timeout h = Some d" and "0 < d" and "d < 10 ^ 9"
  shows "registration_packet (f, h) = request CanDoTimeout [f, [0x30]]"
  using assms by (simp add: as_secs_def dec.simps digit_byte_def)

end
