(* ===== verification/Worker.thy ===== *)
theory Worker
  imports Worker_Job Reconnect Tls
begin

text \<open>
  The worker of \<^verbatim>\<open>src/worker/mod.rs\<close>: the builder, the life of one grab-loop connection
  (\<^verbatim>\<open>run_worker_connection\<close>, \<^verbatim>\<open>interruptible_backoff\<close>, \<^verbatim>\<open>run_grab_loop\<close>,
  \<^verbatim>\<open>flush_unregistrations\<close>), and what \<^verbatim>\<open>Worker::unregister\<close> and \<^verbatim>\<open>Worker::shutdown\<close> do to it.
  The task stops at its awaits and where it reads shared state; between two such points it takes one
  step, so that the calls of the other tasks can fall anywhere in between.
\<close>

section \<open>Building\<close>

datatype grab_mode = Uniq | PlainGrab | AllGrab

record 'c worker_builder =
  wb_servers :: "bytes list"
  wb_concurrency :: nat
  wb_grab_mode :: grab_mode
  wb_registry :: registry
  wb_transport :: "'c transport"

text \<open>\<open>parallelism\<close> is \<^verbatim>\<open>available_parallelism\<close>, \<^const>\<open>None\<close> its error.\<close>

definition worker_builder_new :: "nat option \<Rightarrow> 'c worker_builder" where
  "worker_builder_new parallelism =
     \<lparr>wb_servers = [], wb_concurrency = (case parallelism of Some n \<Rightarrow> n | None \<Rightarrow> 1),
      wb_grab_mode = Uniq, wb_registry = [], wb_transport = transport_default\<rparr>"

definition worker_servers :: "'c worker_builder \<Rightarrow> bytes list \<Rightarrow> 'c worker_builder" where
  "worker_servers b servers = b\<lparr>wb_servers := servers\<rparr>"

definition worker_concurrency :: "'c worker_builder \<Rightarrow> nat \<Rightarrow> 'c worker_builder" where
  "worker_concurrency b n = b\<lparr>wb_concurrency := max n 1\<rparr>"

definition worker_grab_mode :: "'c worker_builder \<Rightarrow> grab_mode \<Rightarrow> 'c worker_builder" where
  "worker_grab_mode b mode = b\<lparr>wb_grab_mode := mode\<rparr>"

definition worker_tls :: "'c worker_builder \<Rightarrow> 'c \<Rightarrow> 'c worker_builder" where
  "worker_tls b config = b\<lparr>wb_transport := OverTls config\<rparr>"

definition register :: "'c worker_builder \<Rightarrow> bytes \<Rightarrow> handler \<Rightarrow> 'c worker_builder" where
  "register b f h =
     b\<lparr>wb_registry := registry_insert f \<lparr>rh_handler = h, rh_timeout = None\<rparr> (wb_registry b)\<rparr>"

definition register_with_timeout :: "'c worker_builder \<Rightarrow> bytes \<Rightarrow> handler \<Rightarrow> nat \<Rightarrow> 'c worker_builder" where
  "register_with_timeout b f h timeout =
     b\<lparr>wb_registry := registry_insert f \<lparr>rh_handler = h, rh_timeout = Some timeout\<rparr> (wb_registry b)\<rparr>"

text \<open>\<^verbatim>\<open>WorkerBuilder::run\<close>: the address of each task it spawns.\<close>

definition worker_tasks :: "'c worker_builder \<Rightarrow> bytes list" where
  "worker_tasks b = concat (map (replicate (wb_concurrency b)) (wb_servers b))"

section \<open>A grab-loop connection\<close>

datatype loop_outcome = LoopLost | LoopShutdown

text \<open>
  Where the task is: before the shutdown check of its loop, connecting, registering, about to discard
  old notifications, at the top of the grab loop, draining notifications, about to grab, awaiting the
  reply, holding an assignment, sending \<^verbatim>\<open>PRE_SLEEP\<close>, asleep, in the backoff, returned, or unwound by a
  panic.
\<close>

datatype worker_phase =
    WStart
  | WConnecting
  | WRegistering
  | WDiscarding
  | WTop
  | WFlushing
  | WGrabbing
  | WAwaiting
  | WAssigned packet
  | WPreSleep
  | WAsleep
  | WBackoff
  | WReturned
  | WPanicked

text \<open>
  The registry and the shutdown flag are shared with the \<^verbatim>\<open>Worker\<close>; \<open>wc_notes\<close> are the function names
  in this connection's receiver of the \<^verbatim>\<open>unregister\<close> broadcast, oldest first, and \<open>wc_lagged\<close> says that
  older ones were dropped because it was full, which the next \<^verbatim>\<open>try_recv\<close> reports.
\<close>

record worker_conn =
  wc_phase :: worker_phase
  wc_backoff :: nat
  wc_shutdown :: bool
  wc_registry :: registry
  wc_notes :: "bytes list"
  wc_lagged :: bool

text \<open>\<open>NoteLost f\<close>: the broadcast channel dropped the notification of \<open>f\<close> for this receiver.\<close>

datatype worker_output = WSent packet | Ready | WSleep nat | NoteLost bytes

text \<open>\<^verbatim>\<open>broadcast::channel(16)\<close>: the notifications a receiver can be behind.\<close>

definition NOTE_CAPACITY :: nat where
  "NOTE_CAPACITY = 16"

text \<open>
  \<open>Unregister\<close> and \<open>Shutdown\<close> are the \<^verbatim>\<open>Worker\<close>'s methods. \<open>Discards\<close> is the discarding loop; the
  others complete an await or a step of the task.
\<close>

datatype worker_input =
    Unregister bytes
  | Shutdown
  | Begin
  | Connects "unit result"
  | Registers "nat \<Rightarrow> unit result"
  | Discards
  | AtTop
  | Flush "unit result"
  | Grab "unit result"
  | Response "packet result option"
  | Dispatch "nat \<Rightarrow> unit result"
  | PreSleeps "unit result"
  | Wakes "packet result option"
  | ShutdownFires
  | BackoffEnds

definition grab_type :: "grab_mode \<Rightarrow> packet_type" where
  "grab_type mode = (case mode of Uniq \<Rightarrow> GrabJobUniq | PlainGrab \<Rightarrow> GrabJob | AllGrab \<Rightarrow> GrabJobAll)"

definition worker_start :: "registry \<Rightarrow> worker_conn" where
  "worker_start reg = \<lparr>wc_phase = WStart, wc_backoff = INITIAL_BACKOFF, wc_shutdown = False,
     wc_registry = reg, wc_notes = [], wc_lagged = False\<rparr>"

type_synonym worker_step_result = "worker_conn \<times> worker_output list \<times> unit option"

definition goto :: "worker_conn \<Rightarrow> worker_phase \<Rightarrow> worker_step_result" where
  "goto w ph = (w\<lparr>wc_phase := ph\<rparr>, [], None)"

definition back_off :: "worker_conn \<Rightarrow> worker_step_result" where
  "back_off w = (w\<lparr>wc_phase := WBackoff\<rparr>, [WSleep (wc_backoff w)], None)"

text \<open>How \<^verbatim>\<open>run_worker_connection\<close> goes on from the end of the grab loop.\<close>

definition end_loop :: "worker_conn \<Rightarrow> loop_outcome \<Rightarrow> worker_step_result" where
  "end_loop w outcome =
     (case outcome of
        LoopShutdown \<Rightarrow> (w\<lparr>wc_phase := WReturned\<rparr>, [], Some ())
      | LoopLost \<Rightarrow> back_off w)"

text \<open>Sending one packet in the grab loop, and where it goes on.\<close>

definition send_then :: "worker_conn \<Rightarrow> packet \<Rightarrow> unit result \<Rightarrow> worker_conn \<Rightarrow> worker_step_result" where
  "send_then w p net w' =
     (case send_error p net of
        Some _ \<Rightarrow> end_loop w LoopLost
      | None \<Rightarrow> (w', [WSent p], None))"

text \<open>
  The branches of \<^verbatim>\<open>run_worker_connection\<close> up to the grab loop, and its backoff. The loop that discards
  old notifications ends at the first error of \<^verbatim>\<open>try_recv\<close>: at once when the receiver has lagged.
\<close>

fun connect_step :: "worker_conn \<Rightarrow> worker_input \<Rightarrow> worker_step_result option" where
  "connect_step w Begin =
     (if wc_phase w = WStart then
        Some (if wc_shutdown w then (w\<lparr>wc_phase := WReturned\<rparr>, [], Some ()) else goto w WConnecting)
      else None)"
| "connect_step w (Connects r) =
     (if wc_phase w = WConnecting then
        Some (case r of Inr _ \<Rightarrow> goto w WRegistering | Inl _ \<Rightarrow> back_off w)
      else None)"
| "connect_step w (Registers net) =
     (if wc_phase w = WRegistering then
        Some (case register_functions net (wc_registry w) of
            (out, Inl e) \<Rightarrow> (w\<lparr>wc_phase := WBackoff\<rparr>, map WSent out @ [WSleep (wc_backoff w)], None)
          | (out, Inr _) \<Rightarrow>
              (w\<lparr>wc_phase := WDiscarding, wc_backoff := INITIAL_BACKOFF\<rparr>, map WSent out @ [Ready], None))
      else None)"
| "connect_step w Discards =
     (if wc_phase w = WDiscarding then
        Some (if wc_lagged w then goto (w\<lparr>wc_lagged := False\<rparr>) WTop
              else goto (w\<lparr>wc_notes := []\<rparr>) WTop)
      else None)"
| "connect_step w BackoffEnds =
     (if wc_phase w = WBackoff then
        Some (w\<lparr>wc_phase := WStart, wc_backoff := next_backoff (wc_backoff w)\<rparr>, [], None)
      else None)"
| "connect_step w ShutdownFires =
     (if wc_phase w = WBackoff \<and> wc_shutdown w then Some (w\<lparr>wc_phase := WReturned\<rparr>, [], Some ())
      else None)"
| "connect_step w _ = None"

text \<open>
  \<^verbatim>\<open>run_grab_loop\<close> with \<^verbatim>\<open>flush_unregistrations\<close>.
\<close>

fun grab_step :: "grab_mode \<Rightarrow> worker_conn \<Rightarrow> worker_input \<Rightarrow> worker_step_result option" where
  "grab_step mode w AtTop =
     (if wc_phase w = WTop then
        Some (if wc_shutdown w then end_loop w LoopShutdown else goto w WFlushing)
      else None)"
| "grab_step mode w (Flush net) =
     (if wc_phase w = WFlushing then
        Some (if wc_lagged w then goto (w\<lparr>wc_lagged := False\<rparr>) WFlushing
              else case wc_notes w of
                [] \<Rightarrow> goto w WGrabbing
              | f # rest \<Rightarrow>
                  send_then (w\<lparr>wc_notes := rest\<rparr>) (request CantDo [f]) net (w\<lparr>wc_notes := rest\<rparr>))
      else None)"
| "grab_step mode w (Grab net) =
     (if wc_phase w = WGrabbing then
        Some (send_then w (request (grab_type mode) []) net (w\<lparr>wc_phase := WAwaiting\<rparr>))
      else None)"
| "grab_step mode w (Response nxt) =
     (if wc_phase w = WAwaiting then
        Some (case conn_recv nxt of
            Inr (Some pkt) \<Rightarrow>
              if ptype pkt \<in> {JobAssign, JobAssignUniq, JobAssignAll} then goto w (WAssigned pkt)
              else if ptype pkt = NoJob then goto w WPreSleep
              else goto w WTop
          | Inr None \<Rightarrow> end_loop w LoopLost
          | Inl _ \<Rightarrow> end_loop w LoopLost)
      else None)"
| "grab_step mode w (Dispatch net) =
     (case wc_phase w of
        WAssigned pkt \<Rightarrow>
          Some (case dispatch_job net (wc_registry w) pkt of
              (out, True) \<Rightarrow> (w\<lparr>wc_phase := WTop\<rparr>, map WSent out, None)
            | (out, False) \<Rightarrow> (w\<lparr>wc_phase := WPanicked\<rparr>, map WSent out, Some ()))
      | _ \<Rightarrow> None)"
| "grab_step mode w (PreSleeps net) =
     (if wc_phase w = WPreSleep then
        Some (send_then w (request PreSleep []) net (w\<lparr>wc_phase := WAsleep\<rparr>))
      else None)"
| "grab_step mode w (Wakes nxt) =
     (if wc_phase w = WAsleep then
        Some (case conn_recv nxt of
            Inr (Some pkt) \<Rightarrow> if ptype pkt = Noop then goto w WTop else goto w WTop
          | Inr None \<Rightarrow> end_loop w LoopLost
          | Inl _ \<Rightarrow> end_loop w LoopLost)
      else None)"
| "grab_step mode w ShutdownFires =
     (if wc_phase w = WAsleep \<and> wc_shutdown w then Some (end_loop w LoopShutdown) else None)"
| "grab_step mode w _ = None"

text \<open>The task's own step on an input: \<^const>\<open>None\<close> when the input does not belong to its phase.\<close>

definition own_step :: "grab_mode \<Rightarrow> worker_conn \<Rightarrow> worker_input \<Rightarrow> worker_step_result option" where
  "own_step mode w i =
     (case connect_step w i of Some res \<Rightarrow> Some res | None \<Rightarrow> grab_step mode w i)"

text \<open>
  A broadcast as one receiver sees it: it keeps the newest \<^const>\<open>NOTE_CAPACITY\<close> notifications.
\<close>

definition full :: "worker_conn \<Rightarrow> bool" where
  "full w \<longleftrightarrow> NOTE_CAPACITY \<le> length (wc_notes w)"

definition notify :: "worker_conn \<Rightarrow> bytes \<Rightarrow> worker_conn" where
  "notify w f =
     (if full w then w\<lparr>wc_notes := tl (wc_notes w) @ [f], wc_lagged := True\<rparr>
      else w\<lparr>wc_notes := wc_notes w @ [f]\<rparr>)"

text \<open>
  \<^verbatim>\<open>Worker::unregister\<close>: removes the function and notifies every receiver. \<^verbatim>\<open>Worker::shutdown\<close> sets the
  flag. An input that does not belong to the phase changes nothing.
\<close>

definition unregister :: "worker_conn \<Rightarrow> bytes \<Rightarrow> worker_conn" where
  "unregister w f = notify (w\<lparr>wc_registry := registry_remove f (wc_registry w)\<rparr>) f"

lemma unregister_frame [simp]:
  "wc_phase (unregister w f) = wc_phase w" "wc_backoff (unregister w f) = wc_backoff w"
  "wc_shutdown (unregister w f) = wc_shutdown w"
  "wc_registry (unregister w f) = registry_remove f (wc_registry w)"
  by (simp_all add: unregister_def notify_def)

lemma few_notes: "length (wc_notes w) < 16 \<Longrightarrow> \<not> full w"
  by (simp add: full_def NOTE_CAPACITY_def)

lemma unregister_few:
  "length (wc_notes w) < 16 \<Longrightarrow>
     unregister w f = w\<lparr>wc_registry := registry_remove f (wc_registry w), wc_notes := wc_notes w @ [f]\<rparr>"
  by (simp add: unregister_def notify_def few_notes)

definition worker_step :: "grab_mode \<Rightarrow> worker_conn \<Rightarrow> worker_input \<Rightarrow> worker_step_result" where
  "worker_step mode w i =
     (case i of
        Unregister f \<Rightarrow> (unregister w f, if full w then [NoteLost (hd (wc_notes w))] else [], None)
      | Shutdown \<Rightarrow> (w\<lparr>wc_shutdown := True\<rparr>, [], None)
      | _ \<Rightarrow>
          (case own_step mode w i of Some res \<Rightarrow> res | None \<Rightarrow> (w, [], None)))"

lemma worker_step_own: "own_step mode w i = Some res \<Longrightarrow> worker_step mode w i = res"
  by (cases i) (simp_all add: worker_step_def, simp_all add: own_step_def)

lemma worker_step_cases:
  obtains (other) "\<exists>f. i = Unregister f \<or> i = Shutdown"
  | (connect) res where "connect_step w i = Some res" "worker_step mode w i = res"
  | (grab) res where "grab_step mode w i = Some res" "worker_step mode w i = res"
  | (skip) "worker_step mode w i = (w, [], None)" "connect_step w i = None" "grab_step mode w i = None"
proof (cases "own_step mode w i")
  case None
  then have no: "connect_step w i = None" "grab_step mode w i = None"
    by (auto simp: own_step_def split: option.splits)
  have "(\<exists>f. i = Unregister f \<or> i = Shutdown) \<or> worker_step mode w i = (w, [], None)"
    using None by (cases i) (simp_all add: worker_step_def)
  with no other skip show thesis by blast
next
  case (Some res)
  with worker_step_own [OF Some] connect grab show thesis
    by (auto simp: own_step_def split: option.splits)
qed

lemmas step_defs = worker_step_def own_step_def goto_def back_off_def end_loop_def send_then_def

section \<open>What the server believes\<close>

text \<open>
  The functions a server thinks this connection can do, from the packets it got: \<^verbatim>\<open>CAN_DO\<close> and
  \<^verbatim>\<open>CAN_DO_TIMEOUT\<close> add one, \<^verbatim>\<open>CANT_DO\<close> removes one, and losing the connection removes all.
\<close>

fun believes :: "bytes set \<Rightarrow> worker_output list \<Rightarrow> bytes set" where
  "believes fs [] = fs"
| "believes fs (WSent p # out) =
     believes (if ptype p \<in> {CanDo, CanDoTimeout} then insert (arg_or_empty p 0) fs
               else if ptype p = CantDo then fs - {arg_or_empty p 0}
               else fs) out"
| "believes fs (WSleep _ # out) = believes {} out"
| "believes fs (Ready # out) = believes fs out"
| "believes fs (NoteLost _ # out) = believes fs out"

lemma believes_append [simp]: "believes fs (xs @ ys) = believes (believes fs xs) ys"
  by (induction fs xs rule: believes.induct) auto

definition keys :: "worker_conn \<Rightarrow> bytes set" where
  "keys w = fst ` set (wc_registry w)"

lemma keys_frame [simp]:
  "keys (w\<lparr>wc_phase := ph\<rparr>) = keys w" "keys (w\<lparr>wc_backoff := d\<rparr>) = keys w"
  "keys (w\<lparr>wc_notes := ns\<rparr>) = keys w" "keys (w\<lparr>wc_shutdown := b\<rparr>) = keys w"
  "keys (w\<lparr>wc_lagged := b\<rparr>) = keys w"
  by (simp_all add: keys_def)

definition looping :: "worker_phase \<Rightarrow> bool" where
  "looping ph \<longleftrightarrow> ph \<in> {WTop, WFlushing, WGrabbing, WAwaiting, WPreSleep, WAsleep} \<or> (\<exists>p. ph = WAssigned p)"

text \<open>
  What the discarding loop may take for old: the functions unregistered between the last registration
  and the discarding loop after it. What the broadcast channel dropped since the last registration.
\<close>

definition miss :: "worker_conn \<Rightarrow> worker_input \<Rightarrow> bytes set \<Rightarrow> bytes set" where
  "miss w i fs = (case i of
       Unregister f \<Rightarrow> if wc_phase w = WDiscarding then insert f fs else fs
     | Registers _ \<Rightarrow> if wc_phase w = WRegistering then {} else fs
     | _ \<Rightarrow> fs)"

fun missed :: "grab_mode \<Rightarrow> bytes set \<Rightarrow> worker_conn \<Rightarrow> worker_input list \<Rightarrow> bytes set" where
  "missed mode fs w [] = fs"
| "missed mode fs w (i # is) = missed mode (miss w i fs) (fst (worker_step mode w i)) is"

lemma missed_snoc:
  "run (worker_step mode) w is = (w', out, None) \<Longrightarrow> missed mode fs w (is @ [i]) = miss w' i (missed mode fs w is)"
proof (induction "is" arbitrary: fs w out)
  case (Cons j "is")
  then obtain v out' where "worker_step mode w j = (v, out', None)" "\<exists>out2. run (worker_step mode) v is = (w', out2, None)"
    by (auto split: prod.splits option.splits)
  with Cons.IH show ?case by auto
qed simp

fun lost :: "bytes set \<Rightarrow> worker_output list \<Rightarrow> bytes set" where
  "lost fs [] = fs"
| "lost fs (NoteLost f # out) = lost (insert f fs) out"
| "lost fs (Ready # out) = lost {} out"
| "lost fs (_ # out) = lost fs out"

lemma lost_append [simp]: "lost fs (xs @ ys) = lost (lost fs xs) ys"
  by (induction fs xs rule: lost.induct) simp_all

lemma lost_sent [simp]: "lost fs (map WSent ps) = fs"
  by (induction ps) simp_all

lemma believes_registrations:
  "believes fs (map WSent (map registration_packet reg)) = fs \<union> fst ` set reg"
  by (induction reg arbitrary: fs)
    (auto simp: request_def arg_or_empty_def arg_def split: option.splits)

lemma believes_job:
  "\<forall>p \<in> set out. progress_type p \<or> terminal_type p \<Longrightarrow> believes fs (map WSent out) = fs"
  by (induction out arbitrary: fs) (auto simp: progress_type_def terminal_type_def)

lemma dispatch_types:
  "dispatch_job net reg pkt = (out, r) \<Longrightarrow> \<forall>p \<in> set out. progress_type p \<or> terminal_type p"
  using dispatch_packets_shape [of reg pkt] send_ignoring_subset
  by (fastforce simp: dispatch_job_def reports_then_def split: prod.splits)

text \<open>
  The invariant: \<open>fs\<close> are the functions the server believes, \<open>ms\<close> the missed and \<open>ls\<close> the lost ones.
\<close>

definition backed :: "bytes set \<Rightarrow> bytes set \<Rightarrow> bytes set \<Rightarrow> worker_conn \<Rightarrow> bool" where
  "backed fs ms ls w \<longleftrightarrow>
     keys w \<inter> set (wc_notes w) = {}
     \<and> (wc_phase w \<in> {WStart, WConnecting, WRegistering, WBackoff} \<longrightarrow> fs = {})
     \<and> (wc_phase w = WDiscarding \<longrightarrow> keys w \<subseteq> fs \<and> fs \<subseteq> keys w \<union> ms \<union> ls)
     \<and> (looping (wc_phase w) \<longrightarrow> fs \<subseteq> keys w \<union> set (wc_notes w) \<union> ms \<union> ls)"

text \<open>The steps of the task itself, phase by phase.\<close>

lemma belief_simps:
  "looping WTop" "looping WFlushing" "looping WGrabbing" "looping WAwaiting" "looping WPreSleep"
  "looping WAsleep" "looping (WAssigned p)"
  "\<not> looping WStart" "\<not> looping WConnecting" "\<not> looping WRegistering" "\<not> looping WDiscarding"
  "\<not> looping WBackoff"
  by (simp_all add: looping_def)

lemmas belief_defs = backed_def belief_simps miss_def

lemma belief_connect:
  assumes ok: "backed fs ms ls w" and step: "connect_step w i = Some (w', out, None)"
  shows "backed (believes fs out) (miss w i ms) (lost ls out) w'"
proof (cases i)
  case (Registers net)
  with step have ph: "wc_phase w = WRegistering" by (simp split: if_splits)
  obtain sent r where reg: "register_functions net (wc_registry w) = (sent, r)"
    by (cases "register_functions net (wc_registry w)")
  show ?thesis
  proof (cases r)
    case (Inl e)
    with Registers step ph reg have "w' = w\<lparr>wc_phase := WBackoff\<rparr>"
      "out = map WSent sent @ [WSleep (wc_backoff w)]" by simp_all
    with ok Registers show ?thesis by (simp add: belief_defs)
  next
    case (Inr u)
    with reg have "sent = map registration_packet (wc_registry w)"
      by (simp add: register_functions_done)
    with believes_registrations [of _ "wc_registry w"]
    have "believes {} (map WSent sent) = keys w" by (simp add: keys_def)
    moreover from Registers step ph reg Inr
    have "w' = w\<lparr>wc_phase := WDiscarding, wc_backoff := INITIAL_BACKOFF\<rparr>" "out = map WSent sent @ [Ready]"
      by simp_all
    ultimately show ?thesis using ok Registers ph by (simp add: belief_defs)
  qed
next
  case Discards
  with step have ph: "wc_phase w = WDiscarding" and out: "out = []"
    by (auto simp: goto_def split: if_splits)
  with step Discards have "w' = w\<lparr>wc_lagged := False, wc_phase := WTop\<rparr> \<or> w' = w\<lparr>wc_notes := [], wc_phase := WTop\<rparr>"
    by (cases "wc_lagged w") (auto simp: goto_def)
  with ok ph out Discards show ?thesis
    by (elim disjE) (simp add: belief_defs, blast, simp add: belief_defs)
next
  case (Connects r)
  with step have ph: "wc_phase w = WConnecting" by (simp split: if_splits)
  with step Connects have "w' = w\<lparr>wc_phase := WRegistering\<rparr> \<and> out = []
      \<or> w' = w\<lparr>wc_phase := WBackoff\<rparr> \<and> out = [WSleep (wc_backoff w)]"
    by (cases r) (simp_all add: goto_def back_off_def)
  with ok ph Connects show ?thesis by (elim disjE) (simp_all add: belief_defs)
next
  case Begin
  with step have "wc_phase w = WStart" "w' = w\<lparr>wc_phase := WConnecting\<rparr>" "out = []"
    by (auto simp: goto_def split: if_splits)
  with ok Begin show ?thesis by (simp add: belief_defs)
next
  case BackoffEnds
  with step have "wc_phase w = WBackoff" "out = []"
    "w' = w\<lparr>wc_phase := WStart, wc_backoff := next_backoff (wc_backoff w)\<rparr>"
    by (simp_all split: if_splits)
  with ok BackoffEnds show ?thesis by (simp add: belief_defs)
qed (use step in \<open>simp_all split: if_splits\<close>)

lemma belief_grab:
  assumes ok: "backed fs ms ls w" and step: "grab_step mode w i = Some (w', out, None)"
  shows "backed (believes fs out) (miss w i ms) (lost ls out) w'"
proof (cases i)
  case (Dispatch net)
  with step obtain pkt where ph: "wc_phase w = WAssigned pkt" by (auto split: worker_phase.splits)
  obtain sent r where d: "dispatch_job net (wc_registry w) pkt = (sent, r)"
    by (cases "dispatch_job net (wc_registry w) pkt")
  from believes_job [OF dispatch_types [OF d]] Dispatch step ph d ok show ?thesis
    by (auto simp: belief_defs split: bool.splits)
next
  case (Flush net)
  with step ok show ?thesis
    by (auto simp: belief_defs goto_def send_then_def
        end_loop_def back_off_def request_def arg_or_empty_def arg_def
        split: if_splits list.splits option.splits)
next
  case (Grab net)
  with step ok show ?thesis
    by (cases mode) (auto simp: belief_defs send_then_def
        end_loop_def back_off_def request_def grab_type_def split: if_splits option.splits)
next
  case (Response nxt)
  with step ok show ?thesis
    by (auto simp: belief_defs goto_def conn_recv_def
        end_loop_def back_off_def split: if_splits option.splits sum.splits)
next
  case (Wakes nxt)
  with step ok show ?thesis
    by (auto simp: belief_defs goto_def conn_recv_def
        end_loop_def back_off_def split: if_splits option.splits sum.splits)
next
  case (PreSleeps net)
  with step ok show ?thesis
    by (auto simp: belief_defs send_then_def
        end_loop_def back_off_def request_def split: if_splits option.splits)
qed (use step ok in \<open>auto simp: belief_defs goto_def
      end_loop_def split: if_splits\<close>)

lemma set_tl: "set (tl xs) \<subseteq> set xs"
  by (cases xs) auto

lemma belief_unregister:
  assumes ok: "backed fs ms ls w" and step: "worker_step mode w (Unregister f) = (w', out, None)"
  shows "backed (believes fs out) (miss w (Unregister f) ms) (lost ls out) w'"
proof -
  from step have w: "w' = unregister w f" and out: "out = (if full w then [NoteLost (hd (wc_notes w))] else [])"
    by (auto simp: worker_step_def)
  have w': "keys w' = keys w - {f}" "wc_phase w' = wc_phase w" "believes fs out = fs"
    unfolding w out by (simp_all add: keys_def registry_remove_keys)
  have waiting: "set (wc_notes w') \<subseteq> insert f (set (wc_notes w))"
      "insert f (set (wc_notes w)) \<subseteq> set (wc_notes w') \<union> lost ls out" "ls \<subseteq> lost ls out"
    unfolding w out by (cases "wc_notes w"; auto simp: unregister_def notify_def full_def NOTE_CAPACITY_def)+
  have missed: "ms \<subseteq> miss w (Unregister f) ms" "wc_phase w = WDiscarding \<Longrightarrow> f \<in> miss w (Unregister f) ms"
    by (auto simp: miss_def)
  note ok' = ok [unfolded backed_def]
  have "keys w' \<inter> set (wc_notes w') = {}" using ok' waiting(1) w'(1) by blast
  moreover have "wc_phase w = WDiscarding \<Longrightarrow>
      keys w' \<subseteq> fs \<and> fs \<subseteq> keys w' \<union> miss w (Unregister f) ms \<union> lost ls out"
    using ok' waiting(3) w'(1) missed by blast
  moreover have "looping (wc_phase w) \<Longrightarrow>
      fs \<subseteq> keys w' \<union> set (wc_notes w') \<union> miss w (Unregister f) ms \<union> lost ls out"
    using ok' waiting(2,3) w'(1) missed(1) by blast
  moreover have "wc_phase w \<in> {WStart, WConnecting, WRegistering, WBackoff} \<longrightarrow> fs = {}" using ok' by blast
  ultimately show ?thesis unfolding backed_def w'(2,3) by blast
qed

lemma belief_step:
  assumes ok: "backed fs ms ls w" and step: "worker_step mode w i = (w', out, None)"
  shows "backed (believes fs out) (miss w i ms) (lost ls out) w'"
proof (cases rule: worker_step_cases [where i = i and w = w and mode = mode])
  case other
  then consider (unregister) f where "i = Unregister f" | (shutdown) "i = Shutdown" by blast
  then show ?thesis
  proof cases
    case unregister
    with belief_unregister [OF ok] step show ?thesis by simp
  next
    case shutdown
    with step have "w' = w\<lparr>wc_shutdown := True\<rparr>" "out = []" by (auto simp: worker_step_def)
    with ok shutdown show ?thesis by (simp add: belief_defs)
  qed
next
  case connect
  with step belief_connect [OF ok] show ?thesis by simp
next
  case grab
  with step belief_grab [OF ok] show ?thesis by simp
next
  case skip
  with step have w: "w' = w" "out = []" by simp_all
  have "ms \<subseteq> miss w i ms" using skip(2) by (cases i) (auto simp: miss_def)
  with ok show ?thesis unfolding w backed_def by auto
qed

definition belief_ok :: "grab_mode \<Rightarrow> registry \<Rightarrow> worker_input list \<Rightarrow> worker_output list \<Rightarrow> worker_conn \<Rightarrow> bool" where
  "belief_ok mode reg past made w \<longleftrightarrow>
     run (worker_step mode) (worker_start reg) past = (w, made, None)
     \<and> backed (believes {} made) (missed mode {} (worker_start reg) past) (lost {} made) w"

lemma belief_start: "belief_ok mode reg [] [] (worker_start reg)"
  by (simp add: belief_ok_def belief_defs worker_start_def)

lemma belief_history:
  assumes ok: "belief_ok mode reg past made w" and step: "worker_step mode w i = (w', out, None)"
  shows "belief_ok mode reg (past @ [i]) (made @ out) w'"
proof -
  from ok have past: "run (worker_step mode) (worker_start reg) past = (w, made, None)"
    by (simp add: belief_ok_def)
  from run_snoc [OF this step] missed_snoc [OF this, of "{}" i] ok belief_step [OF _ step] show ?thesis
    by (simp add: belief_ok_def)
qed

interpretation belief: event_loop "worker_step mode" "worker_start reg" "belief_ok mode reg" for mode reg
  by unfold_locales (rule belief_start, rule belief_history)

text \<open>
  C13. What the server believes is backed. In every state of the grab loop, each function the server
  thinks this connection can do is still registered, or its \<^verbatim>\<open>CANT_DO\<close> is on its way (its notification
  waits in the connection's receiver), or it was unregistered in one of the two ways that the
  connection does not notice: after its last registration but before it had discarded old
  notifications, or with the notification dropped by the full broadcast channel since that
  registration. No notification waits for a function that is registered, and a connection that is down
  is believed to do nothing, whatever was registered before.
\<close>

theorem server_beliefs_backed:
  assumes "run (worker_step mode) (worker_start reg) is = (w, out, None)"
  shows "(looping (wc_phase w) \<longrightarrow> believes {} out
        \<subseteq> keys w \<union> set (wc_notes w) \<union> missed mode {} (worker_start reg) is \<union> lost {} out)
    \<and> keys w \<inter> set (wc_notes w) = {}
    \<and> (wc_phase w \<in> {WStart, WConnecting, WRegistering, WBackoff} \<longrightarrow> believes {} out = {})"
  using belief.inv_run [OF assms] by (simp add: belief_ok_def backed_def)

text \<open>A worker for one function on a connection that works.\<close>

definition up :: "worker_input list" where
  "up = [Begin, Connects (Inr ()), Registers (\<lambda>_. Inr ())]"

definition one_fn :: registry where
  "one_fn = [([102], \<lparr>rh_handler = (\<lambda>job. ([], Returns (Inl WorkFailed))), rh_timeout = None\<rparr>)]"

lemma small_sends:
  "send_error (request CanDo [[x]]) (Inr ()) = None" "send_error (request CantDo [[x]]) (Inr ()) = None"
  "send_error (request GrabJobUniq []) (Inr ()) = None"
  by (simp_all add: send_error_None encodable_def request_def encoded_body_len_def)

lemmas worker_eval = few_notes unregister_few up_def one_fn_def step_defs worker_start_def register_functions_def small_sends
  registry_remove_def grab_type_def

theorem server_beliefs_backed_witness:
  "\<exists>w out. run (worker_step Uniq) (worker_start one_fn) (up @ [Discards, Unregister [102], AtTop])
      = (w, out, None) \<and> believes {} out \<subseteq> keys w \<union> {[102]} \<and> wc_notes w = [[102]]"
proof -
  let ?is = "up @ [Discards, Unregister [102], AtTop]"
  obtain w out where run: "run (worker_step Uniq) (worker_start one_fn) ?is = (w, out, None)"
    and w: "wc_notes w = [[102]]" "wc_phase w = WFlushing" "lost {} out = {}"
    by (simp add: worker_eval)
  have "missed Uniq {} (worker_start one_fn) ?is = {}" by (simp add: worker_eval miss_def)
  with server_beliefs_backed [OF run] w show ?thesis using run by (auto simp: looping_def)
qed

section \<open>Unregistrations that are lost\<close>

text \<open>
  A function that the server believes, that is no longer registered and of which no notification waits,
  stays believed as long as the connection lasts and the function is not unregistered again: nothing
  else makes the task send \<^verbatim>\<open>CANT_DO\<close> for it.
\<close>

definition forgotten :: "bytes \<Rightarrow> bytes set \<Rightarrow> worker_conn \<Rightarrow> bool" where
  "forgotten f fs w \<longleftrightarrow> f \<in> fs \<and> f \<notin> keys w \<and> f \<notin> set (wc_notes w)"


lemma forgotten_frame [simp]:
  "forgotten f fs (w\<lparr>wc_phase := ph\<rparr>) = forgotten f fs w" "forgotten f fs (w\<lparr>wc_backoff := d\<rparr>) = forgotten f fs w"
  "forgotten f fs (w\<lparr>wc_shutdown := b\<rparr>) = forgotten f fs w" "forgotten f fs (w\<lparr>wc_lagged := b\<rparr>) = forgotten f fs w"
  by (simp_all add: forgotten_def)

lemma forgotten_step:
  assumes f: "forgotten f fs w" and step: "worker_step mode w i = (w', out, r)"
    and other: "i \<noteq> Unregister f" and up: "\<forall>d. WSleep d \<notin> set out"
  shows "forgotten f (believes fs out) w' \<and> WSent (request CantDo [f]) \<notin> set out"
proof (cases rule: worker_step_cases [where i = i and w = w and mode = mode])
  case other': other
  then consider g where "i = Unregister g" "g \<noteq> f" | "i = Shutdown" using other by blast
  then show ?thesis
  proof cases
    case 1
    then have "w' = unregister w g" "out = (if full w then [NoteLost (hd (wc_notes w))] else [])"
      using step by (simp_all add: worker_step_def)
    with f 1(2) set_tl [of "wc_notes w"] show ?thesis
      by (auto simp: forgotten_def unregister_def notify_def keys_def registry_remove_keys)
  next
    case 2
    with step f show ?thesis by (auto simp: worker_step_def)
  qed
next
  case skip
  with step f show ?thesis by simp
next
  case (connect res)
  with step have c: "connect_step w i = Some (w', out, r)" by simp
  show ?thesis
  proof (cases i)
    case (Registers net)
    obtain ps res where reg: "register_functions net (wc_registry w) = (ps, res)" by fastforce
    with c Registers up obtain u where res: "res = Inr u" by (cases res) (auto split: if_splits)
    with reg have "ps = map registration_packet (wc_registry w)" by (simp add: register_functions_done)
    with c Registers reg res have w': "w' = w\<lparr>wc_phase := WDiscarding, wc_backoff := INITIAL_BACKOFF\<rparr>"
      and out: "out = map WSent (map registration_packet (wc_registry w)) @ [Ready]"
      by (simp_all split: if_splits)
    have "request CantDo [f] \<notin> set (map registration_packet (wc_registry w))"
      by (auto simp: request_def split: option.splits)
    with f show ?thesis unfolding w' out
      by (auto simp: forgotten_def believes_registrations simp del: map_map)
  qed (use c f up in \<open>auto simp: goto_def back_off_def forgotten_def split: if_splits sum.splits\<close>)
next
  case (grab res)
  with step have g: "grab_step mode w i = Some (w', out, r)" by simp
  show ?thesis
  proof (cases i)
    case (Dispatch net)
    with g obtain pkt where ph: "wc_phase w = WAssigned pkt" by (auto split: worker_phase.splits)
    obtain ps res where d: "dispatch_job net (wc_registry w) pkt = (ps, res)" by fastforce
    have out: "out = map WSent ps" and w': "w' = w\<lparr>wc_phase := wc_phase w'\<rparr>"
      using g Dispatch ph d by (auto split: bool.splits)
    have "request CantDo [f] \<notin> set ps"
      using dispatch_types [OF d] by (force simp: progress_type_def terminal_type_def request_def)
    then show ?thesis using f believes_job [OF dispatch_types [OF d]] w' unfolding out
      by (metis forgotten_frame(1) imageE list.set_map worker_output.inject(1))
  next
    case (Flush net)
    with g f up show ?thesis
      by (auto simp: forgotten_def goto_def send_then_def end_loop_def back_off_def request_def arg_or_empty_def
          arg_def split: if_splits list.splits option.splits)
  next
    case (Grab net)
    with g f up show ?thesis
      by (cases mode) (auto simp: send_then_def end_loop_def back_off_def request_def grab_type_def
          split: if_splits option.splits)
  next
    case (PreSleeps net)
    with g f up show ?thesis
      by (auto simp: send_then_def end_loop_def back_off_def request_def split: if_splits option.splits)
  next
    case (Response nxt)
    with g f up show ?thesis
      by (auto simp: goto_def conn_recv_def end_loop_def back_off_def split: if_splits option.splits sum.splits)
  next
    case (Wakes nxt)
    with g f up show ?thesis
      by (auto simp: goto_def conn_recv_def end_loop_def back_off_def split: if_splits option.splits sum.splits)
  qed (use g f up in \<open>auto simp: goto_def end_loop_def split: if_splits\<close>)
qed

lemma forgotten_run:
  "\<lbrakk>forgotten f fs w; run (worker_step mode) w is = (w', out, r); Unregister f \<notin> set is; \<forall>d. WSleep d \<notin> set out\<rbrakk>
    \<Longrightarrow> forgotten f (believes fs out) w' \<and> WSent (request CantDo [f]) \<notin> set out"
proof (induction "is" arbitrary: w fs out)
  case (Cons i "is")
  obtain v o1 r1 where one: "worker_step mode w i = (v, o1, r1)" by (cases "worker_step mode w i")
  show ?case
  proof (cases r1)
    case (Some u)
    with one Cons.prems(2) have "v = w'" "o1 = out" by simp_all
    with forgotten_step [OF Cons.prems(1) one] Cons.prems(3,4) show ?thesis by auto
  next
    case None
    with one Cons.prems(2) obtain o2 where rest: "run (worker_step mode) v is = (w', o2, r)" and out: "out = o1 @ o2"
      by (auto split: prod.splits)
    from forgotten_step [OF Cons.prems(1) one] Cons.prems(3,4) out
    have "forgotten f (believes fs o1) v" "WSent (request CantDo [f]) \<notin> set o1" by auto
    with Cons.IH [OF this(1) rest] Cons.prems(3,4) out show ?thesis by simp
  qed
qed simp

text \<open>Many unregistrations in a row.\<close>

lemma run_unregisters:
  assumes "length (wc_notes w) \<le> NOTE_CAPACITY"
  shows "\<exists>w' out. run (worker_step mode) w (map Unregister fs) = (w', out, None)
    \<and> believes bs out = bs \<and> wc_phase w' = wc_phase w \<and> keys w' = keys w - set fs
    \<and> (length (wc_notes w) + length fs \<le> NOTE_CAPACITY \<longrightarrow> wc_lagged w' = wc_lagged w)
    \<and> (\<forall>x \<in> set out. \<exists>g. x = NoteLost g) \<and> wc_shutdown w' = wc_shutdown w
    \<and> wc_notes w' = drop (length (wc_notes w) + length fs - NOTE_CAPACITY) (wc_notes w @ fs)"
  using assms
proof (induction fs arbitrary: w)
  case (Cons f fs)
  let ?v = "unregister w f" and ?o = "if full w then [NoteLost (hd (wc_notes w))] else []"
  have buf: "wc_notes ?v = drop (Suc (length (wc_notes w)) - NOTE_CAPACITY) (wc_notes w @ [f])"
    using Cons.prems by (auto simp: unregister_def notify_def full_def drop_Suc NOTE_CAPACITY_def)
  have le: "length (wc_notes ?v) \<le> NOTE_CAPACITY" unfolding buf by simp
  let ?d = "Suc (length (wc_notes w)) - NOTE_CAPACITY"
  have more: "wc_notes ?v @ fs = drop ?d (wc_notes w @ f # fs)"
    unfolding buf using Cons.prems by (simp add: NOTE_CAPACITY_def)
  have len: "?d + (length (wc_notes ?v) + length fs - NOTE_CAPACITY)
      = length (wc_notes w) + length (f # fs) - NOTE_CAPACITY"
    unfolding buf using Cons.prems by (simp add: NOTE_CAPACITY_def)
  have rest: "drop (length (wc_notes ?v) + length fs - NOTE_CAPACITY) (wc_notes ?v @ fs)
      = drop (length (wc_notes w) + length (f # fs) - NOTE_CAPACITY) (wc_notes w @ f # fs)"
    unfolding more drop_drop len [symmetric] by (simp only: add.commute)
  from Cons.IH [OF le] obtain w' out where *: "run (worker_step mode) ?v (map Unregister fs) = (w', out, None)"
    "believes bs out = bs" "wc_phase w' = wc_phase w" "keys w' = keys ?v - set fs"
    "length (wc_notes ?v) + length fs \<le> NOTE_CAPACITY \<longrightarrow> wc_lagged w' = wc_lagged ?v"
    "\<forall>x \<in> set out. \<exists>g. x = NoteLost g" "wc_shutdown w' = wc_shutdown w"
    "wc_notes w' = drop (length (wc_notes w) + length (f # fs) - NOTE_CAPACITY) (wc_notes w @ f # fs)"
    unfolding rest by auto
  have "keys ?v = keys w - {f}" by (simp add: keys_def registry_remove_keys)
  then have "keys w' = keys w - set (f # fs)" using *(4) by auto
  moreover have "run (worker_step mode) w (map Unregister (f # fs)) = (w', ?o @ out, None)"
    using *(1) by (simp add: worker_step_def)
  moreover have "believes bs (?o @ out) = bs" "\<forall>x \<in> set (?o @ out). \<exists>g. x = NoteLost g" using *(2,6) by auto
  moreover have "wc_lagged w' = wc_lagged w" if "length (wc_notes w) + length (f # fs) \<le> NOTE_CAPACITY"
    using that *(5) by (simp add: unregister_def notify_def full_def)
  ultimately show ?case using *(3,7,8) by (intro exI [of _ w'] exI [of _ "?o @ out"]) simp
qed simp

text \<open>
  C37. The window in which an unregistration is lost. Take any worker's task that has registered its functions
  on a connection and has not yet discarded the notifications that it takes for old ones, and
  unregister one of its functions then, and possibly others, as long as the notifications fit into
  the broadcast channel. From there, over everything that happens while the connection lasts, the task
  never sends \<^verbatim>\<open>CANT_DO\<close> for the function: the server goes on believing that this connection can do it,
  although it is no longer registered and no notification is left; unless it is unregistered again.
\<close>

theorem unregister_race:
  assumes "run (worker_step mode) (worker_start reg) is = (v, before, None)"
    and "wc_phase v = WDiscarding" and "\<not> wc_lagged v" and "f \<in> keys v"
    and "length (wc_notes v) + length gs < 16"
    and "run (worker_step mode) v (map Unregister (f # gs) @ Discards # later) = (w, out, r)"
    and "Unregister f \<notin> set later" and "\<forall>d. WSleep d \<notin> set out"
  shows "f \<in> believes {} (before @ out) \<and> WSent (request CantDo [f]) \<notin> set out
    \<and> f \<notin> keys w \<and> f \<notin> set (wc_notes w)"
proof -
  have f: "f \<in> believes {} before"
    using belief.inv_run [OF assms(1)] assms(2,4) by (auto simp: belief_ok_def backed_def)
  have few: "length (wc_notes v) \<le> NOTE_CAPACITY" "length (wc_notes v) + length (f # gs) \<le> NOTE_CAPACITY"
    using assms(5) by (simp_all add: NOTE_CAPACITY_def)
  from run_unregisters [OF few(1), of mode "f # gs" "believes {} before"] few(2) assms(2,3) obtain u o1 where
    run: "run (worker_step mode) v (map Unregister (f # gs)) = (u, o1, None)"
    and bs: "believes (believes {} before) o1 = believes {} before" "\<forall>x \<in> set o1. \<exists>g. x = NoteLost g"
    and u: "wc_phase u = WDiscarding" "keys u = keys v - set (f # gs)" "\<not> wc_lagged u"
    by auto
  have discard: "worker_step mode u Discards = (u\<lparr>wc_notes := [], wc_phase := WTop\<rparr>, [], None)"
    using u by (simp add: step_defs)
  obtain o2 where rest: "run (worker_step mode) (u\<lparr>wc_notes := [], wc_phase := WTop\<rparr>) later = (w, o2, r)"
    and out: "out = o1 @ o2"
    using assms(6) unfolding run_append run by (auto simp: discard split: prod.splits)
  have "forgotten f (believes {} before) (u\<lparr>wc_notes := [], wc_phase := WTop\<rparr>)"
    using f u(2) by (simp add: forgotten_def)
  from forgotten_run [OF this rest assms(7)] assms(8) bs out show ?thesis
    by (auto simp: forgotten_def)
qed

text \<open>The function is unregistered in the window; the connection goes on and grabs a job.\<close>

definition raced :: "worker_input list" where
  "raced = [Discards, AtTop, Flush (Inr ()), Grab (Inr ())]"

theorem unregister_race_witness:
  "\<exists>w out. run (worker_step Uniq) (worker_start one_fn) (up @ Unregister [102] # raced) = (w, out, None)
    \<and> WSent (request GrabJobUniq []) \<in> set out \<and> [102] \<in> believes {} out \<and> [102] \<notin> keys w"
proof -
  obtain v before where up: "run (worker_step Uniq) (worker_start one_fn) up = (v, before, None)"
    and v: "wc_phase v = WDiscarding" "\<not> wc_lagged v" "[102] \<in> keys v" "wc_notes v = []" "\<not> wc_shutdown v"
    by (simp add: worker_eval keys_def)
  obtain w out where more: "run (worker_step Uniq) v (Unregister [102] # raced) = (w, out, None)"
    and out: "WSent (request GrabJobUniq []) \<in> set out" "\<forall>d. WSleep d \<notin> set out"
    using v by (simp add: worker_eval raced_def)
  have "[102] \<in> believes {} (before @ out)" "[102] \<notin> keys w"
    using unregister_race [OF up v(1-3), of "[]" "tl raced" w out None] more out(2) v(4)
    by (simp_all add: raced_def del: run.simps)
  with up more out(1) show ?thesis by (simp add: run_append del: run.simps)
qed

text \<open>
  C38. Unregistering many functions while a job runs. Each connection's receiver of the broadcast holds 16
  notifications. When, after one function, 16 or more others are unregistered before a connection
  drains its receiver, the notification of the first one is dropped. From there, over everything that
  happens while the connection lasts, the draining of the receiver included, the task never sends
  \<^verbatim>\<open>CANT_DO\<close> for that function, and the server goes on believing that this connection can do it, although
  it is no longer registered; unless it is unregistered again.
\<close>

theorem unregister_overflow:
  assumes "run (worker_step mode) (worker_start reg) is = (v, before, None)" and "wc_notes v = []"
    and "f \<in> believes {} before" and "f \<notin> set fs" and "16 \<le> length fs"
    and "run (worker_step mode) v (map Unregister (f # fs) @ later) = (w, out, r)"
    and "Unregister f \<notin> set later" and "\<forall>d. WSleep d \<notin> set out"
  shows "f \<in> believes {} (before @ out) \<and> WSent (request CantDo [f]) \<notin> set out
    \<and> f \<notin> keys w \<and> f \<notin> set (wc_notes w)"
proof -
  have "length (wc_notes v) \<le> NOTE_CAPACITY" by (simp add: assms(2))
  from run_unregisters [OF this, of mode "f # fs" "believes {} before"] obtain u o1 where
    run: "run (worker_step mode) v (map Unregister (f # fs)) = (u, o1, None)"
    and bs: "believes (believes {} before) o1 = believes {} before" "\<forall>x \<in> set o1. \<exists>g. x = NoteLost g"
    and u: "keys u = keys v - set (f # fs)"
    and kept: "wc_notes u = drop (length (wc_notes v) + length (f # fs) - NOTE_CAPACITY) (wc_notes v @ f # fs)"
    by blast
  have "\<exists>k. wc_notes u = drop k fs"
    using kept assms(2,5) by (cases "length (f # fs) - 16") (auto simp: NOTE_CAPACITY_def)
  then have "f \<notin> set (wc_notes u)" using assms(4) by (auto dest: in_set_dropD)
  with assms(3) u have f: "forgotten f (believes {} before) u" by (simp add: forgotten_def)
  obtain o2 where rest: "run (worker_step mode) u later = (w, o2, r)" and out: "out = o1 @ o2"
    using assms(6) unfolding run_append run by (auto split: prod.splits)
  from forgotten_run [OF f rest assms(7)] assms(8) bs out show ?thesis by (auto simp: forgotten_def)
qed

text \<open>The connection drains its receiver after the lag: it withdraws the others, not the first.\<close>

definition drained :: "worker_input list" where
  "drained = [AtTop, Flush (Inr ()), Flush (Inr ())]"

theorem unregister_overflow_witness:
  "\<exists>w out. run (worker_step Uniq) ((worker_start one_fn)\<lparr>wc_phase := WTop\<rparr>)
        (map Unregister ([102] # replicate 16 [103]) @ drained) = (w, out, None)
    \<and> WSent (request CantDo [[103]]) \<in> set out \<and> WSent (request CantDo [[102]]) \<notin> set out
    \<and> [102] \<in> believes {} (WSent (request CanDo [[102]]) # Ready # out) \<and> [102] \<notin> keys w"
proof -
  let ?v = "(worker_start one_fn)\<lparr>wc_phase := WTop\<rparr>"
  have up: "run (worker_step Uniq) (worker_start one_fn) (up @ [Discards])
      = (?v, [WSent (request CanDo [[102]]), Ready], None)"
    by (simp add: worker_eval)
  have v: "wc_notes ?v = []" "[102] \<in> believes {} [WSent (request CanDo [[102]]), Ready]"
    by (simp_all add: worker_start_def request_def arg_or_empty_def arg_def)
  let ?fs = "replicate 16 [103 :: 8 word]"
  have fits: "16 \<le> length ?fs" "[102 :: 8 word] \<notin> set ?fs" by simp_all
  have "length (wc_notes ?v) \<le> NOTE_CAPACITY" using v(1) by simp
  from run_unregisters [OF this, of Uniq "[102] # ?fs" "{}"] obtain u o1 where
    u: "run (worker_step Uniq) ?v (map Unregister ([102] # ?fs)) = (u, o1, None)"
    "wc_phase u = WTop" "\<not> wc_shutdown u" "\<forall>x \<in> set o1. \<exists>g. x = NoteLost g"
    "wc_notes u = [103] # replicate 15 [103]"
    using v(1) by (auto simp: worker_start_def NOTE_CAPACITY_def simp flip: replicate_Suc)
  obtain w o2 where "run (worker_step Uniq) u drained = (w, o2, None)"
    and o2: "WSent (request CantDo [[103]]) \<in> set o2" "\<forall>d. WSleep d \<notin> set o2"
    using u(2,3,5) by (cases "wc_lagged u") (auto simp: drained_def step_defs small_sends
        numeral_eq_Suc)
  with u(1) have run: "run (worker_step Uniq) ?v (map Unregister ([102] # ?fs) @ drained) = (w, o1 @ o2, None)"
    by (simp only: run_append prod.case option.case)
  have out: "WSent (request CantDo [[103]]) \<in> set (o1 @ o2)" "\<forall>d. WSleep d \<notin> set (o1 @ o2)"
    using o2 u(4) by auto
  have "Unregister [102] \<notin> set drained" by (simp add: drained_def)
  from unregister_overflow [OF up v fits(2,1) run this out(2)] run out(1) show ?thesis
    by (simp del: run.simps)
qed

section \<open>Shutting down\<close>

text \<open>The most steps left to a task whose worker is shutting down.\<close>

fun remaining :: "worker_conn \<Rightarrow> nat" where
  "remaining w = (case wc_phase w of
      WReturned \<Rightarrow> 0 | WPanicked \<Rightarrow> 0
    | WStart \<Rightarrow> 1 | WTop \<Rightarrow> 1
    | WBackoff \<Rightarrow> 2 | WDiscarding \<Rightarrow> 2 | WAssigned _ \<Rightarrow> 2
    | WAsleep \<Rightarrow> 3 | WRegistering \<Rightarrow> 3
    | WPreSleep \<Rightarrow> 4 | WConnecting \<Rightarrow> 4
    | WAwaiting \<Rightarrow> 5 | WGrabbing \<Rightarrow> 6
    | WFlushing \<Rightarrow> 7 + length (wc_notes w) + of_bool (wc_lagged w))"

lemma connect_remaining:
  "\<lbrakk>connect_step w i = Some (w', out, r); wc_shutdown w\<rbrakk>
   \<Longrightarrow> wc_shutdown w' \<and> remaining w' < remaining w \<and> (r = None \<longleftrightarrow> 0 < remaining w')"
  by (cases i) (auto simp: goto_def back_off_def split: if_splits sum.splits prod.splits)

lemma grab_remaining:
  assumes "grab_step mode w i = Some (w', out, r)" and "wc_shutdown w"
  shows "wc_shutdown w' \<and> remaining w' < remaining w \<and> (r = None \<longleftrightarrow> 0 < remaining w')"
proof (cases i)
  case (Dispatch net)
  with assms obtain pkt where "wc_phase w = WAssigned pkt" by (auto split: worker_phase.splits)
  with assms Dispatch show ?thesis by (auto split: prod.splits bool.splits)
next
  case (Response nxt)
  with assms show ?thesis
    by (cases "conn_recv nxt") (auto simp: goto_def end_loop_def back_off_def split: if_splits option.splits)
next
  case (Wakes nxt)
  with assms show ?thesis
    by (cases "conn_recv nxt") (auto simp: goto_def end_loop_def back_off_def split: if_splits option.splits)
qed (use assms in \<open>auto simp: goto_def send_then_def end_loop_def back_off_def
    split: if_splits list.splits option.splits\<close>)

lemma own_remaining:
  "\<lbrakk>own_step mode w i = Some (w', out, r); wc_shutdown w\<rbrakk>
   \<Longrightarrow> wc_shutdown w' \<and> remaining w' < remaining w \<and> (r = None \<longleftrightarrow> 0 < remaining w')"
  using connect_remaining grab_remaining
  by (auto simp: own_step_def simp del: remaining.simps split: option.splits)

text \<open>Every input in turn is one the task takes.\<close>

fun effective :: "grab_mode \<Rightarrow> worker_conn \<Rightarrow> worker_input list \<Rightarrow> bool" where
  "effective mode w [] = True"
| "effective mode w (i # is) =
     (case own_step mode w i of
        None \<Rightarrow> False
      | Some (w', _, None) \<Rightarrow> effective mode w' is
      | Some (_, _, Some _) \<Rightarrow> True)"

lemma shutdown_run_ends:
  "\<lbrakk>wc_shutdown w; 0 < remaining w; effective mode w is; remaining w \<le> length is\<rbrakk>
   \<Longrightarrow> \<exists>w' out. run (worker_step mode) w is = (w', out, Some ())"
proof (induction "is" arbitrary: w)
  case (Cons i "is")
  from Cons.prems(3) obtain w' out r where own: "own_step mode w i = Some (w', out, r)"
    by (auto split: option.splits prod.splits)
  note less = own_remaining [OF own Cons.prems(1)]
  show ?case
  proof (cases r)
    case None
    with less Cons.prems(4) have "remaining w' \<le> length is" by (simp del: remaining.simps)
    moreover have "effective mode w' is" using Cons.prems(3) own None by simp
    ultimately obtain w2 out2 where "run (worker_step mode) w' is = (w2, out2, Some ())"
      using Cons.IH [of w'] less None by auto
    then show ?thesis using worker_step_own [OF own] None by (simp del: remaining.simps)
  next
    case (Some u)
    then show ?thesis using worker_step_own [OF own] by simp
  qed
qed simp

definition is_grab :: "worker_output \<Rightarrow> bool" where
  "is_grab x = (case x of WSent p \<Rightarrow> ptype p \<in> {GrabJob, GrabJobUniq, GrabJobAll} | _ \<Rightarrow> False)"

definition may_grab :: "worker_phase \<Rightarrow> nat" where
  "may_grab ph = (if ph \<in> {WFlushing, WGrabbing} then 1 else 0)"

lemma is_grab_simps [simp]: "\<not> is_grab Ready" "\<not> is_grab (WSleep d)" "\<not> is_grab (NoteLost f)"
  "is_grab (WSent p) \<longleftrightarrow> ptype p \<in> {GrabJob, GrabJobUniq, GrabJobAll}"
  by (simp_all add: is_grab_def)

lemma no_grabs_registering: "filter is_grab (map WSent (map registration_packet reg)) = []"
  by (induction reg) (auto simp: request_def split: option.splits)

lemma registering_prefix:
  "register_functions net reg = (out, r) \<Longrightarrow> \<exists>rest. map registration_packet reg = out @ rest"
proof -
  assume reg: "register_functions net reg = (out, r)"
  obtain out' e where send: "send_until_error net 0 (map registration_packet reg) = (out', e)"
    by (cases "send_until_error net 0 (map registration_packet reg)")
  with reg have "out = out'" by (cases e; simp add: register_functions_def)
  with send_until_error_prefix [OF send] show ?thesis by blast
qed

lemma connect_grabs:
  assumes "connect_step w i = Some (w', out, r)" and "wc_shutdown w"
  shows "filter is_grab out = [] \<and> may_grab (wc_phase w') = 0"
proof (cases i)
  case (Registers net)
  with assms obtain sent res where reg: "register_functions net (wc_registry w) = (sent, res)"
    and out: "out = map WSent sent @ [WSleep (wc_backoff w)] \<or> out = map WSent sent @ [Ready]"
    and ph: "wc_phase w' \<in> {WBackoff, WDiscarding}"
    by (auto split: if_splits prod.splits sum.splits)
  from registering_prefix [OF reg] obtain rest where
    "map registration_packet (wc_registry w) = sent @ rest" by blast
  with no_grabs_registering [of "wc_registry w"] have "filter is_grab (map WSent sent) = []" by simp
  with out ph show ?thesis by (auto simp: may_grab_def)
qed (use assms in \<open>auto simp: goto_def back_off_def may_grab_def split: if_splits sum.splits\<close>)

lemma grab_grabs:
  assumes "grab_step mode w i = Some (w', out, r)" and "wc_shutdown w"
  shows "length (filter is_grab out) + may_grab (wc_phase w') \<le> may_grab (wc_phase w)"
proof (cases i)
  case (Dispatch net)
  with assms obtain pkt where ph: "wc_phase w = WAssigned pkt" by (auto split: worker_phase.splits)
  obtain sent res where d: "dispatch_job net (wc_registry w) pkt = (sent, res)"
    by (cases "dispatch_job net (wc_registry w) pkt")
  from dispatch_types [OF d] have "filter is_grab (map WSent sent) = []"
    by (auto simp: filter_empty_conv progress_type_def terminal_type_def)
  with Dispatch ph d assms show ?thesis by (auto simp: may_grab_def split: bool.splits)
next
  case (Grab net)
  with assms show ?thesis
    by (cases mode) (auto simp: may_grab_def send_then_def end_loop_def back_off_def request_def grab_type_def
        split: if_splits option.splits)
next
  case (Flush net)
  with assms show ?thesis
    by (auto simp: may_grab_def send_then_def end_loop_def back_off_def goto_def request_def
        split: if_splits list.splits option.splits)
next
  case (PreSleeps net)
  with assms show ?thesis
    by (auto simp: may_grab_def send_then_def end_loop_def back_off_def request_def
        split: if_splits option.splits)
next
  case (Response nxt)
  with assms show ?thesis
    by (cases "conn_recv nxt") (auto simp: may_grab_def goto_def end_loop_def back_off_def
        split: if_splits option.splits)
next
  case (Wakes nxt)
  with assms show ?thesis
    by (cases "conn_recv nxt") (auto simp: may_grab_def goto_def end_loop_def back_off_def
        split: if_splits option.splits)
qed (use assms in \<open>auto simp: may_grab_def goto_def end_loop_def split: if_splits\<close>)

lemma step_grabs:
  assumes "worker_step mode w i = (w', out, r)" and "wc_shutdown w"
  shows "wc_shutdown w' \<and> length (filter is_grab out) + may_grab (wc_phase w') \<le> may_grab (wc_phase w)"
proof (cases rule: worker_step_cases [where i = i and w = w and mode = mode])
  case other
  with assms show ?thesis by (auto simp: worker_step_def)
next
  case (connect res)
  with assms connect_grabs [of w i w' out r] connect_remaining [of w i w' out r] show ?thesis
    by (simp del: remaining.simps)
next
  case (grab res)
  with assms grab_grabs [of mode w i w' out r] grab_remaining [of mode w i w' out r] show ?thesis
    by (simp del: remaining.simps)
next
  case skip
  with assms show ?thesis by simp
qed

lemma run_grabs:
  "\<lbrakk>run (worker_step mode) w is = (w', out, r); wc_shutdown w\<rbrakk>
   \<Longrightarrow> length (filter is_grab out) \<le> may_grab (wc_phase w)"
proof (induction "is" arbitrary: w out)
  case (Cons i "is")
  obtain v out1 r1 where one: "worker_step mode w i = (v, out1, r1)" by (cases "worker_step mode w i")
  note step = step_grabs [OF one Cons.prems(2)]
  show ?case
  proof (cases r1)
    case None
    with Cons.prems(1) one obtain out2 where "run (worker_step mode) v is = (w', out2, r)" "out = out1 @ out2"
      by (auto split: prod.splits)
    with Cons.IH [of v out2] step show ?thesis by simp
  next
    case (Some u)
    with Cons.prems(1) one step show ?thesis by simp
  qed
qed simp

text \<open>
  C14. Shutting down ends the task, and soon. Once the flag is set, every step the task takes brings it closer
  to returning: from wherever it is, after at most 7 further steps (and one for each \<^verbatim>\<open>CANT_DO\<close> still
  to be sent, and one more to notice a lag) it has returned or its handler has panicked, whatever the network does; and in the
  meantime, whatever else happens, it sends at most one more \<^verbatim>\<open>GRAB_JOB\<close>, and that only when it was
  past the check of the flag already.
\<close>

theorem shutdown_ends_task:
  assumes "wc_shutdown w" and "wc_phase w \<notin> {WReturned, WPanicked}"
  shows "(effective mode w is \<and> 7 + length (wc_notes w) + of_bool (wc_lagged w) \<le> length is \<longrightarrow>
      (\<exists>w' out. run (worker_step mode) w is = (w', out, Some ())))
    \<and> length (filter is_grab (fst (snd (run (worker_step mode) w js)))) \<le>
        (if wc_phase w \<in> {WFlushing, WGrabbing} then 1 else 0)"
proof -
  have "0 < remaining w" "remaining w \<le> 7 + length (wc_notes w) + of_bool (wc_lagged w)"
    using assms(2) by (auto split: worker_phase.split)
  with shutdown_run_ends [OF assms(1), of mode "is"]
  have "effective mode w is \<and> 7 + length (wc_notes w) + of_bool (wc_lagged w) \<le> length is \<longrightarrow>
      (\<exists>w' out. run (worker_step mode) w is = (w', out, Some ()))"
    by (simp del: remaining.simps)
  moreover obtain w' out r where "run (worker_step mode) w js = (w', out, r)"
    by (cases "run (worker_step mode) w js")
  ultimately show ?thesis using run_grabs [of mode w js w' out r] assms(1) by (simp add: may_grab_def)
qed

theorem shutdown_ends_task_witness:
  "\<exists>w' out. run (worker_step Uniq) ((worker_start one_fn)\<lparr>wc_shutdown := True, wc_phase := WPreSleep\<rparr>)
     [PreSleeps (Inr ()), Wakes None, BackoffEnds, Begin, Begin, Begin, Begin] = (w', out, Some ())"
proof -
  let ?w = "(worker_start one_fn)\<lparr>wc_shutdown := True, wc_phase := WPreSleep\<rparr>"
  let ?is = "[PreSleeps (Inr ()), Wakes None, BackoffEnds, Begin, Begin, Begin, Begin]"
  have "send_error (request PreSleep []) (Inr ()) = None"
    by (simp add: send_error_None encodable_def request_def encoded_body_len_def)
  then have "effective Uniq ?w ?is"
    by (simp add: worker_eval conn_recv_def)
  moreover have "7 + length (wc_notes ?w) + of_bool (wc_lagged ?w) \<le> length ?is" by (simp add: worker_start_def)
  ultimately show ?thesis
    using shutdown_ends_task [of ?w Uniq ?is "[]"] by simp
qed

section \<open>Reconnecting\<close>

fun worker_slept :: "worker_output \<Rightarrow> nat option" where
  "worker_slept (WSleep d) = Some d"
| "worker_slept _ = None"

fun worker_ready :: "worker_output \<Rightarrow> bool" where
  "worker_ready Ready = True"
| "worker_ready _ = False"

lemma plain_sent: "plain worker_slept worker_ready (map WSent ps)"
  by (rule plain_map) simp

text \<open>The moves of a step, as the discipline names them.\<close>

definition moves :: "worker_conn \<Rightarrow> worker_conn \<Rightarrow> worker_output list \<Rightarrow> bool" where
  "moves w w' out \<longleftrightarrow> (\<exists>m. follows worker_slept worker_ready m
     (wc_backoff w, wc_phase w = WBackoff) (wc_backoff w', wc_phase w' = WBackoff) out)"

lemma moves_keep:
  "\<lbrakk>wc_backoff w' = wc_backoff w; wc_phase w' = WBackoff \<longleftrightarrow> wc_phase w = WBackoff;
    plain worker_slept worker_ready out\<rbrakk> \<Longrightarrow> moves w w' out"
  unfolding moves_def by (rule exI [of _ Keep]) (simp add: follows_def)

lemma moves_asleep:
  "\<lbrakk>wc_phase w \<noteq> WBackoff; wc_phase w' = WBackoff; wc_backoff w' = wc_backoff w\<rbrakk>
   \<Longrightarrow> moves w w' (map WSent ps @ [WSleep (wc_backoff w)])"
  unfolding moves_def by (rule exI [of _ FallAsleep]) (auto simp: follows_def plain_sent)

lemmas moves_asleep_at_once = moves_asleep [where ps = "[]", simplified]

lemma moves_ready:
  "\<lbrakk>wc_phase w \<noteq> WBackoff; wc_phase w' \<noteq> WBackoff; wc_backoff w' = INITIAL_BACKOFF\<rbrakk>
   \<Longrightarrow> moves w w' (map WSent ps @ [Ready])"
  unfolding moves_def by (rule exI [of _ GetReady]) (auto simp: follows_def plain_sent)

lemma moves_wake:
  "\<lbrakk>wc_phase w = WBackoff; wc_phase w' \<noteq> WBackoff; wc_backoff w' = next_backoff (wc_backoff w)\<rbrakk>
   \<Longrightarrow> moves w w' []"
  unfolding moves_def by (rule exI [of _ WakeUp]) (simp add: follows_def)

lemma goto_moves:
  "\<lbrakk>goto w ph = (w', out, None); ph \<noteq> WBackoff; wc_phase w \<noteq> WBackoff\<rbrakk> \<Longrightarrow> moves w w' out"
  by (auto simp: goto_def intro: moves_keep)

lemma back_off_moves:
  "\<lbrakk>back_off w = (w', out, None); wc_phase w \<noteq> WBackoff\<rbrakk> \<Longrightarrow> moves w w' out"
  by (auto simp: back_off_def intro: moves_asleep_at_once)

lemma connect_moves:
  assumes "connect_step w i = Some (w', out, None)"
  shows "moves w w' out"
proof (cases i)
  case (Registers net)
  with assms show ?thesis
    by (auto intro: moves_asleep moves_ready split: if_splits prod.splits sum.splits)
next
  case Discards
  with assms show ?thesis by (auto simp: goto_def intro: moves_keep split: if_splits)
next
  case (Connects r)
  with assms show ?thesis
    by (cases r) (auto intro: goto_moves back_off_moves split: if_splits)
qed (use assms in \<open>auto intro: goto_moves moves_wake split: if_splits\<close>)

lemma send_then_moves:
  "\<lbrakk>send_then w p net w2 = (w', out, None); wc_phase w \<noteq> WBackoff; wc_phase w2 \<noteq> WBackoff;
    wc_backoff w2 = wc_backoff w\<rbrakk> \<Longrightarrow> moves w w' out"
  by (auto simp: send_then_def end_loop_def back_off_def split: option.splits
      intro: moves_keep moves_asleep_at_once)

lemma grab_moves:
  assumes "grab_step mode w i = Some (w', out, None)"
  shows "moves w w' out"
proof (cases i)
  case (Dispatch net)
  with assms obtain pkt where "wc_phase w = WAssigned pkt" by (auto split: worker_phase.splits)
  with assms Dispatch show ?thesis
    by (auto intro!: moves_keep simp: plain_sent split: prod.splits bool.splits)
next
  case (Flush net)
  with assms have ph: "wc_phase w = WFlushing" by (simp split: if_splits)
  show ?thesis
  proof (cases "wc_lagged w"; cases "wc_notes w")
    fix f rest
    assume "\<not> wc_lagged w" "wc_notes w = f # rest"
    with Flush assms ph
    have "send_then (w\<lparr>wc_notes := rest\<rparr>) (request CantDo [f]) net (w\<lparr>wc_notes := rest\<rparr>) = (w', out, None)"
      by simp
    from send_then_moves [OF this] ph show ?thesis by (simp add: moves_def)
  qed (use Flush assms ph in \<open>auto simp: goto_def intro!: moves_keep\<close>)
next
  case (Response nxt)
  with assms show ?thesis
    by (cases "conn_recv nxt") (auto simp: end_loop_def intro: goto_moves back_off_moves
        split: if_splits option.splits)
next
  case (Wakes nxt)
  with assms show ?thesis
    by (cases "conn_recv nxt") (auto simp: end_loop_def intro: goto_moves back_off_moves
        split: if_splits option.splits)
qed (use assms in \<open>auto simp: end_loop_def intro: goto_moves send_then_moves split: if_splits\<close>)

lemma worker_step_moves:
  assumes "worker_step mode w i = (w', out, None)"
  shows "moves w w' out"
proof (cases rule: worker_step_cases [where i = i and w = w and mode = mode])
  case other
  with assms show ?thesis by (auto simp: worker_step_def intro!: moves_keep)
next
  case (connect res)
  with assms connect_moves show ?thesis by simp
next
  case (grab res)
  with assms grab_moves show ?thesis by simp
next
  case skip
  with assms show ?thesis by (simp add: moves_keep)
qed

interpretation worker_reconnect: reconnecting "worker_step mode" "worker_start reg" wc_backoff
  "\<lambda>w. wc_phase w = WBackoff" worker_slept worker_ready for mode reg
  by unfold_locales (simp_all add: worker_start_def worker_step_moves [unfolded moves_def])

text \<open>
  A worker's reconnect delays are the client's: since the connection last had its functions registered,
  it slept 100 ms, 200 ms, ..., doubling up to 30 s; connecting without registering does not reset
  them.
\<close>

theorem worker_reconnect_delays:
  assumes "run (worker_step mode) (worker_start reg) is = (w, out, None)"
  shows "let ds = sleeps_since worker_slept worker_ready [] out
    in ds = map (\<lambda>k. min (100 * 2 ^ k) 30000) [0..<length ds]"
  using worker_reconnect.delays [OF assms] unfolding delay_alt Let_def by blast

theorem worker_reconnect_delays_witness:
  "\<exists>w out. run (worker_step Uniq) (worker_start one_fn)
      [Begin, Connects (Inl (Io (OsError 111))), BackoffEnds, Begin, Connects (Inl (Io (OsError 111)))]
      = (w, out, None) \<and> sleeps_since worker_slept worker_ready [] out = [100, 200]"
proof -
  obtain w out where run: "run (worker_step Uniq) (worker_start one_fn)
      [Begin, Connects (Inl (Io (OsError 111))), BackoffEnds, Begin, Connects (Inl (Io (OsError 111)))]
      = (w, out, None)" and "length (sleeps_since worker_slept worker_ready [] out) = 2"
    by (simp add: worker_eval)
  moreover have "[0..<2] = [0, 1 :: nat]" by (simp add: upt_rec)
  ultimately show ?thesis using worker_reconnect_delays [OF run] run by (simp add: Let_def)
qed

end
