(* ===== verification/Whole_Job.thy ===== *)
theory Whole_Job
  imports Client Worker
begin

text \<open>
  One job through the client, the server and the worker. The server (gearmand) is not part of the
  program; what is used of it is documented: it assigns a submitted job with the function, unique id
  and payload of the submission under a handle of its own, and passes the worker's \<^verbatim>\<open>WORK_*\<close> packets
  on to the client with their arguments unchanged.
\<close>

section \<open>The server's part\<close>

definition assigns :: "bytes \<Rightarrow> packet \<Rightarrow> packet" where
  "assigns h q = response JobAssignUniq [h, args q ! 0, args q ! 1, args q ! 2]"

definition relay :: "packet \<Rightarrow> packet" where
  "relay p = p\<lparr>magic := Res\<rparr>"

text \<open>A packet sent by one end of a connection and read by the other.\<close>

definition carried :: "packet \<Rightarrow> packet option" where
  "carried p =
     (case encode codec_new p [] of
        (Inr _, wire) \<Rightarrow> (case decode codec_new wire of (Inr (Some q), []) \<Rightarrow> Some q | _ \<Rightarrow> None)
      | (Inl _, _) \<Rightarrow> None)"

lemma carried_sendable: "sendable codec_new p \<Longrightarrow> carried p = Some p"
  using decode_encoded [of codec_new p "[]"] encode_encodable [of codec_new p "[]"]
  by (simp add: carried_def sendable_def)

lemma sendable_relay [simp]: "sendable c (relay p) = sendable c p"
  by (simp add: relay_def sendable_def encodable_def encoded_body_len_def)

section \<open>Events\<close>

fun report_event :: "report \<Rightarrow> job_event" where
  "report_event (ReportStatus n d) = Status n d"
| "report_event (SendData d) = Data d"
| "report_event (Warn d) = Warning d"

fun result_event :: "work_error + bytes \<Rightarrow> job_event" where
  "result_event (Inr payload) = Complete payload"
| "result_event (Inl WorkFailed) = Fail"
| "result_event (Inl (WorkRaised payload)) = Exception payload"

lemma work_event_report: "work_event (relay (report_packet h r)) = Some (report_event r)"
  by (cases r) (simp_all add: work_event_def relay_def request_def arg_u64_dec arg_def arg_or_empty_def)

lemma work_event_response: "work_event (relay (response_packet h res)) = Some (result_event res)"
  by (cases res rule: result_event.cases)
    (simp_all add: work_event_def relay_def request_def arg_def arg_or_empty_def response_packet_def)

lemma separable_reports:
  "nul_free h \<Longrightarrow> separable (args (report_packet h r))"
  "nul_free h \<Longrightarrow> separable (args (response_packet h res))"
  by (cases r; simp add: separable_def request_def)
    (cases res rule: result_event.cases; simp add: separable_def request_def response_packet_def)

lemma await_job_reports: "await_job handle (map report_event rs @ es) = await_job handle es"
proof (induction rs)
  case (Cons r rs)
  then show ?case by (cases r) simp_all
qed simp

section \<open>The client's actor\<close>

definition subscribed :: "chan \<Rightarrow> handle_subscribers" where
  "subscribed ch = add subscribers_default ch"

lemma deliver_subscribed:
  "deliver (subscribed ch) event terminal =
     (if terminal then (False, subscribers_default, [(ch, event)]) else (True, subscribed ch, [(ch, event)]))"
  by (simp add: deliver_def subscribed_def add_def subscribers_default_def swap_remove_def)

lemma arg_str_reports:
  "utf8_valid h \<Longrightarrow> arg_str (relay (report_packet h r)) 0 = Some h"
  "utf8_valid h \<Longrightarrow> arg_str (relay (response_packet h res)) 0 = Some h"
  using report_packet_shape(2) [of h r] response_packet_shape(2) [of h res]
  by (auto simp: arg_str_def arg_def relay_def split: if_splits)

lemma ptype_relay [simp]: "ptype (relay p) = ptype p"
  by (simp add: relay_def)

lemma received_report:
  assumes "job_events a h = Some (subscribed ch)" and "utf8_valid h"
  shows "actor_step a (Received (Some (Inr (relay (report_packet h r))))) = (a, [Event ch (report_event r)], None)"
proof -
  have "ptype (report_packet h r) \<in> {WorkStatus, WorkData, WorkWarning}"
    using report_packet_shape(3) [of h r] by (simp add: progress_type_def)
  with assms show ?thesis
    by (auto simp: conn_recv_def handle_incoming_def dispatch_work_event_def arg_str_reports
        work_event_report deliver_subscribed fun_upd_idem)
qed

lemma received_response:
  assumes "job_events a h = Some (subscribed ch)" and "utf8_valid h"
  shows "actor_step a (Received (Some (Inr (relay (response_packet h res)))))
    = (a\<lparr>job_events := (job_events a)(h := None)\<rparr>, [Event ch (result_event res)], None)"
proof -
  have "ptype (response_packet h res) \<in> {WorkComplete, WorkFail, WorkException}"
    using response_packet_shape(1) [of h res] by (simp add: terminal_type_def)
  with assms show ?thesis
    by (auto simp: conn_recv_def handle_incoming_def dispatch_work_event_def arg_str_reports
        work_event_response deliver_subscribed)
qed

lemma run_reports:
  assumes "job_events a h = Some (subscribed ch)" and "utf8_valid h"
  shows "run actor_step a (map (\<lambda>p. Received (Some (Inr (relay p)))) (map (report_packet h) rs @ [response_packet h res]))
    = (a\<lparr>job_events := (job_events a)(h := None)\<rparr>,
       map (Event ch) (map report_event rs @ [result_event res]), None)"
  by (induction rs) (simp_all del: actor_step.simps add: received_report [OF assms] received_response [OF assms]
      fun_upd_def)

text \<open>A submission, its \<^verbatim>\<open>JOB_CREATED\<close>, and the job's packets, on an actor with no request in flight.\<close>

lemma run_submission:
  assumes "pending_replies a = []" and "job_events a h = None" and "utf8_valid h" and "encodable codec_new q"
  shows "run actor_step a
      ([Command (CmdSubmit q oneshot (Some ch)) (Inr ()), Received (Some (Inr (response JobCreated [h])))]
        @ map (\<lambda>p. Received (Some (Inr (relay p)))) (map (report_packet h) rs @ [response_packet h res]))
    = (a, Sent q # Reply oneshot (HandleReply (Inr h)) # map (Event ch) (map report_event rs @ [result_event res]),
       None)"
proof -
  let ?a = "a\<lparr>job_events := (job_events a)(h \<mapsto> subscribed ch)\<rparr>"
  have "send_error q (Inr ()) = None" using assms(4) by (simp add: send_error_None)
  moreover have "arg_str_or_empty (response JobCreated [h]) 0 = h"
    using assms(3) by (simp add: arg_str_or_empty_def arg_str_def arg_def)
  ultimately have "run actor_step a [Command (CmdSubmit q oneshot (Some ch)) (Inr ()),
      Received (Some (Inr (response JobCreated [h])))]
    = (?a, [Sent q, Reply oneshot (HandleReply (Inr h))], None)"
    using assms(1,2) by (simp add: conn_recv_def handle_incoming_def Let_def subscribed_def)
  moreover have "?a\<lparr>job_events := (job_events ?a)(h := None)\<rparr> = a"
    using assms(2) by (simp add: fun_upd_idem)
  ultimately show ?thesis
    using run_reports [of ?a h ch rs res] assms(3) by (simp only: run_append) simp
qed

section \<open>End to end\<close>

lemma dispatch_known:
  assumes "job_of a = job" and "map_of reg (wj_function job) = Some rh"
    and "rh_handler rh job = (reports, Returns res)" and "h = wj_handle job"
    and fits: "\<forall>p \<in> set (map (report_packet h) reports @ [response_packet h res]). encodable codec_new p"
  shows "dispatch_job (\<lambda>_. Inr ()) reg a = (map (report_packet h) reports @ [response_packet h res], True)"
proof -
  have "dispatch_packets reg a = (map (report_packet h) reports @ [response_packet h res], True)"
    using assms(1-4) by (simp add: dispatch_packets_def Let_def)
  then show ?thesis
    using send_ignoring_all [OF fits, of "\<lambda>_. Inr ()" 0] by (simp add: dispatch_job_def)
qed

lemma dispatch_assigned:
  assumes "utf8_valid f" "utf8_valid u" "utf8_valid h" and "map_of reg f = Some rh"
    and "rh_handler rh \<lparr>wj_handle = h, wj_function = f, wj_unique = Some u, wj_reducer = None,
      wj_payload = payload\<rparr> = (reports, Returns res)"
    and fits: "\<forall>p \<in> set (map (report_packet h) reports @ [response_packet h res]). encodable codec_new p"
  shows "fst (dispatch_job (\<lambda>_. Inr ()) reg (assigns h (request t [f, u, payload])))
    = map (report_packet h) reports @ [response_packet h res]"
proof -
  let ?job = "\<lparr>wj_handle = h, wj_function = f, wj_unique = Some u, wj_reducer = None, wj_payload = payload\<rparr>"
  have "job_of (assigns h (request t [f, u, payload])) = ?job"
    using assms(1-3) by (simp add: job_of_def assigns_def arg_str_or_empty_def arg_or_empty_def
        arg_str_def arg_def)
  from dispatch_known [OF this _ assms(5) _ fits] assms(4) show ?thesis by simp
qed

lemma relayed_carried:
  "\<lbrakk>nul_free h; \<forall>p \<in> set (map (report_packet h) rs @ [response_packet h res]). encodable codec_new p\<rbrakk>
   \<Longrightarrow> map (\<lambda>p. Received (map_option Inr (carried (relay p)))) (map (report_packet h) rs @ [response_packet h res])
     = map (\<lambda>p. Received (Some (Inr (relay p)))) (map (report_packet h) rs @ [response_packet h res])"
proof -
  assume h: "nul_free h" and fits: "\<forall>p \<in> set (map (report_packet h) rs @ [response_packet h res]). encodable codec_new p"
  have ok: "\<forall>p \<in> set (map (report_packet h) rs @ [response_packet h res]). carried (relay p) = Some (relay p)"
    using fits separable_reports [OF h] by (auto simp: sendable_def [of codec_new] intro!: carried_sendable)
  show ?thesis by (rule map_cong [OF refl]) (simp only: ok [rule_format] option.map)
qed

text \<open>
  A job through the whole system. A client submits a foreground job, with any priority, for a
  function that a worker has registered; the server reads the submission, acknowledges it and
  assigns it; the worker reads the assignment, runs the handler on exactly the submitted function,
  unique id and payload, and sends its reports and its result; the server passes them on, and the
  client's connection actor takes them in. Then the actor has sent the submission, answered the call
  with the job's handle and put exactly the handler's reports and its end, in order, on the job's
  event stream, keeping nothing behind; and the blocking call returns exactly the handler's result:
  its payload, \<^verbatim>\<open>JobFailed\<close>, or \<^verbatim>\<open>JobException\<close> with the payload raised.
\<close>

theorem job_end_to_end:
  assumes f: "nul_free f" "utf8_valid f" and u: "nul_free (unique_arg unique)" "utf8_valid (unique_arg unique)"
    and h: "nul_free h" "utf8_valid h"
    and len: "length h + length f + length (unique_arg unique) + length payload + 24 \<le> 0x4000000"
    and cmd: "(i, cmd) \<in> set (fst (snd (submit md5 pool c f unique payload opts)))" "\<not> so_background opts"
    and act: "pending_replies act = []" "job_events act h = None"
    and run: "map_of reg f = Some rh"
      "rh_handler rh \<lparr>wj_handle = h, wj_function = f, wj_unique = Some (unique_arg unique),
         wj_reducer = None, wj_payload = payload\<rparr> = (reports, Returns res)"
    and fits: "\<forall>p \<in> set (map (report_packet h) reports @ [response_packet h res]). encodable codec_new p"
  shows "\<exists>q a events. carried (cmd_packet cmd) = Some q \<and> carried (assigns h q) = Some a
     \<and> run actor_step act
         ([Command cmd (Inr ()), Received (map_option Inr (carried (response JobCreated [h])))]
           @ map (\<lambda>p. Received (map_option Inr (carried (relay p)))) (fst (dispatch_job (\<lambda>_. Inr ()) reg a)))
         = (act, Sent q # Reply (c_oneshot c) (HandleReply (Inr h)) # map (Event (c_chan c)) events, None)
     \<and> events = map report_event reports @ [result_event res]
     \<and> await_job h events = (case res of
          Inr r \<Rightarrow> Inr r
        | Inl WorkFailed \<Rightarrow> Inl (JobFailed h)
        | Inl (WorkRaised r) \<Rightarrow> Inl (JobException h r))"
proof -
  let ?q = "request (submit_packet_type (so_priority opts) (so_background opts)) [f, unique_arg unique, payload]"
  let ?a = "assigns h ?q"
  let ?ps = "map (report_packet h) reports @ [response_packet h res]"
  obtain pool' cmds r where s: "submit md5 pool c f unique payload opts = (pool', cmds, r)"
    by (cases "submit md5 pool c f unique payload opts")
  have c: "cmd = CmdSubmit ?q (c_oneshot c) (Some (c_chan c))"
    using submit_packet_sends [OF s [unfolded submit_def]] cmd s by auto
  have sq: "sendable codec_new ?q"
    using f u len by (simp add: sendable_def encodable_def submit_packet_type_args body_len_request)
  have "sendable codec_new ?a" "sendable codec_new (response JobCreated [h])"
    using f u h len by (simp_all add: assigns_def sendable_def encodable_def encoded_body_len_def)
  then have a: "carried ?a = Some ?a" "carried (response JobCreated [h]) = Some (response JobCreated [h])"
    by (simp_all only: carried_sendable)
  have sent: "fst (dispatch_job (\<lambda>_. Inr ()) reg ?a) = ?ps"
    by (rule dispatch_assigned [OF f(2) u(2) h(2) run fits])
  have out: "run actor_step act
         ([Command cmd (Inr ()), Received (map_option Inr (carried (response JobCreated [h])))]
           @ map (\<lambda>p. Received (map_option Inr (carried (relay p)))) ?ps)
         = (act, Sent ?q # Reply (c_oneshot c) (HandleReply (Inr h))
             # map (Event (c_chan c)) (map report_event reports @ [result_event res]), None)"
    using run_submission [OF act h(2), of ?q "c_oneshot c" "c_chan c" reports res] sq a(2)
    by (simp only: c sendable_def option.map relayed_carried [OF h(1) fits])
  have "await_job h (map report_event reports @ [result_event res]) = (case res of
          Inr r \<Rightarrow> Inr r | Inl WorkFailed \<Rightarrow> Inl (JobFailed h) | Inl (WorkRaised r) \<Rightarrow> Inl (JobException h r))"
    unfolding await_job_reports by (cases res rule: result_event.cases) simp_all
  with carried_sendable [OF sq] a(1) sent out c show ?thesis
    by (intro exI [of _ ?q] exI [of _ ?a] exI [of _ "map report_event reports @ [result_event res]"])
      (simp only: cmd_packet.simps)
qed

theorem job_end_to_end_witness:
  "\<exists>q a. carried (request SubmitJob [[102], [117], [1, 2, 0]]) = Some q \<and> carried (assigns [72] q) = Some a
     \<and> run actor_step actor_start
         ([Command (CmdSubmit (request SubmitJob [[102], [117], [1, 2, 0]]) 4 (Some 7)) (Inr ()),
           Received (map_option Inr (carried (response JobCreated [[72]])))]
          @ map (\<lambda>p. Received (map_option Inr (carried (relay p))))
              (fst (dispatch_job (\<lambda>_. Inr ()) [([102], reverse_fn)] a)))
       = (actor_start, [Sent q, Reply 4 (HandleReply (Inr [72])), Event 7 (Status 1 2), Event 7 (Complete [0, 2, 1])], None)
     \<and> await_job [72] [Status 1 2, Complete [0, 2, 1]] = Inr [0, 2, 1]"
proof -
  let ?s = "submit toy_md5 one_server (some_call None) [102] (Some [117]) [1, 2, 0] foreground"
  have cmd: "(0, CmdSubmit (request SubmitJob [[102], [117], [1, 2, 0]]) 4 (Some 7)) \<in> set (fst (snd ?s))"
    by (simp add: submit_def submit_packet_def one_server_select some_call_def foreground_def
        submit_options_default_def submit_packet_type_def unique_arg_def Let_def)
  have idle: "pending_replies actor_start = []" "job_events actor_start [72] = None"
    by (simp_all add: actor_start_def)
  have call: "c_oneshot (some_call None) = 4" "c_chan (some_call None) = 7" by (simp_all add: some_call_def)
  from job_end_to_end [OF _ _ _ _ _ _ _ cmd _ idle, of "[([102], reverse_fn)]" reverse_fn
      "[ReportStatus 1 2]" "Inr [0, 2, 1]"]
  show ?thesis
    by (simp del: run.simps actor_step.simps add: unique_arg_def reverse_fn_def encodable_def request_def
        encoded_body_len_def response_packet_def dec.simps foreground_def submit_options_default_def call)
qed

end
