(* ===== verification/Whole_System.thy ===== *)
theory Whole_System
  imports Whole_Job
begin

text \<open>
  One job through the two tasks that carry it: the client's server task (\<^verbatim>\<open>run_server_actor\<close>) and the
  worker's grab-loop task (\<^verbatim>\<open>run_grab_loop\<close>), in each grab mode. The server's part is that of
  Whole_Job, with the three forms of assignment.
\<close>

section \<open>Assignments\<close>

text \<open>
  What gearmand answers \<^verbatim>\<open>GRAB_JOB_UNIQ\<close>, \<^verbatim>\<open>GRAB_JOB\<close> and \<^verbatim>\<open>GRAB_JOB_ALL\<close> with, as \<^verbatim>\<open>GrabMode\<close>
  documents it: \<^verbatim>\<open>JOB_ASSIGN_ALL\<close> comes only for a job that has a reducer, and one from \<^verbatim>\<open>submit\<close> has
  none.
\<close>

fun assigns_for :: "grab_mode \<Rightarrow> bytes \<Rightarrow> packet \<Rightarrow> packet" where
  "assigns_for Uniq h q = assigns h q"
| "assigns_for PlainGrab h q = response JobAssign [h, args q ! 0, args q ! 2]"
| "assigns_for AllGrab h q = assigns h q"

text \<open>The job that the handler is to see.\<close>

definition job_for :: "grab_mode \<Rightarrow> bytes \<Rightarrow> bytes \<Rightarrow> bytes \<Rightarrow> bytes \<Rightarrow> worker_job" where
  "job_for mode h f u payload =
     \<lparr>wj_handle = h, wj_function = f,
      wj_unique = (if mode = PlainGrab then None else Some u),
      wj_reducer = None, wj_payload = payload\<rparr>"

lemma job_of_assigned_for:
  "\<lbrakk>utf8_valid f; utf8_valid u; utf8_valid h\<rbrakk>
    \<Longrightarrow> job_of (assigns_for mode h (request t [f, u, payload])) = job_for mode h f u payload"
  by (cases mode) (simp_all add: job_of_def assigns_def job_for_def arg_str_or_empty_def arg_or_empty_def
      arg_str_def arg_def)

lemma assigned_for_type:
  "ptype (assigns_for mode h q) \<in> {JobAssign, JobAssignUniq, JobAssignAll}"
  by (cases mode) (simp_all add: assigns_def)

lemma assigned_for_carried:
  assumes "nul_free f" "nul_free u" "nul_free h"
    and "length h + length f + length u + length payload + 24 \<le> 0x4000000"
  shows "carried (assigns_for mode h (request t [f, u, payload])) = Some (assigns_for mode h (request t [f, u, payload]))"
proof (rule carried_sendable)
  show "sendable codec_new (assigns_for mode h (request t [f, u, payload]))"
    using assms by (cases mode) (simp_all add: assigns_def sendable_def encodable_def encoded_body_len_def separable_def)
qed

section \<open>The tasks\<close>

text \<open>The worker's task on a connection that works: one turn of its grab loop.\<close>

lemma worker_serves:
  assumes w: "wc_phase w = WTop" "\<not> wc_shutdown w" "wc_notes w = []" "\<not> wc_lagged w"
    and a: "ptype a \<in> {JobAssign, JobAssignUniq, JobAssignAll}"
    and d: "dispatch_job net (wc_registry w) a = (packets, True)"
  shows "run (worker_step mode) w
      [AtTop, Flush (Inr ()), Grab (Inr ()), Response (Some (Inr a)), Dispatch net]
    = (w, WSent (request (grab_type mode) []) # map WSent packets, None)"
proof -
  have "send_error (request (grab_type mode) []) (Inr ()) = None"
    by (cases mode) (simp_all add: send_error_None encodable_def request_def encoded_body_len_def grab_type_def)
  with assms show ?thesis by (auto simp: step_defs conn_recv_def)
qed

text \<open>The client's server task, inside its actor loop, follows the actor.\<close>

lemma server_follows_actor:
  "\<lbrakk>sv_phase s = Looping a; run actor_step a (map Received nxts) = (a', out, None)\<rbrakk>
    \<Longrightarrow> run (server_step we) s (map LoopReceived nxts) = (s\<lparr>sv_phase := Looping a'\<rparr>, map Out out, None)"
proof (induction nxts arbitrary: s a out)
  case (Cons nxt nxts)
  from Cons.prems(2) obtain b out1 out2 where one: "actor_step a (Received nxt) = (b, out1, None)"
    and rest: "run actor_step b (map Received nxts) = (a', out2, None)" and out: "out = out1 @ out2"
    by (auto simp del: actor_step.simps split: prod.splits option.splits)
  have "server_step we s (LoopReceived nxt) = (s\<lparr>sv_phase := Looping b\<rparr>, map Out out1, None)"
    using Cons.prems(1) one by (simp add: loop_turn_def del: actor_step.simps)
  with Cons.IH [of "s\<lparr>sv_phase := Looping b\<rparr>" b out2] rest out show ?case by simp
next
  case Nil
  then have "s\<lparr>sv_phase := Looping a\<rparr> = s" by (cases s) simp
  with Nil show ?case by simp
qed

lemma server_follows_submission:
  assumes s: "sv_phase s = Looping a" "sv_queue s = []"
    and run: "run actor_step a (Command cmd net # map Received nxts) = (a', out, None)"
  shows "run (server_step we) s (Enqueue cmd # LoopCommand net # map LoopReceived nxts)
    = (s\<lparr>sv_phase := Looping a'\<rparr>, map Out out, None)"
proof -
  from run obtain b out1 out2 where one: "actor_step a (Command cmd net) = (b, out1, None)"
    and rest: "run actor_step b (map Received nxts) = (a', out2, None)" and out: "out = out1 @ out2"
    by (auto simp del: actor_step.simps split: prod.splits option.splits)
  have "s\<lparr>sv_queue := []\<rparr> = s" using s(2) by (cases s) simp
  with s one have "run (server_step we) s [Enqueue cmd, LoopCommand net] = (s\<lparr>sv_phase := Looping b\<rparr>, map Out out1, None)"
    by (simp add: loop_turn_def del: actor_step.simps)
  with server_follows_actor [of "s\<lparr>sv_phase := Looping b\<rparr>" b nxts a' out2 we] rest out
  show ?thesis using run_append [of "server_step we" s "[Enqueue cmd, LoopCommand net]" "map LoopReceived nxts"]
    by simp
qed

text \<open>
  C2. A job through the tasks. A client whose server task is inside its actor loop submits a foreground job,
  with any priority; a worker's task at the top of its grab loop, in any of the three grab modes,
  takes one turn; and between them gearmand acknowledges the submission, assigns the job and passes
  the worker's packets on. Then the worker's task has sent the grab of its mode, run the handler on
  exactly the submitted function and payload, the unique id unless the mode is \<^verbatim>\<open>GRAB_JOB\<close>, and no
  reducer, sent the handler's reports and result, and is back where it was; the client's task has
  written the submission, answered the call with the job's handle, put exactly the handler's reports
  and its end on the job's stream, in order, and is back where it was; and the blocking call returns
  exactly the handler's result.
\<close>

theorem job_through_tasks:
  assumes f: "nul_free f" "utf8_valid f" and u: "nul_free (unique_arg unique)" "utf8_valid (unique_arg unique)"
    and h: "nul_free h" "utf8_valid h"
    and len: "length h + length f + length (unique_arg unique) + length payload + 24 \<le> 0x4000000"
    and cmd: "(i, cmd) \<in> set (fst (snd (submit md5 pool c f unique payload opts)))" "\<not> so_background opts"
    and s: "sv_phase s = Looping act" "sv_queue s = []" "pending_replies act = []" "job_events act h = None"
    and w: "wc_phase w = WTop" "\<not> wc_shutdown w" "wc_notes w = []" "\<not> wc_lagged w"
    and run: "map_of (wc_registry w) f = Some rh"
      "rh_handler rh (job_for mode h f (unique_arg unique) payload) = (reports, Returns res)"
    and fits: "\<forall>p \<in> set (map (report_packet h) reports @ [response_packet h res]). encodable codec_new p"
  shows "\<exists>q a packets. carried (cmd_packet cmd) = Some q \<and> carried (assigns_for mode h q) = Some a
     \<and> run (worker_step mode) w
         [AtTop, Flush (Inr ()), Grab (Inr ()), Response (Some (Inr a)), Dispatch (\<lambda>_. Inr ())]
       = (w, WSent (request (grab_type mode) []) # map WSent packets, None)
     \<and> run (server_step we) s
         ([Enqueue cmd, LoopCommand (Inr ())]
           @ map (\<lambda>p. LoopReceived (map_option Inr (carried p))) (response JobCreated [h] # map relay packets))
       = (s, map Out (Sent q # Reply (c_oneshot c) (HandleReply (Inr h))
               # map (Event (c_chan c)) (map report_event reports @ [result_event res])), None)
     \<and> await_job h (map report_event reports @ [result_event res]) = (case res of
          Inr r \<Rightarrow> Inr r
        | Inl WorkFailed \<Rightarrow> Inl (JobFailed h)
        | Inl (WorkRaised r) \<Rightarrow> Inl (JobException h r))"
proof -
  let ?q = "request (submit_packet_type (so_priority opts) (so_background opts)) [f, unique_arg unique, payload]"
  let ?a = "assigns_for mode h ?q"
  let ?ps = "map (report_packet h) reports @ [response_packet h res]"
  let ?nxts = "map (\<lambda>p. map_option Inr (carried p)) (response JobCreated [h] # map relay ?ps)"
  obtain pool' cmds r where sub: "submit md5 pool c f unique payload opts = (pool', cmds, r)"
    by (cases "submit md5 pool c f unique payload opts")
  have c: "cmd = CmdSubmit ?q (c_oneshot c) (Some (c_chan c))"
    using submit_packet_sends [OF sub [unfolded submit_def]] cmd sub by auto
  have sq: "sendable codec_new ?q"
    using f u len by (simp add: sendable_def encodable_def submit_packet_type_args body_len_request)
  have "sendable codec_new (response JobCreated [h])"
    using h len by (simp add: sendable_def encodable_def encoded_body_len_def)
  then have created: "carried (response JobCreated [h]) = Some (response JobCreated [h])" by (rule carried_sendable)
  have a: "carried ?a = Some ?a" using f u h len by (intro assigned_for_carried) simp_all
  have job: "job_of ?a = job_for mode h f (unique_arg unique) payload"
    by (rule job_of_assigned_for [OF f(2) u(2) h(2)])
  have d: "dispatch_job (\<lambda>_. Inr ()) (wc_registry w) ?a = (?ps, True)"
    by (rule dispatch_known [OF job _ run(2) _ fits]) (simp_all add: job_for_def run(1))
  note worker = worker_serves [OF w assigned_for_type d, of mode]
  have acked: "map Received ?nxts
      = Received (Some (Inr (response JobCreated [h]))) # map (\<lambda>p. Received (Some (Inr (relay p)))) ?ps"
    using relayed_carried [OF h(1) fits] created by (simp add: comp_def del: map_append)
  have "run actor_step act (Command cmd (Inr ()) # map Received ?nxts)
      = (act, Sent ?q # Reply (c_oneshot c) (HandleReply (Inr h))
          # map (Event (c_chan c)) (map report_event reports @ [result_event res]), None)"
    unfolding acked c using run_submission [OF s(3,4) h(2), of ?q "c_oneshot c" "c_chan c" reports res] sq
    by (simp only: sendable_def append_Cons append_Nil)
  from server_follows_submission [OF s(1,2) this, of we]
  have client: "run (server_step we) s
         ([Enqueue cmd, LoopCommand (Inr ())]
           @ map (\<lambda>p. LoopReceived (map_option Inr (carried p))) (response JobCreated [h] # map relay ?ps))
       = (s, map Out (Sent ?q # Reply (c_oneshot c) (HandleReply (Inr h))
               # map (Event (c_chan c)) (map report_event reports @ [result_event res])), None)"
    using s(1) by (simp only: map_map comp_def append_Cons append_Nil) simp
  have "await_job h (map report_event reports @ [result_event res]) = (case res of
          Inr r \<Rightarrow> Inr r | Inl WorkFailed \<Rightarrow> Inl (JobFailed h) | Inl (WorkRaised r) \<Rightarrow> Inl (JobException h r))"
    unfolding await_job_reports by (cases res rule: result_event.cases) simp_all
  with carried_sendable [OF sq] a worker client c show ?thesis
    by (intro exI [of _ ?q] exI [of _ ?a] exI [of _ ?ps]) (simp only: cmd_packet.simps simp_thms)
qed

text \<open>A client task just connected, and a worker task that has registered a function.\<close>

definition client_up :: server where
  "client_up = enter_loop server_start"

definition worker_up :: worker_conn where
  "worker_up = (worker_start [([102], reverse_fn)])\<lparr>wc_phase := WTop\<rparr>"

theorem job_through_tasks_witness:
  "\<exists>q a packets. carried (request SubmitJob [[102], [117], [1, 2, 0]]) = Some q \<and> carried (assigns_for AllGrab [72] q) = Some a
     \<and> run (worker_step AllGrab) worker_up
         [AtTop, Flush (Inr ()), Grab (Inr ()), Response (Some (Inr a)), Dispatch (\<lambda>_. Inr ())]
       = (worker_up, WSent (request GrabJobAll []) # map WSent packets, None)
     \<and> fst (snd (run (server_step True) client_up
         ([Enqueue (CmdSubmit (request SubmitJob [[102], [117], [1, 2, 0]]) 4 (Some 7)), LoopCommand (Inr ())]
           @ map (\<lambda>p. LoopReceived (map_option Inr (carried p))) (response JobCreated [[72]] # map relay packets))))
       = map Out [Sent q, Reply 4 (HandleReply (Inr [72])), Event 7 (Status 1 2), Event 7 (Complete [0, 2, 1])]"
proof -
  let ?s = "submit toy_md5 one_server (some_call None) [102] (Some [117]) [1, 2, 0] foreground"
  have cmd: "(0, CmdSubmit (request SubmitJob [[102], [117], [1, 2, 0]]) 4 (Some 7)) \<in> set (fst (snd ?s))"
    by (simp add: submit_def submit_packet_def one_server_select some_call_def foreground_def
        submit_options_default_def submit_packet_type_def unique_arg_def Let_def)
  have idle: "sv_phase client_up = Looping actor_start" "sv_queue client_up = []"
    "pending_replies actor_start = []" "job_events actor_start [72] = None"
    "wc_phase worker_up = WTop" "\<not> wc_shutdown worker_up" "wc_notes worker_up = []" "\<not> wc_lagged worker_up"
    "map_of (wc_registry worker_up) [102] = Some reverse_fn"
    by (simp_all add: actor_start_def client_up_def enter_loop_def server_start_def worker_up_def worker_start_def)
  have call: "c_oneshot (some_call None) = 4" "c_chan (some_call None) = 7" by (simp_all add: some_call_def)
  from job_through_tasks [OF _ _ _ _ _ _ _ cmd _ idle, of AllGrab "[ReportStatus 1 2]" "Inr [0, 2, 1]" True]
  show ?thesis
    by (simp del: run.simps actor_step.simps server_step.simps add: unique_arg_def reverse_fn_def encodable_def request_def
        encoded_body_len_def response_packet_def dec.simps foreground_def submit_options_default_def call job_for_def
        grab_type_def) fastforce
qed

end
