(* ===== verification/Server_Queue.thy ===== *)
theory Server_Queue
  imports Server_Actor
begin

text \<open>
  The command channel of a server task while there is no connection: what was sent in the meantime is
  written on the next connection, in order.
\<close>

section \<open>Inputs of a connection that comes up\<close>

text \<open>From each phase outside the loop: the sleep ends, connecting succeeds, and the handshake too.\<close>

definition handshake :: "bool \<Rightarrow> server_input list" where
  "handshake we = (if we then [NegotiateDone (Inr ()) (Some (Inr (response OptionRes [ascii ''exceptions''])))] else [])"

definition comes_up :: "bool \<Rightarrow> phase \<Rightarrow> server_input list" where
  "comes_up we ph =
     (case ph of
        Sleeping \<Rightarrow> Woken # ConnectDone (Inr ()) # handshake we
      | Connecting \<Rightarrow> ConnectDone (Inr ()) # handshake we
      | Negotiating \<Rightarrow> handshake True
      | _ \<Rightarrow> [])"

lemma negotiates: "negotiate_exceptions (Inr ()) (Some (Inr (response OptionRes [ascii ''exceptions''])))
    = ([request OptionReq [ascii ''exceptions'']], Inr True)"
proof -
  have "send_error (request OptionReq [ascii ''exceptions'']) (Inr ()) = None"
    by (simp add: send_error_None encodable_def request_def encoded_body_len_def)
  then show ?thesis by (simp add: negotiate_exceptions_def conn_recv_def Let_def)
qed

text \<open>The task ends up in a fresh actor loop with the same queue.\<close>

lemma run_comes_up:
  assumes "sv_phase s \<in> {Sleeping, Connecting, Negotiating}"
  obtains s' out where "run (server_step we) s (comes_up we (sv_phase s)) = (s', out, None)"
    and "sv_phase s' = Looping actor_start" "sv_queue s' = sv_queue s" "actor_outputs out = []"
proof -
  have "\<exists>s' out. run (server_step we) s (comes_up we (sv_phase s)) = (s', out, None)
      \<and> sv_phase s' = Looping actor_start \<and> sv_queue s' = sv_queue s \<and> actor_outputs out = []"
    using assms negotiates by (auto simp: comes_up_def handshake_def enter_loop_def)
  with that show thesis by blast
qed

section \<open>Draining the queue\<close>

lemma run_drains:
  "\<lbrakk>sv_phase s = Looping a; \<forall>c \<in> set (sv_queue s). encodable codec_new (cmd_packet c)\<rbrakk> \<Longrightarrow>
   run (server_step we) s (replicate (length (sv_queue s)) (LoopCommand (Inr ())))
     = (s\<lparr>sv_queue := [], sv_phase := Looping (a\<lparr>pending_replies := pending_replies a @ map cmd_pending (sv_queue s)\<rparr>)\<rparr>,
        map (\<lambda>c. Out (Sent (cmd_packet c))) (sv_queue s), None)"
proof (induction "sv_queue s" arbitrary: s a)
  case Nil
  then show ?case by (cases s; cases a) simp
next
  case (Cons c cs)
  let ?b = "a\<lparr>pending_replies := pending_replies a @ [cmd_pending c]\<rparr>"
  let ?t = "s\<lparr>sv_queue := cs, sv_phase := Looping ?b\<rparr>"
  have queue: "sv_queue s = c # cs" using Cons.hyps(2) by simp
  then have "send_error (cmd_packet c) (Inr ()) = None" using Cons.prems(2) by (simp add: send_error_None)
  then have "server_step we s (LoopCommand (Inr ())) = (?t, [Out (Sent (cmd_packet c))], None)"
    using Cons.prems(1) queue by (simp add: loop_turn_def actor_step_command)
  moreover have "run (server_step we) ?t (replicate (length cs) (LoopCommand (Inr ())))
      = (?t\<lparr>sv_queue := [], sv_phase := Looping (?b\<lparr>pending_replies := pending_replies ?b @ map cmd_pending cs\<rparr>)\<rparr>,
         map (\<lambda>c. Out (Sent (cmd_packet c))) cs, None)"
    using Cons.hyps(1) [of ?t ?b] Cons.prems(2) queue by simp
  ultimately show ?case using queue by simp
qed

lemma actor_outputs_sent: "actor_outputs (map (\<lambda>c. Out (Sent (cmd_packet c))) cs) = map (\<lambda>c. Sent (cmd_packet c)) cs"
  by (induction cs) simp_all

lemma sent_map: "sent (map (\<lambda>c. Sent (cmd_packet c)) cs) = map cmd_packet cs"
  by (induction cs) simp_all

text \<open>
  C30. What was asked while the server was away is asked when it is back. Take a server task outside its
  actor loop - asleep after a loss or a failed attempt, connecting or in its handshake - with any
  commands waiting in its channel and more arriving then. When a connection comes up, the task writes
  out the packets of all these commands, each once and in the order in which the calls were made,
  nothing else between them, and it waits for their replies in that order.
\<close>

theorem queue_sent_on_reconnect:
  assumes "sv_phase s \<in> {Sleeping, Connecting, Negotiating}"
    and "\<forall>c \<in> set (sv_queue s @ later). encodable codec_new (cmd_packet c)"
  shows "\<exists>s' out. run (server_step we) s
        (map Enqueue later @ comes_up we (sv_phase s)
          @ replicate (length (sv_queue s @ later)) (LoopCommand (Inr ()))) = (s', out, None)
      \<and> sent (actor_outputs out) = map cmd_packet (sv_queue s @ later)
      \<and> sv_queue s' = []
      \<and> sv_phase s' = Looping (actor_start\<lparr>pending_replies := map cmd_pending (sv_queue s @ later)\<rparr>)"
proof -
  have enqueue: "run (server_step we) s (map Enqueue cs) = (s\<lparr>sv_queue := sv_queue s @ cs\<rparr>, [], None)" for cs s
    by (induction cs arbitrary: s) simp_all
  let ?s = "s\<lparr>sv_queue := sv_queue s @ later\<rparr>"
  have "sv_phase ?s \<in> {Sleeping, Connecting, Negotiating}" using assms(1) by simp
  from run_comes_up [OF this, of we] obtain t out where
    up: "run (server_step we) ?s (comes_up we (sv_phase s)) = (t, out, None)"
    and t: "sv_phase t = Looping actor_start" "sv_queue t = sv_queue s @ later" "actor_outputs out = []" by auto
  let ?s' = "t\<lparr>sv_queue := [], sv_phase := Looping (actor_start\<lparr>pending_replies := map cmd_pending (sv_queue s @ later)\<rparr>)\<rparr>"
  have start: "pending_replies actor_start = []" by (simp add: actor_start_def)
  have drain: "run (server_step we) t (replicate (length (sv_queue s @ later)) (LoopCommand (Inr ())))
      = (?s', map (\<lambda>c. Out (Sent (cmd_packet c))) (sv_queue s @ later), None)"
    using run_drains [OF t(1), of we] assms(2) unfolding t(2) start by simp
  have "run (server_step we) s (map Enqueue later @ comes_up we (sv_phase s)
          @ replicate (length (sv_queue s @ later)) (LoopCommand (Inr ())))
      = (?s', out @ map (\<lambda>c. Out (Sent (cmd_packet c))) (sv_queue s @ later), None)"
    unfolding run_append enqueue using up drain by (simp only: prod.case option.case append_Nil)
  moreover have "sent (actor_outputs (out @ map (\<lambda>c. Out (Sent (cmd_packet c))) (sv_queue s @ later)))
      = map cmd_packet (sv_queue s @ later)"
    unfolding actor_outputs_append t(3) actor_outputs_sent append_Nil by (rule sent_map)
  ultimately show ?thesis by (intro exI [of _ ?s']) auto
qed

text \<open>The task of \<^const>\<open>flaky_end\<close>: one command waits, another comes.\<close>

theorem queue_sent_on_reconnect_witness:
  "\<exists>s' out. run (server_step False) flaky_end
      [Enqueue (CmdStatus (request GetStatus [[74]]) 6), ConnectDone (Inr ()), LoopCommand (Inr ()), LoopCommand (Inr ())]
      = (s', out, None)
    \<and> sent (actor_outputs out) = [request GetStatus [[73]], request GetStatus [[74]]]"
proof -
  have "sv_phase flaky_end \<in> {Sleeping, Connecting, Negotiating}" by (simp add: flaky_end_def)
  moreover have "\<forall>c \<in> set (sv_queue flaky_end @ [CmdStatus (request GetStatus [[74]]) 6]). encodable codec_new (cmd_packet c)"
    by (simp add: flaky_end_def encodable_def request_def encoded_body_len_def)
  ultimately show ?thesis
    using queue_sent_on_reconnect [of flaky_end "[CmdStatus (request GetStatus [[74]]) 6]" False]
    by (simp add: flaky_end_def comes_up_def handshake_def del: run.simps server_step.simps) fastforce
qed

end
