(* ===== verification/Actor_Streams.thy ===== *)
theory Actor_Streams
  imports Actor
begin

text \<open>
  The event streams of foreground jobs at the level of the connection actor: which handle's
  subscribers an input touches, the refinement of the actor's map of subscribers to one
  \<^verbatim>\<open>HandleSubscribers\<close> per handle, and what a submission's stream receives when many jobs, their
  events, requests and sweeps share the connection.
\<close>

section \<open>Operations per handle\<close>

datatype handle_op = OpJoin bytes chan | OpCopy bytes job_event | OpSweep "chan list"

text \<open>What an input does to the subscribers.\<close>

fun step_ops :: "actor \<Rightarrow> actor_input \<Rightarrow> handle_op list" where
  "step_ops a (Tick closed) = [OpSweep closed]"
| "step_ops a (Received (Some (Inr p))) =
     (if ptype p = JobCreated then
        (case pending_replies a of
           PendJobCreated _ (Some c) # _ \<Rightarrow> [OpJoin (arg_str_or_empty p 0) c]
         | _ \<Rightarrow> [])
      else
        (case (arg_str p 0, work_event p) of (Some h, Some e) \<Rightarrow> [OpCopy h e] | _ \<Rightarrow> []))"
| "step_ops a _ = []"

fun trace :: "actor \<Rightarrow> actor_input list \<Rightarrow> handle_op list" where
  "trace a [] = []"
| "trace a (i # is) = step_ops a i @ trace (fst (actor_step a i)) is"

text \<open>The specification: one \<^verbatim>\<open>HandleSubscribers\<close>, which joins and copies for other handles skip.\<close>

fun op_on :: "bytes \<Rightarrow> handle_subscribers \<Rightarrow> handle_op
    \<Rightarrow> handle_subscribers \<times> (chan \<times> job_event) list" where
  "op_on h subs (OpJoin h' c) = (if h' = h then add subs c else subs, [])"
| "op_on h subs (OpCopy h' e) =
     (if h' = h then (case deliver subs e (terminal_event e) of (_, subs', sends) \<Rightarrow> (subs', sends))
      else (subs, []))"
| "op_on h subs (OpSweep closed) = (prune_slots (\<lambda>c. c \<in> set closed) subs, [])"

fun ops_on :: "bytes \<Rightarrow> handle_subscribers \<Rightarrow> handle_op list
    \<Rightarrow> handle_subscribers \<times> (chan \<times> job_event) list" where
  "ops_on h subs [] = (subs, [])"
| "ops_on h subs (x # ops) =
     (case op_on h subs x of (subs', sends) \<Rightarrow>
        (case ops_on h subs' ops of (subs'', sends') \<Rightarrow> (subs'', sends @ sends')))"

lemma ops_on_append:
  "ops_on h subs (xs @ ys) =
     (case ops_on h subs xs of (subs', sends) \<Rightarrow>
        (case ops_on h subs' ys of (subs'', sends') \<Rightarrow> (subs'', sends @ sends')))"
  by (induction h subs xs rule: ops_on.induct) (auto split: prod.splits)

text \<open>The abstraction: an absent handle has no slots.\<close>

definition view :: "actor \<Rightarrow> bytes \<Rightarrow> handle_subscribers" where
  "view a h = (case job_events a h of Some subs \<Rightarrow> subs | None \<Rightarrow> subscribers_default)"

definition entries_ok :: "actor \<Rightarrow> bool" where
  "entries_ok a \<longleftrightarrow> (\<forall>h subs. job_events a h = Some subs \<longrightarrow> hs_slots subs \<noteq> [] \<and> cursor_ok subs)"

lemma entries_ok_start [simp]: "entries_ok actor_start"
  by (simp add: entries_ok_def actor_start_def)

lemma deliver_emptied:
  "\<lbrakk>deliver subs e t = (remain, subs', sends); hs_slots subs \<noteq> []; \<not> remain\<rbrakk> \<Longrightarrow> subs' = subscribers_default"
  by (auto simp: deliver_def Let_def subscribers_default_def split: if_splits)

lemma deliver_default [simp]:
  "deliver subscribers_default e t = (False, subscribers_default, [])"
  by (simp add: deliver_def subscribers_default_def)

lemma add_nonempty [simp]: "hs_slots (add subs c) \<noteq> []"
  by (simp add: add_def)

lemma prune_slots_default [simp]: "prune_slots closed subscribers_default = subscribers_default"
  by (simp add: prune_slots_def subscribers_default_def)

lemma prune_slots_nonempty [simp]: "hs_slots (prune_slots closed subs) = [] \<longleftrightarrow> hs_slots subs = []"
  by (simp add: prune_slots_def)

lemma work_event_terminal:
  "work_event p = Some e \<Longrightarrow> ptype p \<in> {WorkComplete, WorkFail, WorkException} \<longleftrightarrow> terminal_event e"
  by (auto simp: work_event_def split: packet_type.splits)

lemma work_event_Some:
  "(\<exists>e. work_event p = Some e) \<longleftrightarrow>
   ptype p \<in> {WorkStatus, WorkComplete, WorkFail, WorkData, WorkWarning, WorkException}"
  by (auto simp: work_event_def split: packet_type.splits)

lemma dispatch_view:
  assumes "entries_ok a" and "arg_str p 0 = Some h" and "work_event p = Some e"
    and "dispatch_work_event p (job_events a) = (je, out)"
    and "op_on h (view a h) (OpCopy h e) = (subs, sends)"
  shows "entries_ok (a\<lparr>job_events := je\<rparr>) \<and> view (a\<lparr>job_events := je\<rparr>) = (view a)(h := subs)
    \<and> events out = sends"
proof (cases "job_events a h")
  case None
  with assms(2-5) have "je = job_events a" "out = []" "subs = subscribers_default" "sends = []"
    by (simp_all add: dispatch_work_event_def view_def)
  with None assms(1) show ?thesis by (auto simp: view_def)
next
  case (Some old)
  obtain remain where d: "deliver old e (terminal_event e) = (remain, subs, sends)"
    using assms(5) Some by (auto simp: view_def split: prod.splits)
  from assms(1) Some have old: "hs_slots old \<noteq> []" "cursor_ok old" by (auto simp: entries_ok_def)
  have je: "je = (if remain then (job_events a)(h \<mapsto> subs) else (job_events a)(h := None))"
    and out: "out = map (\<lambda>(c, e). Event c e) sends"
    using assms(2-4) Some d work_event_terminal [OF assms(3)]
    by (auto simp: dispatch_work_event_def)
  from deliver_more [OF d] deliver_emptied [OF d old(1)] cursor_ok_deliver [OF d old(2)]
  show ?thesis using assms(1) je out
    by (auto simp: entries_ok_def view_def)
qed

text \<open>One input refines the operations it makes on each handle.\<close>

lemma incoming_view:
  assumes ok: "entries_ok a" and inc: "handle_incoming p a = (a', out)"
  shows "entries_ok a' \<and> (\<forall>h. view a' h = fst (ops_on h (view a h) (step_ops a (Received (Some (Inr p))))))
    \<and> events out = (case step_ops a (Received (Some (Inr p))) of
        [OpCopy h e] \<Rightarrow> snd (op_on h (view a h) (OpCopy h e)) | _ \<Rightarrow> [])"
proof (cases "ptype p = JobCreated")
  case True
  with inc ok show ?thesis
    by (auto simp: handle_incoming_def Let_def entries_ok_def view_def drop_pending_def cursor_ok_add
        split: list.splits pending_reply.splits option.splits if_splits)
next
  case not_created: False
  show ?thesis
  proof (cases "\<exists>e. work_event p = Some e")
    case True
    then obtain e where e: "work_event p = Some e" by blast
    with work_event_Some [of p]
    have types: "ptype p \<in> {WorkStatus, WorkComplete, WorkFail, WorkData, WorkWarning, WorkException}" by blast
    with inc not_created obtain je where d: "dispatch_work_event p (job_events a) = (je, out)"
      and a': "a' = a\<lparr>job_events := je\<rparr>"
      by (auto simp: handle_incoming_def split: prod.splits)
    show ?thesis
    proof (cases "arg_str p 0")
      case None
      with d a' not_created ok show ?thesis by (auto simp: dispatch_work_event_def)
    next
      case (Some h)
      obtain subs sends where op: "op_on h (view a h) (OpCopy h e) = (subs, sends)"
        by (cases "op_on h (view a h) (OpCopy h e)") auto
      from dispatch_view [OF ok Some e d op] a' not_created Some e op show ?thesis
        by (auto split: prod.splits)
    qed
  next
    case False
    with work_event_Some [of p]
    have types: "ptype p \<notin> {WorkStatus, WorkComplete, WorkFail, WorkData, WorkWarning, WorkException}" by blast
    have none: "work_event p = None" using False by (cases "work_event p") auto
    then have "step_ops a (Received (Some (Inr p))) = []" using not_created by (auto split: option.split)
    moreover have "job_events a' = job_events a \<and> events out = []"
      using inc not_created types
      by (auto simp: handle_incoming_def Let_def drop_pending_def
          split: list.splits pending_reply.splits if_splits)
    ultimately show ?thesis using ok by (simp add: entries_ok_def view_def)
  qed
qed

lemma step_view:
  assumes ok: "entries_ok a" and step: "actor_step a i = (a', out, None)"
  shows "entries_ok a' \<and> (\<forall>h. view a' h = fst (ops_on h (view a h) (step_ops a i)))
    \<and> events out = (case step_ops a i of
        [OpCopy h e] \<Rightarrow> snd (op_on h (view a h) (OpCopy h e)) | _ \<Rightarrow> [])"
proof (cases i)
  case (Tick closed)
  with step ok show ?thesis
    by (auto simp: entries_ok_def view_def prune_closed_subscribers_def cursor_ok_prune
        split: option.splits)
next
  case (Command c net)
  with step ok show ?thesis
    by (auto simp: actor_step_command entries_ok_def view_def split: option.splits)
next
  case CommandsClosed
  with step show ?thesis by simp
next
  case (Received nxt)
  with step obtain p where p: "nxt = Some (Inr p)" "handle_incoming p a = (a', out)"
    by (auto simp: conn_recv_def split: option.splits sum.splits prod.splits)
  from incoming_view [OF ok p(2)] Received p(1) show ?thesis by simp
qed

lemma step_ops_short: "length (step_ops a i) \<le> 1"
  by (cases "(a, i)" rule: step_ops.cases) (auto split: list.split pending_reply.split option.split)

section \<open>Routing\<close>

lemma set_swap_remove: "xs \<noteq> [] \<Longrightarrow> set (swap_remove i xs) \<subseteq> set xs"
  unfolding swap_remove_def using set_update_subset_insert [of xs i "last xs"]
  by (auto dest: in_set_butlastD)

lemma deliver_live:
  assumes "deliver subs e t = (remain, subs', sends)"
  shows "set (map fst sends) \<subseteq> set (live (hs_slots subs))"
    and "set (live (hs_slots subs')) \<subseteq> set (live (hs_slots subs))"
proof -
  let ?slots = "hs_slots subs"
  let ?cursor = "if length ?slots \<le> hs_cursor subs then 0 else hs_cursor subs"
  show "set (map fst sends) \<subseteq> set (live ?slots)"
  proof (cases "?slots = []")
    case False
    then have "?slots ! ?cursor \<in> set ?slots" by (intro nth_mem) (auto simp: not_le)
    then have "?slots ! ?cursor = Some x \<Longrightarrow> Some x \<in> set ?slots" for x by simp
    with False assms show ?thesis
      by (auto simp: deliver_def Let_def set_live split: option.splits simp del: if_split)
  qed (use assms in \<open>simp add: deliver_def\<close>)
  show "set (live (hs_slots subs')) \<subseteq> set (live ?slots)"
    using assms set_swap_remove [of ?slots ?cursor]
    by (auto simp: deliver_def Let_def set_live subset_iff split: if_splits)
qed

text \<open>Channel \<open>c\<close> is used by no handle but \<open>h\<close>.\<close>

definition only_for :: "chan \<Rightarrow> bytes \<Rightarrow> (bytes \<Rightarrow> handle_subscribers) \<Rightarrow> bool" where
  "only_for c h v \<longleftrightarrow> (\<forall>h'. h' \<noteq> h \<longrightarrow> c \<notin> set (live (hs_slots (v h'))))"

lemma events_to_notin: "c \<notin> set (map fst sends) \<Longrightarrow> events_to c sends = []"
  by (induction sends) (auto simp: events_to_def)

lemma live_ops_on:
  "\<forall>c'. OpJoin h c' \<in> set ops \<longrightarrow> c' \<noteq> c \<Longrightarrow> c \<notin> set (live (hs_slots subs)) \<Longrightarrow>
   c \<notin> set (live (hs_slots (fst (ops_on h subs ops))))"
proof (induction h subs ops rule: ops_on.induct)
  case (2 h subs x ops)
  have "c \<notin> set (live (hs_slots (fst (op_on h subs x))))"
  proof (cases x)
    case (OpCopy h' e)
    then show ?thesis
      using 2(3) deliver_live(2) [of subs e "terminal_event e"] by (auto split: prod.splits)
  qed (use 2 in \<open>auto simp: add_def live_prune\<close>)
  with 2 show ?case by (auto split: prod.splits)
qed simp

lemma run_routes:
  assumes "entries_ok a" and "run actor_step a is = (a', out, None)"
    and "only_for c h (view a)" and "\<forall>h'. OpJoin h' c \<in> set (trace a is) \<longrightarrow> h' = h"
  shows "events_to c (events out) = events_to c (snd (ops_on h (view a h) (trace a is)))
    \<and> view a' h = fst (ops_on h (view a h) (trace a is)) \<and> entries_ok a'"
  using assms
proof (induction "is" arbitrary: a out)
  case Nil
  then show ?case by simp
next
  case (Cons i "is")
  from Cons.prems(2) obtain b out1 out2 where one: "actor_step a i = (b, out1, None)"
    and rest: "run actor_step b is = (a', out2, None)" and out: "out = out1 @ out2"
    by (auto split: prod.splits option.splits)
  let ?ops = "step_ops a i"
  from step_view [OF Cons.prems(1) one] have ok: "entries_ok b"
    and v: "\<And>h'. view b h' = fst (ops_on h' (view a h') ?ops)"
    and ev: "events out1 = (case ?ops of [OpCopy h' e] \<Rightarrow> snd (op_on h' (view a h') (OpCopy h' e)) | _ \<Rightarrow> [])"
    by blast+
  have joins: "OpJoin h' c \<in> set ?ops \<Longrightarrow> h' = h" "OpJoin h' c \<in> set (trace b is) \<Longrightarrow> h' = h" for h'
    using Cons.prems(4) one by auto
  have only: "only_for c h (view b)"
    using Cons.prems(3) joins(1) live_ops_on unfolding only_for_def v by metis
  have "events_to c (events out1) = events_to c (snd (ops_on h (view a h) ?ops))"
  proof (cases "\<exists>h' e. ?ops = [OpCopy h' e]")
    case True
    then obtain h' e where ops: "?ops = [OpCopy h' e]" by blast
    show ?thesis
    proof (cases "h' = h")
      case True
      with ops ev show ?thesis by (auto split: prod.splits)
    next
      case False
      with Cons.prems(3) have "c \<notin> set (live (hs_slots (view a h')))" by (auto simp: only_for_def)
      then have "c \<notin> set (map fst (events out1))"
        using ops ev deliver_live(1) [of "view a h'" e "terminal_event e"]
        by (auto split: prod.splits)
      from events_to_notin [OF this] ops False show ?thesis by (simp add: events_to_def)
    qed
  next
    case False
    with ev step_ops_short [of a i] show ?thesis
      by (cases ?ops; cases "hd ?ops") (auto simp: events_to_def split: prod.splits)
  qed
  with Cons.IH [OF ok rest only] joins(2) out one v [of h]
  show ?case by (auto simp: ops_on_append split: prod.splits)
qed

section \<open>Sweeps and other handles do not matter\<close>

fun for_handle :: "bytes \<Rightarrow> handle_op list \<Rightarrow> handle_op list" where
  "for_handle h [] = []"
| "for_handle h (OpJoin h' c # ops) = (if h' = h then OpJoin h c # for_handle h ops else for_handle h ops)"
| "for_handle h (OpCopy h' e # ops) = (if h' = h then OpCopy h e # for_handle h ops else for_handle h ops)"
| "for_handle h (OpSweep _ # ops) = for_handle h ops"

text \<open>Equal but for released channels other than \<open>c\<close>.\<close>

definition slot_rel :: "chan \<Rightarrow> chan option \<Rightarrow> chan option \<Rightarrow> bool" where
  "slot_rel c x y \<longleftrightarrow> x = y \<or> x = None \<and> y \<noteq> Some c"

definition subs_rel :: "chan \<Rightarrow> handle_subscribers \<Rightarrow> handle_subscribers \<Rightarrow> bool" where
  "subs_rel c s t \<longleftrightarrow> hs_cursor s = hs_cursor t \<and> list_all2 (slot_rel c) (hs_slots s) (hs_slots t)"

lemma subs_rel_refl [simp]: "subs_rel c s s"
  by (simp add: subs_rel_def slot_rel_def list_all2_refl)

lemma swap_remove_rel:
  assumes "list_all2 R xs ys" and "xs \<noteq> []"
  shows "list_all2 R (swap_remove i xs) (swap_remove i ys)"
proof -
  have len: "length xs = length ys" using assms(1) by (rule list_all2_lengthD)
  with assms(2) have "ys \<noteq> []" by auto
  with len assms have "R (last xs) (last ys)"
    by (simp add: last_conv_nth list_all2_nthD2)
  then have "list_all2 R (xs[i := last xs]) (ys[i := last ys])"
    using assms(1) by (rule list_all2_update_cong [rotated])
  then show ?thesis
    unfolding swap_remove_def by (simp add: butlast_conv_take list_all2_takeI len)
qed

lemma subs_rel_deliver:
  assumes "subs_rel c s t" and s: "deliver s e k = (r1, s', out1)" and t: "deliver t e k = (r2, t', out2)"
  shows "subs_rel c s' t' \<and> events_to c out1 = events_to c out2"
proof (cases "hs_slots s = []")
  case True
  with assms have "hs_slots t = []" by (simp add: subs_rel_def)
  with True assms show ?thesis by (simp add: deliver_def)
next
  case False
  have cur: "hs_cursor s = hs_cursor t" and rel: "list_all2 (slot_rel c) (hs_slots s) (hs_slots t)"
    using assms(1) by (simp_all add: subs_rel_def)
  from rel have len: "length (hs_slots s) = length (hs_slots t)" by (rule list_all2_lengthD)
  with False have ne: "hs_slots t \<noteq> []" by auto
  define i where "i = (if length (hs_slots t) \<le> hs_cursor t then 0 else hs_cursor t)"
  have "i < length (hs_slots t)" using ne by (simp add: i_def)
  with rel have slot: "slot_rel c (hs_slots s ! i) (hs_slots t ! i)" by (simp add: list_all2_nthD2)
  let ?sends = "\<lambda>x. case x of Some sender \<Rightarrow> [(sender, e)] | None \<Rightarrow> []"
  have "events_to c (?sends (hs_slots s ! i)) = events_to c (?sends (hs_slots t ! i))"
    using slot by (cases "hs_slots s ! i"; cases "hs_slots t ! i") (auto simp: slot_rel_def events_to_def)
  moreover have "out1 = ?sends (hs_slots s ! i)" "out2 = ?sends (hs_slots t ! i)"
    using s t False ne cur len by (auto simp: deliver_def Let_def i_def simp del: if_split)
  moreover have lists: "list_all2 (slot_rel c) (if k then swap_remove i (hs_slots s) else hs_slots s)
      (if k then swap_remove i (hs_slots t) else hs_slots t)"
    using rel swap_remove_rel [OF rel False] by simp
  have idx: "(if length (hs_slots s) \<le> hs_cursor s then 0 else hs_cursor s) = i"
    by (simp add: i_def cur len)
  have "hs_slots s' = (if k then swap_remove i (hs_slots s) else hs_slots s)"
    "hs_cursor s' = (if length (hs_slots s') \<le> (if k then i else i + 1) then 0 else if k then i else i + 1)"
    using s False unfolding deliver_def Let_def idx by (simp_all del: if_split) auto
  moreover have "hs_slots t' = (if k then swap_remove i (hs_slots t) else hs_slots t)"
    "hs_cursor t' = (if length (hs_slots t') \<le> (if k then i else i + 1) then 0 else if k then i else i + 1)"
    using t ne unfolding deliver_def Let_def i_def [symmetric] by (simp_all del: if_split) auto
  ultimately show ?thesis
    using lists list_all2_lengthD [OF lists] unfolding subs_rel_def by simp
qed

lemma subs_rel_sweep:
  "\<lbrakk>subs_rel c s t; c \<notin> set closed\<rbrakk> \<Longrightarrow> subs_rel c (prune_slots (\<lambda>x. x \<in> set closed) s) t"
  by (auto simp: subs_rel_def prune_slots_def list_all2_conv_all_nth slot_rel_def split: option.split)

lemma ops_on_for_handle:
  "\<lbrakk>subs_rel c s t; \<forall>closed. OpSweep closed \<in> set ops \<longrightarrow> c \<notin> set closed\<rbrakk> \<Longrightarrow>
   subs_rel c (fst (ops_on h s ops)) (fst (ops_on h t (for_handle h ops)))
   \<and> events_to c (snd (ops_on h s ops)) = events_to c (snd (ops_on h t (for_handle h ops)))"
proof (induction h ops arbitrary: s t rule: for_handle.induct)
  case (2 h h' c' ops)
  have "subs_rel c (add s c') (add t c')"
    using 2(3) by (simp add: subs_rel_def add_def list_all2_appendI slot_rel_def)
  with 2 show ?case by (auto split: prod.splits)
next
  case (3 h h' e ops)
  show ?case
  proof (cases "h' = h")
    case True
    obtain r1 s' out1 where s: "deliver s e (terminal_event e) = (r1, s', out1)"
      by (cases "deliver s e (terminal_event e)")
    obtain r2 t' out2 where t: "deliver t e (terminal_event e) = (r2, t', out2)"
      by (cases "deliver t e (terminal_event e)")
    from subs_rel_deliver [OF 3(3) s t] 3(1) [OF True, of s' t'] 3(4) True s t show ?thesis
      by (auto split: prod.splits)
  qed (use 3 in \<open>auto split: prod.splits\<close>)
next
  case (4 h closed ops)
  with subs_rel_sweep [of c s t closed] show ?case by (auto split: prod.splits)
qed simp

section \<open>A submission joins one job\<close>

fun command_chans :: "client_command list \<Rightarrow> chan list" where
  "command_chans [] = []"
| "command_chans (CmdSubmit _ _ (Some c) # cs) = c # command_chans cs"
| "command_chans (_ # cs) = command_chans cs"

fun pending_chans :: "pending_reply list \<Rightarrow> chan list" where
  "pending_chans [] = []"
| "pending_chans (PendJobCreated _ (Some c) # ps) = c # pending_chans ps"
| "pending_chans (_ # ps) = pending_chans ps"

fun op_joins :: "handle_op list \<Rightarrow> (bytes \<times> chan) list" where
  "op_joins [] = []"
| "op_joins (OpJoin h c # ops) = (h, c) # op_joins ops"
| "op_joins (_ # ops) = op_joins ops"

lemma op_joins_append [simp]: "op_joins (xs @ ys) = op_joins xs @ op_joins ys"
  by (induction xs rule: op_joins.induct) auto

lemma op_joins_set: "OpJoin h c \<in> set ops \<longleftrightarrow> (h, c) \<in> set (op_joins ops)"
  by (induction ops rule: op_joins.induct) auto

lemma pending_chans_append [simp]: "pending_chans (xs @ ys) = pending_chans xs @ pending_chans ys"
  by (induction xs rule: pending_chans.induct) auto

lemma pending_chans_cmd: "pending_chans [cmd_pending c] = command_chans [c]"
  by (cases "[c]" rule: command_chans.cases) auto

lemma command_chans_append [simp]: "command_chans (xs @ ys) = command_chans xs @ command_chans ys"
  by (induction xs rule: command_chans.induct) auto

lemma incoming_chans:
  "handle_incoming p a = (a', out) \<Longrightarrow>
   mset (map snd (op_joins (step_ops a (Received (Some (Inr p)))))) + mset (pending_chans (pending_replies a'))
   \<subseteq># mset (pending_chans (pending_replies a))"
  by (auto simp: handle_incoming_def Let_def
      split: list.splits pending_reply.splits option.splits if_splits prod.splits)

lemma step_chans:
  assumes "actor_step a i = (a', out, None)"
  shows "mset (map snd (op_joins (step_ops a i))) + mset (pending_chans (pending_replies a'))
    \<subseteq># mset (pending_chans (pending_replies a)) + mset (command_chans (commands [i]))"
proof (cases i)
  case (Command c net)
  with assms show ?thesis
    by (auto simp: actor_step_command pending_chans_cmd split: option.splits)
next
  case (Received nxt)
  with assms obtain p where "nxt = Some (Inr p)" "handle_incoming p a = (a', out)"
    by (auto simp: conn_recv_def split: option.splits sum.splits prod.splits)
  with incoming_chans [OF this(2)] Received show ?thesis by simp
qed (use assms in \<open>auto simp: prune_closed_subscribers_def\<close>)

lemma run_chans:
  "run actor_step a is = (a', out, None) \<Longrightarrow>
   mset (map snd (op_joins (trace a is))) + mset (pending_chans (pending_replies a'))
   \<subseteq># mset (pending_chans (pending_replies a)) + mset (command_chans (commands is))"
proof (induction "is" arbitrary: a out)
  case (Cons i "is")
  then obtain b out1 out2 where one: "actor_step a i = (b, out1, None)"
    and rest: "run actor_step b is = (a', out2, None)"
    by (auto split: prod.splits option.splits)
  have "commands (i # is) = commands [i] @ commands is" using commands_append [of "[i]" "is"] by simp
  with subset_mset.add_mono [OF step_chans [OF one] Cons.IH [OF rest]] one
  show ?case by (simp add: ac_simps) 
qed simp

lemma distinct_sub_mset:
  assumes "mset xs \<subseteq># mset ys" and "distinct ys"
  shows "distinct xs"
proof -
  from assms(1) obtain zs where "mset ys = mset (xs @ zs)"
    by (metis ex_mset mset_append subset_mset.le_iff_add)
  from mset_eq_imp_distinct_iff [OF this] assms(2) show ?thesis by simp
qed

lemma joins_one_job:
  assumes "run actor_step actor_start is = (a, out, None)" and "distinct (command_chans (commands is))"
  shows "distinct (map snd (op_joins (trace actor_start is)))"
proof (rule distinct_sub_mset)
  from run_chans [OF assms(1)]
  show "mset (map snd (op_joins (trace actor_start is))) \<subseteq># mset (command_chans (commands is))"
    by (auto simp: actor_start_def dest: subset_mset.order_trans [OF mset_subset_eq_add_left])
qed (rule assms(2))

section \<open>A whole job\<close>

text \<open>
  What gearmand sends on the connection about one handle: a \<^verbatim>\<open>JOB_CREATED\<close> per submission, and for
  each event one copy per submission so far. Sweeps are the client's: \<open>wire\<close> skips them.
\<close>

fun wire :: "bytes \<Rightarrow> nat \<Rightarrow> job_step list \<Rightarrow> handle_op list" where
  "wire h n [] = []"
| "wire h n (Join c # steps) = OpJoin h c # wire h (Suc n) steps"
| "wire h n (Round e # steps) = replicate n (OpCopy h e) @ wire h n steps"
| "wire h n (Sweep _ # steps) = wire h n steps"

fun calm :: "job_step \<Rightarrow> bool" where
  "calm (Join _) = True"
| "calm (Round e) = (\<not> terminal_event e)"
| "calm (Sweep _) = False"

lemma ops_on_copies:
  "ops_on h subs (replicate k (OpCopy h e)) = deliver_all subs (replicate k (e, terminal_event e))"
  by (induction k arbitrary: subs) (auto split: prod.splits)

lemma ops_on_wire:
  "\<forall>s \<in> set steps. calm s \<Longrightarrow>
   ops_on h subs (wire h n steps) = (case run_job subs n steps of (subs', _, sends) \<Rightarrow> (subs', sends))"
proof (induction subs n steps rule: run_job.induct)
  case (2 subs n c steps)
  then show ?case by (auto split: prod.splits)
next
  case (3 subs n e steps)
  then show ?case by (auto simp: ops_on_append ops_on_copies split: prod.splits)
qed auto

lemma op_joins_for_handle: "map snd (op_joins (for_handle h ops)) = map snd (filter (\<lambda>x. fst x = h) (op_joins ops))"
  by (induction h ops rule: for_handle.induct) auto

lemma op_joins_copies [simp]: "op_joins (replicate k (OpCopy h e)) = []"
  by (induction k) auto

lemma op_joins_wire: "op_joins (wire h n steps) = map (Pair h) (joins steps)"
  by (induction h n steps rule: wire.induct) auto

lemma calm_not_swept: "\<forall>s \<in> set steps. calm s \<Longrightarrow> \<not> swept c steps"
  by (induction c steps rule: swept.induct) auto

lemma OpSweep_Tick: "OpSweep closed \<in> set (trace a is) \<Longrightarrow> Tick closed \<in> set is"
proof (induction "is" arbitrary: a)
  case (Cons i "is")
  moreover have "OpSweep closed \<in> set (step_ops a i) \<Longrightarrow> i = Tick closed"
    by (cases "(a, i)" rule: step_ops.cases)
      (auto split: if_splits list.splits pending_reply.splits option.splits)
  ultimately show ?case by auto
qed simp

text \<open>
  C1. A foreground submission sees its whole job, exactly once. On a connection carrying any number of
  jobs, with requests, replies, events of other jobs and sweeps interleaved in any way: when gearmand
  creates the submissions of one handle, sends each event once per submission so far and ends with a
  terminal event (\<open>wire\<close>), then every one of these submissions whose stream is not dropped gets
  exactly the events sent after it joined, in order, and then the terminal event, and nothing else;
  afterwards the client keeps nothing for the handle.
\<close>

theorem job_stream_exact:
  assumes run: "run actor_step actor_start is = (a, out, None)"
    and chans: "distinct (command_chans (commands is))"
    and job: "for_handle h (trace actor_start is)
      = wire h 0 steps @ replicate (length (joins steps)) (OpCopy h final)"
    and steps: "\<forall>s \<in> set steps. calm s" and final: "terminal_event final"
    and c: "c \<in> set (joins steps)" "\<forall>closed. Tick closed \<in> set is \<longrightarrow> c \<notin> set closed"
  shows "events_to c (events out) = promised c steps @ [final] \<and> job_events a h = None"
proof -
  let ?ops = "trace actor_start is" and ?n = "length (joins steps)"
  have dist: "distinct (map snd (op_joins ?ops))" by (rule joins_one_job [OF run chans])
  have joins: "map snd (filter (\<lambda>x. fst x = h) (op_joins ?ops)) = joins steps"
    using arg_cong [OF job, of "map snd \<circ> op_joins"] op_joins_for_handle [of h ?ops]
    by (simp add: op_joins_wire comp_def)
  then have "distinct (joins steps)" using distinct_map_filter [OF dist] by metis
  have mem: "(h, c) \<in> set (op_joins ?ops)" 
    using c(1) unfolding joins [symmetric] by auto
  have one: "\<forall>h'. OpJoin h' c \<in> set ?ops \<longrightarrow> h' = h"
    using dist mem unfolding op_joins_set distinct_map inj_on_def by fastforce
  have view0: "view actor_start h' = subscribers_default" for h'
    by (simp add: view_def actor_start_def)
  have "only_for c h (view actor_start)" by (simp add: only_for_def view0 subscribers_default_def)
  from run_routes [OF _ run this one] have routes:
    "events_to c (events out) = events_to c (snd (ops_on h subscribers_default ?ops))"
    "view a h = fst (ops_on h subscribers_default ?ops)" "entries_ok a"
    by (simp_all add: view0)
  obtain subs n sends where job_run: "run_job subscribers_default 0 steps = (subs, n, sends)"
    by (cases "run_job subscribers_default 0 steps")
  obtain subs' sends' where last: "deliver_all subs (replicate n (final, True)) = (subs', sends')"
    by (cases "deliver_all subs (replicate n (final, True))")
  have "n = ?n" using run_job_invariant [OF _ _ job_run] by (simp add: subscribers_default_def)
  then have ops: "ops_on h subscribers_default (for_handle h ?ops) = (subs', sends @ sends')"
    using last final by (simp add: job ops_on_append ops_on_wire [OF steps] job_run ops_on_copies)
  have all: "events_to c (sends @ sends') = promised c steps @ [final] \<and> hs_slots subs' = []"
    using coalesced_exactly_once [OF \<open>distinct (joins steps)\<close> c(1) calm_not_swept [OF steps] job_run last] .
  have "\<forall>closed. OpSweep closed \<in> set ?ops \<longrightarrow> c \<notin> set closed"
    using OpSweep_Tick c(2) by blast
  from ops_on_for_handle [OF _ this, of subscribers_default subscribers_default h] ops
  have rel: "subs_rel c (view a h) subs'"
    "events_to c (events out) = events_to c (sends @ sends')"
    using routes(1,2) by simp_all
  with all have "hs_slots (view a h) = []" by (simp add: subs_rel_def)
  with routes(3) have "job_events a h = None"
    by (auto simp: entries_ok_def view_def split: option.splits)
  with rel(2) all show ?thesis by simp
qed

text \<open>Two submissions of the job \<^verbatim>\<open>H\<close>, the second joining after the first event, and a job \<^verbatim>\<open>J\<close>.\<close>

definition two_jobs :: "actor_input list" where
  "two_jobs =
     [Command (CmdSubmit (request SubmitJob [[70], [7], [1]]) 10 (Some 1)) (Inr ()),
      Command (CmdSubmit (request SubmitJob [[70], [8], [1]]) 11 (Some 2)) (Inr ()),
      Received (Some (Inr (response JobCreated [[72]]))),
      Received (Some (Inr (response JobCreated [[74]]))),
      Received (Some (Inr (response WorkData [[72], [1]]))),
      Command (CmdSubmit (request SubmitJob [[70], [7], [1]]) 12 (Some 3)) (Inr ()),
      Received (Some (Inr (response JobCreated [[72]]))),
      Received (Some (Inr (response WorkComplete [[72], [9]]))),
      Tick [2],
      Received (Some (Inr (response WorkFail [[74]]))),
      Received (Some (Inr (response WorkComplete [[72], [9]])))]"

lemma two_jobs_args [simp]:
  "arg_str (response JobCreated [[x]]) 0 = (if utf8_valid [x] then Some [x] else None)"
  "arg_str (response WorkFail [[x]]) 0 = (if utf8_valid [x] then Some [x] else None)"
  "arg_str (response WorkData [[x], y]) 0 = (if utf8_valid [x] then Some [x] else None)"
  "arg_str (response WorkComplete [[x], y]) 0 = (if utf8_valid [x] then Some [x] else None)"
  "arg_or_empty (response WorkData [[x], y]) (Suc 0) = y"
  "arg_or_empty (response WorkComplete [[x], y]) (Suc 0) = y"
  by (simp_all add: arg_str_def arg_def arg_or_empty_def response_def)

lemma two_jobs_send: "send_error (request SubmitJob [[x], [y], [z]]) (Inr ()) = None"
  by (simp add: send_error_None encodable_def request_def encoded_body_len_def codec_new_def
      DEFAULT_MAX_PAYLOAD_SIZE_def)

lemmas two_jobs_eval = two_jobs_def two_jobs_send actor_start_def conn_recv_def handle_incoming_def
  arg_str_or_empty_def dispatch_work_event_def work_event_def add_def subscribers_default_def
  deliver_def swap_remove_def prune_closed_subscribers_def prune_slots_def Let_def

theorem job_stream_exact_witness:
  "\<exists>a out. run actor_step actor_start two_jobs = (a, out, None)
    \<and> events_to 1 (events out) = [Data [1], Complete [9]] \<and> job_events a [72] = None"
proof -
  obtain a out r where "run actor_step actor_start two_jobs = (a, out, r)"
    by (cases "run actor_step actor_start two_jobs") auto
  moreover from this have "r = None" by (simp add: two_jobs_eval split: if_splits)
  ultimately have run: "run actor_step actor_start two_jobs = (a, out, None)" by simp
  let ?steps = "[Join 1, Round (Data [1]), Join 3]"
  have job: "for_handle [72] (trace actor_start two_jobs)
      = wire [72] 0 ?steps @ replicate (length (joins ?steps)) (OpCopy [72] (Complete [9]))"
    by (simp add: two_jobs_eval)
  from job_stream_exact [OF run _ job, of 1] run show ?thesis
    by (simp add: two_jobs_def)
qed

end
