(* ===== verification/Stream_Life.thy ===== *)
theory Stream_Life
  imports Actor_Streams Client
begin

text \<open>
  The life of one event stream over all connections of a server task: where its sender is, and what
  the stream has received by then. The sender travels in the command channel, waits with the
  request for \<^verbatim>\<open>JOB_CREATED\<close>, subscribes to a handle, and is dropped; once no sender is left, the
  \<^verbatim>\<open>JobEventStream\<close> of the caller ends.
\<close>

section \<open>The stages\<close>

datatype stage = Unused | Waiting | Subscribed bytes | Ended

inductive life :: "stage \<Rightarrow> job_event list \<Rightarrow> stage \<Rightarrow> bool" where
  submitted: "life Unused [] Waiting"
| joined: "life Waiting [] (Subscribed h)"
| progress: "\<not> terminal_event e \<Longrightarrow> life (Subscribed h) [e] (Subscribed h)"
| finished: "terminal_event e \<Longrightarrow> life (Subscribed h) [e] Ended"
| dropped: "st \<noteq> Unused \<Longrightarrow> life st [] Ended"

inductive lives :: "stage \<Rightarrow> job_event list \<Rightarrow> stage \<Rightarrow> bool" where
  rest: "lives st [] st"
| move: "\<lbrakk>lives st es mid; life mid es' st'\<rbrakk> \<Longrightarrow> lives st (es @ es') st'"

inductive_cases life_to_Unused: "life st es Unused"
inductive_simps life_from_Ended: "life Ended es st"

lemma life_lives: "life st es st' \<Longrightarrow> lives st es st'"
  using lives.move [OF lives.rest] by fastforce

lemma lives_trans: "\<lbrakk>lives mid es' st'; lives st es mid\<rbrakk> \<Longrightarrow> lives st (es @ es') st'"
  by (induction rule: lives.induct) (auto simp flip: append_assoc intro: lives.intros)

lemma lives_from_Ended: "lives Ended es st \<Longrightarrow> es = [] \<and> st = Ended"
  by (induction Ended es st rule: lives.induct) (auto simp: life_from_Ended)

lemma lives_from_Unused:
  "lives Unused es st \<Longrightarrow> (\<forall>e \<in> set (butlast es). \<not> terminal_event e)
   \<and> (st \<in> {Unused, Waiting} \<longrightarrow> es = []) \<and> (st \<noteq> Ended \<longrightarrow> (\<forall>e \<in> set es. \<not> terminal_event e))"
proof (induction Unused es st rule: lives.induct)
  case (move es mid es' st')
  from move(3) move(2) show ?case by cases (auto simp: butlast_append dest: in_set_butlastD)
qed simp

lemma lives_to_Unused: "lives st es st' \<Longrightarrow> st' = Unused \<Longrightarrow> st = Unused"
  by (induction rule: lives.induct) (auto elim: life.cases)

section \<open>Where a sender is\<close>

text \<open>
  How often a sender waits in a request, and how often it is among the live subscribers of each
  handle.
\<close>

fun at_stage :: "nat \<Rightarrow> (bytes \<Rightarrow> nat) \<Rightarrow> stage \<Rightarrow> bool" where
  "at_stage n f (Subscribed h) \<longleftrightarrow> n = 0 \<and> f = (\<lambda>_. 0)(h := 1)"
| "at_stage n f Waiting \<longleftrightarrow> n = 1 \<and> f = (\<lambda>_. 0)"
| "at_stage n f _ \<longleftrightarrow> n = 0 \<and> f = (\<lambda>_. 0)"

text \<open>Fewer senders: the stage stays or the stream has ended.\<close>

lemma at_stage_shrinks:
  assumes "at_stage n f st" and "n' \<le> n" and "\<forall>h. f' h \<le> f h"
  shows "\<exists>st'. at_stage n' f' st' \<and> lives st [] st'"
proof (cases "n' = n \<and> f' = f")
  case True
  with assms(1) lives.rest show ?thesis by blast
next
  case False
  have "at_stage n' f' Ended \<and> st \<noteq> Unused"
  proof (cases st)
    case (Subscribed h)
    with assms have f: "n' = 0" "f' h \<le> 1" "\<forall>h'. h' \<noteq> h \<longrightarrow> f' h' = 0" by (auto split: if_splits)
    have "f' h \<noteq> 1"
    proof
      assume "f' h = 1"
      with f Subscribed assms(1) have "f' = f" by (auto simp: fun_eq_iff)
      with f(1) False Subscribed assms(1) show False by simp
    qed
    with f have "f' = (\<lambda>_. 0)" by (metis One_nat_def le_less less_Suc0)
    with f(1) Subscribed show ?thesis by simp
  next
    case Waiting
    with assms have "f' = (\<lambda>_. 0)" by (auto simp: fun_eq_iff)
    with Waiting assms False show ?thesis by auto
  next
    case Unused
    with assms have "f' = (\<lambda>_. 0)" by (auto simp: fun_eq_iff)
    with Unused assms False show ?thesis by auto
  next
    case Ended
    with assms have "f' = (\<lambda>_. 0)" by (auto simp: fun_eq_iff)
    with Ended assms False show ?thesis by auto
  qed
  with life_lives [OF life.dropped] show ?thesis by blast
qed

lemma at_stage_joins:
  assumes "at_stage n f st" and "Suc n' \<le> n" and "\<forall>h'. f' h' \<le> (f(h := Suc (f h))) h'"
  shows "\<exists>st'. at_stage n' f' st' \<and> lives st [] st'"
proof -
  from assms have st: "st = Waiting" "n' = 0" "f = (\<lambda>_. 0)" by (cases st; simp)+
  then have "at_stage n' ((\<lambda>_. 0)(h := 1)) (Subscribed h)" by simp
  from at_stage_shrinks [OF this, of n' f'] assms(3) st obtain st'
    where "at_stage n' f' st'" "lives (Subscribed h) [] st'" by auto
  with lives_trans [OF _ life_lives [OF life.joined]] st(1) show ?thesis by fastforce
qed

section \<open>Deliveries\<close>

lemma count_live: "count_list (live slots) c = count (mset slots) (Some c)"
  by (induction slots rule: live.induct) auto

lemma mset_swap_remove: "i < length xs \<Longrightarrow> mset (swap_remove i xs) = mset xs - {#xs ! i#}"
proof -
  assume i: "i < length xs"
  then have "xs \<noteq> []" by auto
  then have ne: "xs[i := last xs] \<noteq> []" by simp
  have "add_mset (last xs) (mset (swap_remove i xs)) = mset (xs[i := last xs])"
  proof -
    have "last (xs[i := last xs]) = last xs" using i \<open>xs \<noteq> []\<close> by (simp add: last_conv_nth nth_list_update)
    with append_butlast_last_id [OF ne] show ?thesis
      unfolding swap_remove_def by (metis mset_append mset_single_iff_right union_mset_add_mset_right
          mset.simps add_mset_add_single)
  qed
  then show ?thesis using i by (simp add: mset_update)
qed

lemma deliver_counts:
  assumes "deliver subs e t = (remain, subs', sends)"
  shows "count_list (live (hs_slots subs')) c \<le> count_list (live (hs_slots subs)) c
    \<and> (events_to c sends = [] \<or> events_to c sends = [e] \<and> 0 < count_list (live (hs_slots subs)) c
        \<and> count_list (live (hs_slots subs')) c + of_bool t = count_list (live (hs_slots subs)) c)"
proof (cases "hs_slots subs = []")
  case True
  with assms show ?thesis by (auto simp: deliver_def events_to_def)
next
  case False
  define i where "i = (if length (hs_slots subs) \<le> hs_cursor subs then 0 else hs_cursor subs)"
  have i: "i < length (hs_slots subs)" using False by (simp add: i_def)
  have slots: "hs_slots subs' = (if t then swap_remove i (hs_slots subs) else hs_slots subs)"
    and sends: "sends = (case hs_slots subs ! i of Some sender \<Rightarrow> [(sender, e)] | None \<Rightarrow> [])"
    using assms False unfolding deliver_def Let_def i_def [symmetric] by auto
  have mem: "hs_slots subs ! i \<in># mset (hs_slots subs)" using i by simp
  then have pos: "0 < count (mset (hs_slots subs)) (hs_slots subs ! i)" by (simp only: count_greater_zero_iff)
  show ?thesis unfolding slots sends count_live using pos mset_swap_remove [OF i]
    by (auto simp: events_to_def split: option.split)
qed

lemma prune_counts: "count_list (live (hs_slots (prune_slots closed subs))) c \<le> count_list (live (hs_slots subs)) c"
proof -
  have "count_list (filter P xs) c \<le> count_list xs c" for P and xs :: "chan list" by (induction xs) auto
  then show ?thesis by (simp add: live_prune)
qed

section \<open>The connection actor\<close>

definition hearing :: "chan \<Rightarrow> actor \<Rightarrow> bytes \<Rightarrow> nat" where
  "hearing c a h = count_list (live (hs_slots (view a h))) c"

lemma hearing_start [simp]: "hearing c actor_start = (\<lambda>_. 0)"
  by (simp add: fun_eq_iff hearing_def view_def actor_start_def subscribers_default_def)

text \<open>The requests' senders still waiting after a step, beside those that joined.\<close>

lemma waiting_after:
  assumes "actor_step a i = (a', out, None)" and "commands [i] = []"
  shows "count_list (map snd (op_joins (step_ops a i))) c + count_list (pending_chans (pending_replies a')) c
    \<le> count_list (pending_chans (pending_replies a)) c"
  using mset_subset_eq_count [OF step_chans [OF assms(1)], of c] assms(2)
  by (simp add: count_mset del: mset_map)

lemma actor_step_lives:
  assumes ok: "entries_ok a" and step: "actor_step a i = (a', out, None)" and no: "commands [i] = []"
    and stage: "at_stage (count_list (pending_chans (pending_replies a)) c + q) (hearing c a) st"
  shows "\<exists>st'. at_stage (count_list (pending_chans (pending_replies a')) c + q) (hearing c a') st'
    \<and> lives st (events_to c (events out)) st'"
proof -
  let ?n = "count_list (pending_chans (pending_replies a)) c" and ?n' = "count_list (pending_chans (pending_replies a')) c"
  from step_view [OF ok step] have
    v: "\<And>h. view a' h = fst (ops_on h (view a h) (step_ops a i))"
    and ev: "events out = (case step_ops a i of [OpCopy h e] \<Rightarrow> snd (op_on h (view a h) (OpCopy h e)) | _ \<Rightarrow> [])"
    by blast+
  note less = waiting_after [OF step no, of c]
  consider (none) "step_ops a i = []" | (join) h d where "step_ops a i = [OpJoin h d]"
    | (copy) h e where "step_ops a i = [OpCopy h e]" | (sweep) closed where "step_ops a i = [OpSweep closed]"
    using step_ops_short [of a i] by (cases "step_ops a i"; cases "hd (step_ops a i)") auto
  then show ?thesis
  proof cases
    case none
    then have "hearing c a' = hearing c a" "events out = []" using v ev by (simp_all add: hearing_def fun_eq_iff)
    with at_stage_shrinks [OF stage, of "?n' + q" "hearing c a'"] less none show ?thesis
      by (simp add: events_to_def)
  next
    case (join h d)
    have f: "hearing c a' = (if d = c then (hearing c a)(h := Suc (hearing c a h)) else hearing c a)"
      using v join by (auto simp: hearing_def fun_eq_iff add_def)
    have n: "?n' + of_bool (d = c) \<le> ?n" using less join by (auto split: if_splits)
    have "\<exists>st'. at_stage (?n' + q) (hearing c a') st' \<and> lives st [] st'"
    proof (cases "d = c")
      case True
      with at_stage_joins [OF stage, of "?n' + q" "hearing c a'" h] f n show ?thesis by simp
    next
      case False
      with at_stage_shrinks [OF stage, of "?n' + q" "hearing c a'"] f n show ?thesis by simp
    qed
    with ev join show ?thesis by (simp add: events_to_def)
  next
    case (sweep closed)
    then have "\<forall>h. hearing c a' h \<le> hearing c a h" using v by (simp add: hearing_def prune_counts)
    with at_stage_shrinks [OF stage, of "?n' + q" "hearing c a'"] less sweep ev show ?thesis
      by (simp add: events_to_def)
  next
    case (copy h e)
    obtain remain subs' sends where d: "deliver (view a h) e (terminal_event e) = (remain, subs', sends)"
      by (cases "deliver (view a h) e (terminal_event e)")
    have out: "events out = sends" using ev copy d by simp
    have f: "hearing c a' = (hearing c a)(h := count_list (live (hs_slots subs')) c)"
      using v copy d by (auto simp: hearing_def fun_eq_iff)
    have n: "?n' \<le> ?n" using less copy by simp
    from deliver_counts [OF d, of c] consider
      (other) "events_to c sends = []" "count_list (live (hs_slots subs')) c \<le> hearing c a h"
      | (own) "events_to c sends = [e]" "0 < hearing c a h"
          "count_list (live (hs_slots subs')) c + of_bool (terminal_event e) = hearing c a h"
      by (auto simp: hearing_def)
    then show ?thesis
    proof cases
      case other
      with at_stage_shrinks [OF stage, of "?n' + q" "hearing c a'"] n f out show ?thesis by simp
    next
      case own
      from own(2) stage have st: "st = Subscribed h" "?n = 0" "q = 0" "hearing c a = (\<lambda>_. 0)(h := 1)"
        by (cases st; simp split: if_splits)+
      with n have n0: "?n' = 0" by simp
      show ?thesis
      proof (cases "terminal_event e")
        case True
        with own st f have "hearing c a' = (\<lambda>_. 0)" by (auto simp: fun_eq_iff)
        with n0 st(3) have "at_stage (?n' + q) (hearing c a') Ended" by simp
        moreover have "lives st (events_to c (events out)) Ended"
          using life_lives [OF life.finished [OF True, of h]] st(1) own(1) out by simp
        ultimately show ?thesis by blast
      next
        case False
        with own st f have "hearing c a' = (\<lambda>_. 0)(h := 1)" by (auto simp: fun_eq_iff)
        with n0 st(3) have "at_stage (?n' + q) (hearing c a') (Subscribed h)" by simp
        moreover have "lives st (events_to c (events out)) (Subscribed h)"
          using life_lives [OF life.progress [OF False, of h]] st(1) own(1) out by simp
        ultimately show ?thesis by blast
      qed
    qed
  qed
qed

section \<open>The server task\<close>

fun channels :: "server_input list \<Rightarrow> chan list" where
  "channels [] = []"
| "channels (Enqueue cmd # is) = command_chans [cmd] @ channels is"
| "channels (_ # is) = channels is"

lemma channels_append [simp]: "channels (xs @ ys) = channels xs @ channels ys"
  by (induction xs rule: channels.induct) auto

definition stream_of :: "chan \<Rightarrow> server_output list \<Rightarrow> job_event list" where
  "stream_of c out = events_to c (events (actor_outputs out))"

lemma stream_of_simps [simp]:
  "stream_of c [] = []" "stream_of c (xs @ ys) = stream_of c xs @ stream_of c ys"
  "stream_of c (map Out out) = events_to c (events out)" "stream_of c (map Offered ps) = []"
  "stream_of c [Sleep d] = []" "stream_of c [Connected] = []"
  by (simp_all add: stream_of_def events_to_def)

definition waiting :: "chan \<Rightarrow> server \<Rightarrow> nat" where
  "waiting c s = (case sv_phase s of
       Looping a \<Rightarrow> count_list (pending_chans (pending_replies a)) c
     | _ \<Rightarrow> 0) + count_list (command_chans (sv_queue s)) c"

definition subscribed_to :: "chan \<Rightarrow> server \<Rightarrow> bytes \<Rightarrow> nat" where
  "subscribed_to c s = (case sv_phase s of Looping a \<Rightarrow> hearing c a | _ \<Rightarrow> (\<lambda>_. 0))"

definition held :: "chan \<Rightarrow> server \<Rightarrow> bool" where
  "held c s \<longleftrightarrow> 0 < waiting c s \<or> (\<exists>h. 0 < subscribed_to c s h)"

definition stream_stage :: "chan \<Rightarrow> server \<Rightarrow> stage \<Rightarrow> bool" where
  "stream_stage c s st \<longleftrightarrow> at_stage (waiting c s) (subscribed_to c s) st
     \<and> (\<forall>a. sv_phase s = Looping a \<longrightarrow> entries_ok a)"

lemma command_chans_Cons: "command_chans (cmd # cs) = command_chans [cmd] @ command_chans cs"
  using command_chans_append [of "[cmd]" cs] by simp

text \<open>A turn of the actor loop, after a command was taken from the queue or not.\<close>

lemma loop_turn_lives:
  assumes stage: "stream_stage c s st" and loop: "sv_phase s = Looping a"
    and turn: "loop_turn (s\<lparr>sv_queue := q\<rparr>) a i = (s', out, r)"
    and q: "sv_queue s = commands [i] @ q"
  shows "\<exists>st'. stream_stage c s' st' \<and> lives st (stream_of c out) st'"
proof -
  obtain a' out' o' where step: "actor_step a i = (a', out', o')" by (cases "actor_step a i")
  have at: "at_stage (count_list (pending_chans (pending_replies a)) c + count_list (command_chans (sv_queue s)) c)
      (hearing c a) st" and ok: "entries_ok a"
    using stage loop by (simp_all add: stream_stage_def waiting_def subscribed_to_def)
  show ?thesis
  proof (cases o')
    case None
    from step turn None have s': "s' = s\<lparr>sv_queue := q, sv_phase := Looping a'\<rparr>" "out = map Out out'"
      by (simp_all add: loop_turn_def)
    have ok': "entries_ok a'" using step_view [OF ok] step None by blast
    have "\<exists>st'. at_stage (count_list (pending_chans (pending_replies a')) c + count_list (command_chans q) c)
        (hearing c a') st' \<and> lives st (events_to c (events out')) st'"
    proof (cases "commands [i] = []")
      case True
      with actor_step_lives [OF ok step [unfolded None] True at] q show ?thesis by simp
    next
      case False
      then obtain cmd net where i: "i = Command cmd net" by (cases i) simp_all
      with step None have "a' = a\<lparr>pending_replies := pending_replies a @ [cmd_pending cmd]\<rparr>" "out' = [Sent (cmd_packet cmd)]"
        by (auto simp: actor_step_command split: option.splits)
      moreover from this have "hearing c a' = hearing c a" by (simp add: fun_eq_iff hearing_def view_def)
      ultimately show ?thesis using at q i lives.rest
        by (auto simp: pending_chans_cmd command_chans_Cons [of cmd q] add.assoc events_to_def)
    qed
    with ok' show ?thesis by (simp add: s' stream_stage_def waiting_def subscribed_to_def)
  next
    case (Some outcome)
    note broke = actor_step_break [OF step [unfolded Some]]
    from step turn Some have "sv_queue s' = q" "\<forall>b. sv_phase s' \<noteq> Looping b" "stream_of c out = events_to c (events out')"
      by (cases outcome; auto simp: loop_turn_def Let_def end_iteration_def simp flip: map_append)+
    moreover have "events out' = []" using broke by blast
    moreover have "count_list (command_chans q) c \<le> count_list (command_chans (sv_queue s)) c"
      by (simp add: q)
    ultimately show ?thesis
      using at_stage_shrinks [OF at, of "count_list (command_chans q) c" "\<lambda>_. 0"]
      by (auto simp: stream_stage_def waiting_def subscribed_to_def events_to_def split: phase.split)
  qed
qed

text \<open>Every step of the task: a new command brings its sender in, all others only move it on.\<close>

lemma stage_idle:
  assumes "stream_stage c s st" and "waiting c s' = waiting c s" and "subscribed_to c s' = subscribed_to c s"
    and "\<forall>a. sv_phase s' = Looping a \<longrightarrow> entries_ok a"
  shows "stream_stage c s' st"
  using assms by (simp add: stream_stage_def)

lemma server_step_lives:
  assumes stage: "stream_stage c s st" and step: "server_step we s i = (s', out, r)"
    and fresh: "c \<in> set (channels [i]) \<longrightarrow> st = Unused \<and> count_list (channels [i]) c = 1"
  shows "\<exists>st'. stream_stage c s' st' \<and> lives st (stream_of c out) st' \<and> (c \<in> set (channels [i]) \<longrightarrow> st' \<noteq> Unused)"
proof -
  have quiet: ?thesis if "channels [i] = []" "stream_stage c s' st" "stream_of c out = []"
    using that lives.rest by fastforce
  have idle: ?thesis if "channels [i] = []" "s' = s" "out = []"
    using that stage by (intro quiet) simp_all
  have turn: ?thesis if "channels [i] = []" "sv_phase s = Looping a" "loop_turn (s\<lparr>sv_queue := q\<rparr>) a j = (s', out, r)"
    "sv_queue s = commands [j] @ q" for a q j
    using loop_turn_lives [OF stage that(2-4)] that(1) by simp
  have same: "s\<lparr>sv_queue := sv_queue s\<rparr> = s" by simp
  show ?thesis
  proof (cases i)
    case (Enqueue cmd)
    with step have s': "s' = s\<lparr>sv_queue := sv_queue s @ [cmd]\<rparr>" "out = []" by simp_all
    have w: "waiting c s' = waiting c s + count_list (command_chans [cmd]) c" "subscribed_to c s' = subscribed_to c s"
      by (simp_all add: s' waiting_def subscribed_to_def)
    show ?thesis
    proof (cases "c \<in> set (command_chans [cmd])")
      case True
      with fresh Enqueue have "st = Unused" "count_list (command_chans [cmd]) c = 1" by simp_all
      with stage w s' have "stream_stage c s' Waiting" by (simp add: stream_stage_def)
      with life_lives [OF life.submitted] \<open>st = Unused\<close> s'(2) show ?thesis by auto
    next
      case False
      with stage w s' have "stream_stage c s' st" by (simp add: stream_stage_def)
      with False Enqueue s'(2) lives.rest [of st] show ?thesis by auto
    qed
  next
    case DropClient
    with step stage show ?thesis by (intro quiet) (auto simp: stream_stage_def waiting_def subscribed_to_def)
  next
    case (ConnectDone x)
    show ?thesis
    proof (cases "sv_phase s = Connecting")
      case True
      with step ConnectDone have "waiting c s' = waiting c s" "subscribed_to c s' = subscribed_to c s"
        "\<forall>a. sv_phase s' = Looping a \<longrightarrow> entries_ok a" "stream_of c out = []"
        by (cases x; cases we; auto simp: waiting_def subscribed_to_def end_iteration_def enter_loop_def
            actor_start_def fun_eq_iff hearing_def view_def subscribers_default_def entries_ok_def)+
      with quiet stage_idle [OF stage] ConnectDone show ?thesis by simp
    qed (use step ConnectDone idle in simp)
  next
    case (NegotiateDone net nxt)
    show ?thesis
    proof (cases "sv_phase s = Negotiating")
      case True
      from step [unfolded NegotiateDone] this
      have "waiting c s' = waiting c s" "subscribed_to c s' = subscribed_to c s"
        "\<forall>a. sv_phase s' = Looping a \<longrightarrow> entries_ok a" "stream_of c out = []"
        using True by (cases rule: negotiated_cases; auto simp: waiting_def subscribed_to_def end_iteration_def enter_loop_def
            actor_start_def fun_eq_iff hearing_def view_def subscribers_default_def entries_ok_def)+
      with quiet stage_idle [OF stage] NegotiateDone show ?thesis by simp
    qed (use step NegotiateDone idle in simp)
  next
    case Woken
    with step stage show ?thesis
      by (intro quiet) (auto simp: stream_stage_def waiting_def subscribed_to_def split: if_splits)
  next
    case (LoopTick closed)
    with step idle turn [of _ "sv_queue s" "Tick closed", unfolded same] show ?thesis
      by (cases "sv_phase s") simp_all
  next
    case (LoopReceived nxt)
    with step idle turn [of _ "sv_queue s" "Received nxt", unfolded same] show ?thesis
      by (cases "sv_phase s") simp_all
  next
    case (LoopCommand net)
    with step idle turn [of _ "sv_queue s" CommandsClosed, unfolded same]
      turn [of _ "tl (sv_queue s)" "Command (hd (sv_queue s)) net"]
    show ?thesis by (cases "sv_phase s"; cases "sv_queue s") (auto split: if_splits)
  qed
qed

lemma run_lives:
  assumes "stream_stage c s st" and "run (server_step we) s is = (s', out, r)"
    and "c \<in> set (channels is) \<longrightarrow> st = Unused \<and> count_list (channels is) c = 1"
  shows "\<exists>st'. stream_stage c s' st' \<and> lives st (stream_of c out) st'
    \<and> (r = None \<and> c \<in> set (channels is) \<longrightarrow> st' \<noteq> Unused)"
  using assms
proof (induction "is" arbitrary: s st out)
  case Nil
  then show ?case using lives.rest [of st] by auto
next
  case (Cons i "is")
  obtain t out1 r1 where one: "server_step we s i = (t, out1, r1)" by (cases "server_step we s i")
  have chans: "channels (i # is) = channels [i] @ channels is" using channels_append [of "[i]" "is"] by simp
  have "c \<in> set (channels [i]) \<longrightarrow> st = Unused \<and> count_list (channels [i]) c = 1"
  proof
    assume c: "c \<in> set (channels [i])"
    then have "0 < count_list (channels [i]) c" using count_list_0_iff by (metis gr0I)
    with c Cons.prems(3) show "st = Unused \<and> count_list (channels [i]) c = 1" unfolding chans by simp
  qed
  from server_step_lives [OF Cons.prems(1) one this] obtain mid where mid: "stream_stage c t mid"
    "lives st (stream_of c out1) mid" "c \<in> set (channels [i]) \<longrightarrow> mid \<noteq> Unused" by blast
  show ?case
  proof (cases r1)
    case (Some u)
    with one Cons.prems(2) mid(1,2) show ?thesis by auto
  next
    case None
    with one Cons.prems(2) obtain out2 where rest: "run (server_step we) t is = (s', out2, r)" and out: "out = out1 @ out2"
      by (auto split: prod.splits)
    show ?thesis
    proof (cases "c \<in> set (channels is)")
      case True
      then have "0 < count_list (channels is) c" using count_list_0_iff by (metis gr0I)
      with True Cons.prems(3) have st: "st = Unused" and later: "count_list (channels is) c = 1"
        and "count_list (channels [i]) c = 0"
        unfolding chans by simp_all
      then have now: "c \<notin> set (channels [i])" using count_list_0_iff by metis
      have "stream_stage c s Ended" using Cons.prems(1) st by (simp add: stream_stage_def)
      from server_step_lives [OF this one] now obtain end_st where
        "stream_stage c t end_st" "lives Ended (stream_of c out1) end_st" by blast
      with lives_from_Ended have t: "stream_stage c t Unused" "stream_of c out1 = []"
        by (fastforce simp: stream_stage_def)+
      with Cons.IH [OF t(1) rest] later out st show ?thesis unfolding chans by auto
    next
      case False
      with Cons.IH [OF mid(1) rest] obtain st' where st': "stream_stage c s' st'" "lives mid (stream_of c out2) st'"
        by blast
      moreover have "c \<in> set (channels (i # is)) \<longrightarrow> st' \<noteq> Unused"
        using mid(3) False lives_to_Unused [OF st'(2)] unfolding chans by auto
      ultimately show ?thesis using lives_trans [OF st'(2) mid(2)] out by auto
    qed
  qed
qed

text \<open>A sender that has not been used is nowhere, as one that has been dropped.\<close>

lemma run_unused:
  assumes "stream_stage c s Unused" and "run (server_step we) s is = (s', out, r)" and "c \<notin> set (channels is)"
  shows "stream_stage c s' Unused \<and> stream_of c out = []"
proof -
  have "stream_stage c s Ended" using assms(1) by (simp add: stream_stage_def)
  from run_lives [OF this assms(2)] assms(3) obtain st' where "stream_stage c s' st'" "lives Ended (stream_of c out) st'"
    by blast
  with lives_from_Ended show ?thesis by (fastforce simp: stream_stage_def)
qed

section \<open>Streams end once\<close>

lemma stage_start: "stream_stage c server_start Unused"
  by (simp add: stream_stage_def waiting_def subscribed_to_def server_start_def)

lemma held_stage: "stream_stage c s st \<Longrightarrow> held c s \<longleftrightarrow> st \<notin> {Unused, Ended}"
  by (cases st) (auto simp: stream_stage_def held_def)

lemma waiting_stage: "stream_stage c s st \<Longrightarrow> 0 < waiting c s \<longleftrightarrow> st = Waiting"
  by (cases st) (auto simp: stream_stage_def)

text \<open>
  C6. A stream ends once, whatever happens to the connection. Take the event channel of one submission, at
  any time in the life of its server's task, over all its connections, and look again later. No event
  follows a terminal one. As long as the task holds the channel's sender - in the command
  queue, in a request waiting for \<^verbatim>\<open>JOB_CREATED\<close>, or as a subscriber - no terminal event has been
  sent, and none at all before it subscribes. Once the submission has been made and the task no
  longer holds its sender, the stream has ended for good: nothing is added to it, so what a blocking
  call returns is decided. And when the task is outside its actor loop, it holds only the senders of
  submissions that it has not taken from the queue yet: losing a connection ends the streams of all
  jobs on it.
\<close>

theorem streams_end_once:
  assumes "run (server_step we) server_start is = (s, out, None)" and "run (server_step we) s js = (s', out', r)"
    and "count_list (channels (is @ js)) c \<le> 1"
  shows "(\<forall>e \<in> set (butlast (stream_of c (out @ out'))). \<not> terminal_event e)
    \<and> (held c s \<longrightarrow> (\<forall>e \<in> set (stream_of c out). \<not> terminal_event e))
    \<and> (0 < waiting c s \<longrightarrow> stream_of c out = [])
    \<and> (c \<in> set (channels is) \<and> \<not> held c s \<longrightarrow> \<not> held c s'
          \<and> stream_of c (out @ out') = stream_of c out
          \<and> await_job handle (stream_of c (out @ out')) = await_job handle (stream_of c out))
    \<and> ((\<forall>a. sv_phase s \<noteq> Looping a) \<and> held c s \<longrightarrow> c \<in> set (command_chans (sv_queue s)))"
proof -
  have once: "c \<in> set (channels ks) \<longrightarrow> count_list (channels ks) c = 1"
    if "count_list (channels ks) c \<le> 1" for ks
    using that count_list_0_iff [of "channels ks" c] by linarith
  obtain st st' where st: "stream_stage c s st" "lives Unused (stream_of c out) st" "c \<in> set (channels is) \<longrightarrow> st \<noteq> Unused"
    and st': "stream_stage c s' st'" "lives st (stream_of c out') st'"
  proof (cases "c \<in> set (channels is)")
    case True
    with once [of "is"] assms(3) have one: "count_list (channels is) c = 1" "c \<notin> set (channels js)"
      using count_list_0_iff [of "channels js" c] by auto
    with run_lives [OF stage_start assms(1)] True obtain st where
      "stream_stage c s st" "lives Unused (stream_of c out) st" "st \<noteq> Unused" by blast
    with run_lives [OF this(1) assms(2)] one(2) that show thesis by blast
  next
    case False
    with run_unused [OF stage_start assms(1)] have u: "stream_stage c s Unused" "stream_of c out = []" by simp_all
    with run_lives [OF u(1) assms(2)] once [of js] assms(3) lives.rest [of Unused] False that
    show thesis by auto
  qed
  have held: "held c s \<longleftrightarrow> st \<notin> {Unused, Ended}" "held c s' \<longleftrightarrow> st' \<notin> {Unused, Ended}"
    "0 < waiting c s \<longleftrightarrow> st = Waiting"
    using held_stage waiting_stage st(1) st'(1) by blast+
  from lives_from_Unused [OF lives_trans [OF st'(2) st(2)]]
  have "\<forall>e \<in> set (butlast (stream_of c (out @ out'))). \<not> terminal_event e" by simp
  moreover have "held c s \<longrightarrow> (\<forall>e \<in> set (stream_of c out). \<not> terminal_event e)"
    "0 < waiting c s \<longrightarrow> stream_of c out = []"
    using lives_from_Unused [OF st(2)] held by blast+
  moreover have "\<not> held c s'" "stream_of c out' = []" if "c \<in> set (channels is)" "\<not> held c s"
    using that st(3) held lives_from_Ended [of "stream_of c out'" st'] st'(2) by auto
  moreover have "c \<in> set (command_chans (sv_queue s))" if "\<forall>a. sv_phase s \<noteq> Looping a" "held c s"
  proof -
    from that have "count_list (command_chans (sv_queue s)) c \<noteq> 0"
      by (auto simp: held_def waiting_def subscribed_to_def split: phase.splits)
    then show ?thesis by (simp add: count_list_0_iff)
  qed
  ultimately show ?thesis by simp
qed

text \<open>A job whose connection is lost after its first event, and a later connection.\<close>

definition cut_short :: "server_input list" where
  "cut_short =
     [Enqueue (CmdSubmit (request SubmitJob [[70], [7], [1]]) 4 (Some 1)), ConnectDone (Inr ()), LoopCommand (Inr ()),
      LoopReceived (Some (Inr (response JobCreated [[72]]))),
      LoopReceived (Some (Inr (response WorkData [[72], [9]]))), LoopReceived None]"

theorem streams_end_once_witness:
  "\<exists>s out s' out'. run (server_step False) server_start cut_short = (s, out, None)
    \<and> run (server_step False) s [Woken, ConnectDone (Inr ()), LoopReceived (Some (Inr (response WorkComplete [[72], [9]])))]
        = (s', out', None)
    \<and> stream_of 1 out = [Data [9]] \<and> stream_of 1 (out @ out') = [Data [9]]
    \<and> await_job [72] (stream_of 1 (out @ out')) = Inl ConnectionClosed"
proof -
  let ?js = "[Woken, ConnectDone (Inr ()), LoopReceived (Some (Inr (response WorkComplete [[72], [9]])))]"
  obtain s out where run: "run (server_step False) server_start cut_short = (s, out, None)"
    and s: "sv_phase s = Sleeping" "sv_queue s = []" and es: "stream_of 1 out = [Data [9]]"
    by (simp add: cut_short_def server_start_def enter_loop_def end_iteration_def loop_turn_def two_jobs_eval
        fail_all_pending_def events_to_def stream_of_def two_jobs_send del: two_jobs_def)
  have "\<not> held 1 s" using s by (simp add: held_def waiting_def subscribed_to_def)
  moreover obtain s' out' where later: "run (server_step False) s ?js = (s', out', None)"
    using s by (simp add: enter_loop_def loop_turn_def two_jobs_eval)
  moreover have "count_list (channels (cut_short @ ?js)) 1 \<le> 1" "1 \<in> set (channels cut_short)"
    by (simp_all add: cut_short_def)
  ultimately have "stream_of 1 (out @ out') = stream_of 1 out"
    using streams_end_once [OF run later, of 1 "[72]"] by blast
  with run later es show ?thesis by simp
qed

end
