(* ===== verification/Typing.thy ===== *)
theory Typing
  imports Client Worker
begin

text \<open>
  Which packets each side may send. A request is typed for a role when its type belongs to the role
  and it has as many arguments as the type says (\<^verbatim>\<open>PacketType::arg_count\<close>); commands, connection
  states and inputs are typed accordingly, and the steps of the client's server task and of the
  worker's task keep the types. So the encoder's argument check never rejects a packet of the
  library itself.
\<close>

section \<open>Typed packets\<close>

datatype role = ClientRole | HandshakeRole | WorkerRole

definition submit_types :: "packet_type set" where
  "submit_types = {SubmitJob, SubmitJobBg, SubmitJobHigh, SubmitJobHighBg, SubmitJobLow, SubmitJobLowBg,
     SubmitJobEpoch, SubmitReduceJob, SubmitReduceJobBackground}"

definition background_types :: "packet_type set" where
  "background_types = {SubmitJobBg, SubmitJobHighBg, SubmitJobLowBg, SubmitJobEpoch, SubmitReduceJobBackground}"

fun role_types :: "role \<Rightarrow> packet_type set" where
  "role_types ClientRole = submit_types \<union> {GetStatus, GetStatusUnique}"
| "role_types HandshakeRole = {OptionReq}"
| "role_types WorkerRole = {CanDo, CanDoTimeout, CantDo, GrabJob, GrabJobUniq, GrabJobAll, PreSleep,
     WorkStatus, WorkData, WorkWarning, WorkComplete, WorkFail, WorkException}"

definition well_typed :: "packet \<Rightarrow> bool" where
  "well_typed p \<longleftrightarrow> length (args p) = arg_count (ptype p)"

definition typed_request :: "role \<Rightarrow> packet \<Rightarrow> bool" where
  "typed_request ro p \<longleftrightarrow> magic p = Req \<and> ptype p \<in> role_types ro \<and> well_typed p"

lemmas typing_defs = typed_request_def well_typed_def submit_types_def background_types_def

lemma typed_request_request [simp]:
  "typed_request ro (request t as) \<longleftrightarrow> t \<in> role_types ro \<and> length as = arg_count t"
  by (simp add: typed_request_def well_typed_def request_def)

lemma well_typed_encodes: "well_typed p \<Longrightarrow> fst (encode c p dst) \<noteq> Inl (WrongArgCount t n m)"
  by (simp add: encode_def well_typed_def Let_def)

lemma decoded_well_typed: "decode c buf = (Inr (Some p), rest) \<Longrightarrow> well_typed p"
  by (auto simp: decode_def well_typed_def Let_def dest: split_args_Inr split: if_splits sum.splits)

section \<open>The client\<close>

text \<open>
  The commands that the methods of \<^verbatim>\<open>Client\<close> send: \<^verbatim>\<open>submit\<close> (and with it \<^verbatim>\<open>submit_bg\<close> and the
  \<^verbatim>\<open>submit_fg\<close> calls), \<^verbatim>\<open>submit_epoch\<close>, \<^verbatim>\<open>submit_reduce_job\<close> and the two status queries.
\<close>

inductive client_made :: "client_command \<Rightarrow> bool" where
  by_submit: "(i, cmd) \<in> set (fst (snd (submit md5 pool c f unique payload opts))) \<Longrightarrow> client_made cmd"
| by_epoch: "(i, cmd) \<in> set (fst (snd (submit_epoch md5 pool c f unique epoch payload))) \<Longrightarrow> client_made cmd"
| by_reduce: "(i, cmd) \<in> set (fst (snd (submit_reduce_job md5 pool c f unique reducer payload bg)))
    \<Longrightarrow> client_made cmd"
| by_status: "\<lbrakk>get_status pool q h = Some (cmds, res); (i, cmd) \<in> set cmds\<rbrakk> \<Longrightarrow> client_made cmd"
| by_status_unique: "\<lbrakk>get_status_unique pool q h = Some (cmds, res); (i, cmd) \<in> set cmds\<rbrakk> \<Longrightarrow> client_made cmd"

text \<open>A command is typed when its kind is that of its packet; only a background job has no stream.\<close>

fun typed_command :: "client_command \<Rightarrow> bool" where
  "typed_command (CmdSubmit p reply stream) \<longleftrightarrow>
     typed_request ClientRole p \<and> ptype p \<in> submit_types \<and> (stream = None \<longleftrightarrow> ptype p \<in> background_types)"
| "typed_command (CmdStatus p reply) \<longleftrightarrow> typed_request ClientRole p \<and> ptype p = GetStatus"
| "typed_command (CmdStatusUnique p reply) \<longleftrightarrow> typed_request ClientRole p \<and> ptype p = GetStatusUnique"

lemma typed_command_packet: "typed_command cmd \<Longrightarrow> typed_request ClientRole (cmd_packet cmd)"
  by (cases cmd) simp_all

lemma submit_packet_typed:
  assumes "(i, cmd) \<in> set (fst (snd (submit_packet md5 pool c t as unique bg)))"
    and "t \<in> submit_types" "bg \<longleftrightarrow> t \<in> background_types" "length as = arg_count t"
  shows "typed_command cmd"
proof -
  obtain pool' cmds res where sp: "submit_packet md5 pool c t as unique bg = (pool', cmds, res)"
    by (cases "submit_packet md5 pool c t as unique bg")
  from submit_packet_sends [OF sp] assms(1) sp
  have "cmd = CmdSubmit (request t as) (c_oneshot c) (if bg then None else Some (c_chan c))" by auto
  with assms(2-4) show ?thesis by (simp add: request_def typed_request_def well_typed_def)
qed

lemma submit_packet_type_kinds:
  "submit_packet_type p bg \<in> submit_types" "submit_packet_type p bg \<in> background_types \<longleftrightarrow> bg"
  by (cases p; cases bg; simp add: submit_packet_type_def submit_types_def background_types_def)+

lemma client_made_typed: "client_made cmd \<Longrightarrow> typed_command cmd"
proof (induction rule: client_made.induct)
  case (by_submit i cmd md5 pool c f unique payload opts)
  then show ?case
    by (auto simp: submit_def submit_packet_type_kinds submit_packet_type_args intro: submit_packet_typed)
next
  case (by_epoch i cmd md5 pool c f unique epoch payload)
  then show ?case
    by (auto simp: submit_epoch_def submit_types_def background_types_def intro: submit_packet_typed)
next
  case (by_reduce i cmd md5 pool c f unique reducer payload bg)
  then show ?case
    by (cases bg) (auto simp: submit_reduce_job_def submit_types_def background_types_def intro: submit_packet_typed)
next
  case by_status
  then show ?case
    by (auto simp: get_status_def Let_def request_def typing_defs split: option.splits if_splits)
next
  case by_status_unique
  then show ?case
    by (auto simp: get_status_unique_def Let_def request_def typing_defs split: option.splits if_splits)
qed

fun client_input_ok :: "server_input \<Rightarrow> bool" where
  "client_input_ok (Enqueue c) \<longleftrightarrow> client_made c"
| "client_input_ok _ \<longleftrightarrow> True"

lemma client_input_ok_iff: "client_input_ok i \<longleftrightarrow> (\<forall>c. i = Enqueue c \<longrightarrow> client_made c)"
  by (cases i) simp_all

fun client_output_ok :: "server_output \<Rightarrow> bool" where
  "client_output_ok (Out (Sent p)) \<longleftrightarrow> typed_request ClientRole p"
| "client_output_ok (Offered p) \<longleftrightarrow> typed_request HandshakeRole p"
| "client_output_ok _ \<longleftrightarrow> True"

definition queue_typed :: "server \<Rightarrow> bool" where
  "queue_typed s \<longleftrightarrow> list_all typed_command (sv_queue s)"

definition sends_typed :: "actor_output list \<Rightarrow> bool" where
  "sends_typed out \<longleftrightarrow> list_all (typed_request ClientRole) (sent out)"

lemma outputs_typed: "list_all client_output_ok (map Out out) \<longleftrightarrow> sends_typed out"
  unfolding sends_typed_def by (induction out rule: sent.induct) simp_all

lemma actor_step_typed:
  assumes "actor_step a i = (a', out, r)" and "list_all typed_command (commands [i])"
  shows "sends_typed out"
proof (cases i)
  case (Command c net)
  with assms typed_command_packet show ?thesis
    by (auto simp: actor_step_command sends_typed_def split: option.splits)
next
  case (Received nxt)
  with assms show ?thesis
    by (auto simp: sends_typed_def conn_recv_def dest: handle_incoming_settled split: sum.splits option.splits prod.splits)
qed (use assms in \<open>auto simp: sends_typed_def\<close>)

lemma loop_turn_typed:
  assumes "loop_turn s a i = (s', out, r)" and "list_all typed_command (commands [i])" and "queue_typed s"
  shows "queue_typed s' \<and> list_all client_output_ok out"
proof -
  obtain a' out' o' where step: "actor_step a i = (a', out', o')" by (cases "actor_step a i")
  note ok = actor_step_typed [OF step assms(2)]
  have fail: "sends_typed (fail_all_pending pend)" for pend by (simp add: sends_typed_def)
  show ?thesis
  proof (cases o')
    case None
    with step assms(1,3) ok outputs_typed show ?thesis by (auto simp: loop_turn_def queue_typed_def)
  next
    case (Some outcome)
    with step assms(1,3) ok fail show ?thesis
      by (cases outcome) (auto simp: loop_turn_def Let_def queue_typed_def end_iteration_def
          outputs_typed [unfolded list.pred_map comp_def] list.pred_map comp_def)
  qed
qed

lemma server_step_typed:
  assumes ok: "queue_typed s" "client_input_ok i" and step: "server_step we s i = (s', out, r)"
  shows "queue_typed s' \<and> list_all client_output_ok out"
proof (cases i)
  case (LoopCommand net)
  show ?thesis
  proof (cases "\<exists>a. sv_phase s = Looping a \<and> (sv_queue s \<noteq> [] \<or> sv_dropped s)")
    case True
    then obtain a where a: "sv_phase s = Looping a" "sv_queue s \<noteq> [] \<or> sv_dropped s" by blast
    show ?thesis
    proof (cases "sv_queue s")
      case Nil
      with loop_turn_typed [of s a CommandsClosed s' out r] a ok step LoopCommand show ?thesis by simp
    next
      case (Cons c rest)
      with loop_turn_typed [of "s\<lparr>sv_queue := rest\<rparr>" a "Command c net" s' out r] a ok step LoopCommand
      show ?thesis by (simp add: queue_typed_def)
    qed
  qed (use LoopCommand step ok in \<open>cases "sv_phase s"; cases "sv_queue s"; simp\<close>)
next
  case (LoopTick closed)
  with step ok loop_turn_typed [of s _ "Tick closed" s' out r] show ?thesis by (cases "sv_phase s") simp_all
next
  case (LoopReceived nxt)
  with step ok loop_turn_typed [of s _ "Received nxt" s' out r] show ?thesis by (cases "sv_phase s") simp_all
next
  case (NegotiateDone net nxt)
  have offered: "list_all client_output_ok (map Offered ps)" if "set ps \<subseteq> {request OptionReq [ascii ''exceptions'']}" for ps
    using that by (auto simp: list_all_iff)
  show ?thesis
  proof (cases "sv_phase s = Negotiating")
    case True
    from step [unfolded NegotiateDone] True ok(1) show ?thesis
      by (cases rule: negotiated_cases) (auto simp: offered queue_typed_def enter_loop_def end_iteration_def)
  qed (use step ok NegotiateDone in simp)
qed (use step ok in \<open>auto simp: queue_typed_def enter_loop_def end_iteration_def client_made_typed
      split: if_splits sum.splits\<close>)

interpretation client_types: typed_loop "server_step we" queue_typed client_input_ok client_output_ok for we
  by unfold_locales (rule server_step_typed)

section \<open>The worker\<close>

text \<open>
  A packet that the connection yields comes from the decoder, so it is well typed. A state is typed
  when the assignment it holds is one.
\<close>

fun from_decoder :: "packet result option \<Rightarrow> bool" where
  "from_decoder (Some (Inr p)) \<longleftrightarrow> well_typed p"
| "from_decoder _ \<longleftrightarrow> True"

fun worker_input_ok :: "worker_input \<Rightarrow> bool" where
  "worker_input_ok (Response nxt) \<longleftrightarrow> from_decoder nxt"
| "worker_input_ok (Wakes nxt) \<longleftrightarrow> from_decoder nxt"
| "worker_input_ok _ \<longleftrightarrow> True"

fun worker_output_ok :: "worker_output \<Rightarrow> bool" where
  "worker_output_ok (WSent p) \<longleftrightarrow> typed_request WorkerRole p"
| "worker_output_ok _ \<longleftrightarrow> True"

definition assignment_typed :: "worker_phase \<Rightarrow> bool" where
  "assignment_typed ph \<longleftrightarrow> (\<forall>p. ph = WAssigned p \<longrightarrow>
     well_typed p \<and> ptype p \<in> {JobAssign, JobAssignUniq, JobAssignAll})"

definition worker_typed :: "worker_conn \<Rightarrow> bool" where
  "worker_typed w \<longleftrightarrow> assignment_typed (wc_phase w)"

lemma assignment_typed_simps [simp]:
  "assignment_typed WStart" "assignment_typed WConnecting" "assignment_typed WRegistering"
  "assignment_typed WDiscarding" "assignment_typed WTop" "assignment_typed WFlushing"
  "assignment_typed WGrabbing" "assignment_typed WAwaiting" "assignment_typed WPreSleep"
  "assignment_typed WAsleep" "assignment_typed WBackoff" "assignment_typed WReturned"
  "assignment_typed WPanicked"
  by (simp_all add: assignment_typed_def)

lemma registration_typed: "typed_request WorkerRole (registration_packet e)"
  by (cases e) (simp split: option.split)

lemma report_typed: "typed_request WorkerRole (report_packet h r)"
  by (cases r) simp_all

lemma response_typed: "typed_request WorkerRole (response_packet h res)"
  by (simp add: response_packet_def split: sum.split work_error.split)

lemma dispatch_packets_typed: "dispatch_packets reg pkt = (ps, r) \<Longrightarrow> list_all (typed_request WorkerRole) ps"
  by (auto simp: dispatch_packets_def Let_def list_all_iff report_typed response_typed
      split: option.splits prod.splits handler_end.splits)

lemma dispatch_job_typed:
  assumes "dispatch_job net reg pkt = (out, r)"
  shows "list_all worker_output_ok (map WSent out)"
proof -
  obtain ps where ps: "dispatch_packets reg pkt = (ps, r)" "out = send_ignoring net 0 ps"
    using assms by (auto simp: dispatch_job_def split: prod.splits)
  with dispatch_packets_typed [OF ps(1)] send_ignoring_subset [of net 0 ps] show ?thesis
    by (auto simp: list_all_iff)
qed

lemma registering_typed:
  assumes "register_functions net reg = (out, r)"
  shows "list_all worker_output_ok (map WSent out)"
proof -
  obtain rest where "map registration_packet reg = out @ rest" using registering_prefix [OF assms] by blast
  then have "set out \<subseteq> set (map registration_packet reg)" by (metis set_append sup_ge1)
  then show ?thesis using registration_typed by (auto simp: list_all_iff)
qed

lemma send_then_typed:
  "\<lbrakk>send_then w p net w' = (v, out, r); typed_request WorkerRole p; assignment_typed (wc_phase w')\<rbrakk>
    \<Longrightarrow> worker_typed v \<and> list_all worker_output_ok out"
  by (auto simp: send_then_def end_loop_def back_off_def worker_typed_def split: option.splits)

lemma connect_step_typed:
  "\<lbrakk>connect_step w i = Some (v, out, r)\<rbrakk> \<Longrightarrow> worker_typed v \<and> list_all worker_output_ok out"
  by (cases i) (auto simp: goto_def back_off_def worker_typed_def dest: registering_typed
      split: if_splits sum.splits prod.splits)

lemma grab_type_typed: "typed_request WorkerRole (request (grab_type mode) [])"
  by (cases mode) (simp_all add: grab_type_def)

lemma grab_step_typed:
  assumes step: "grab_step mode w i = Some (v, out, r)" and ok: "worker_typed w" "worker_input_ok i"
  shows "worker_typed v \<and> list_all worker_output_ok out"
proof (cases i)
  case (Dispatch net)
  with step obtain pkt where "wc_phase w = WAssigned pkt" by (auto split: worker_phase.splits)
  with step Dispatch dispatch_job_typed show ?thesis
    by (fastforce simp: worker_typed_def split: prod.splits bool.splits)
next
  case (Flush net)
  with step show ?thesis
    by (auto simp: goto_def worker_typed_def dest: send_then_typed split: if_splits list.splits)
next
  case (Grab net)
  with step send_then_typed [OF _ grab_type_typed] show ?thesis by (auto split: if_splits)
next
  case (PreSleeps net)
  with step show ?thesis by (auto dest: send_then_typed split: if_splits)
next
  case (Response nxt)
  with step ok show ?thesis
    by (auto simp: conn_recv_def goto_def end_loop_def back_off_def worker_typed_def assignment_typed_def
        split: if_splits option.splits sum.splits)
next
  case (Wakes nxt)
  with step ok show ?thesis
    by (auto simp: conn_recv_def goto_def end_loop_def back_off_def worker_typed_def
        split: if_splits option.splits sum.splits)
qed (use step in \<open>auto simp: goto_def end_loop_def worker_typed_def split: if_splits\<close>)

lemma worker_step_typed:
  assumes "worker_typed w" "worker_input_ok i" "worker_step mode w i = (v, out, r)"
  shows "worker_typed v \<and> list_all worker_output_ok out"
proof (cases rule: worker_step_cases [where i = i and w = w and mode = mode])
  case other
  with assms show ?thesis by (auto simp: worker_step_def worker_typed_def)
next
  case (connect res)
  with assms connect_step_typed show ?thesis by simp
next
  case (grab res)
  with assms grab_step_typed show ?thesis by simp
next
  case skip
  with assms show ?thesis by simp
qed

interpretation worker_types: typed_loop "worker_step mode" worker_typed worker_input_ok worker_output_ok for mode
  by unfold_locales (rule worker_step_typed)

section \<open>No packet of the library is rejected for its arguments\<close>

text \<open>
  C17. Packets are well typed. Whatever happens to a worker's task, every packet it writes out is a
  request of a worker's type with as many arguments as the type has, and the assignment it holds is
  one with all its arguments; whatever happens to a client's server task that gets the commands the
  methods of \<^verbatim>\<open>Client\<close> make, every packet it writes out is \<^verbatim>\<open>OPTION_REQ\<close> in the handshake and a
  submission or a status query in the actor loop, with as many arguments as its type has, and only a
  background job is submitted without an event stream.
  So of the encoder's two checks only the payload cap can reject a packet.
\<close>

theorem packets_well_typed:
  assumes "run (worker_step mode) (worker_start reg) wis = (w, wout, wr)" and "\<forall>i \<in> set wis. worker_input_ok i"
    and "run (server_step we) server_start cis = (s, cout, cr)" and "\<forall>c. Enqueue c \<in> set cis \<longrightarrow> client_made c"
  shows "(\<forall>p. WSent p \<in> set wout \<longrightarrow> typed_request WorkerRole p)
    \<and> (\<forall>p. wc_phase w = WAssigned p \<longrightarrow> ptype p \<in> {JobAssign, JobAssignUniq, JobAssignAll}
          \<and> length (args p) = arg_count (ptype p))
    \<and> (\<forall>p. Out (Sent p) \<in> set cout \<longrightarrow> typed_request ClientRole p)
    \<and> (\<forall>p. Offered p \<in> set cout \<longrightarrow> typed_request HandshakeRole p)
    \<and> (\<forall>c \<in> set (sv_queue s). typed_command c)
    \<and> (\<forall>ro p c dst t n m. typed_request ro p \<longrightarrow> fst (encode c p dst) \<noteq> Inl (WrongArgCount t n m))"
proof (intro conjI)
  have "worker_typed (worker_start reg)" by (simp add: worker_typed_def worker_start_def)
  from worker_types.run_typed [OF this _ assms(1)] assms(2)
  have w: "worker_typed w" "list_all worker_output_ok wout" by (auto simp: list_all_iff)
  from w show "\<forall>p. WSent p \<in> set wout \<longrightarrow> typed_request WorkerRole p" by (auto simp: list_all_iff)
  from w show "\<forall>p. wc_phase w = WAssigned p \<longrightarrow> ptype p \<in> {JobAssign, JobAssignUniq, JobAssignAll}
      \<and> length (args p) = arg_count (ptype p)"
    by (simp add: worker_typed_def assignment_typed_def well_typed_def)
  have "queue_typed server_start" by (simp add: queue_typed_def server_start_def)
  moreover have "list_all client_input_ok cis"
    using assms(4) client_input_ok_iff by (auto simp: list_all_iff)
  ultimately have s: "queue_typed s" "list_all client_output_ok cout"
    using client_types.run_typed [OF _ _ assms(3)] by blast+
  from s show "\<forall>p. Out (Sent p) \<in> set cout \<longrightarrow> typed_request ClientRole p" by (auto simp: list_all_iff)
  from s show "\<forall>p. Offered p \<in> set cout \<longrightarrow> typed_request HandshakeRole p" by (auto simp: list_all_iff)
  from s show "\<forall>c \<in> set (sv_queue s). typed_command c" by (simp add: queue_typed_def list_all_iff)
  show "\<forall>ro p c dst t n m. typed_request ro p \<longrightarrow> fst (encode c p dst) \<noteq> Inl (WrongArgCount t n m)"
    using well_typed_encodes by (auto simp: typed_request_def)
qed

theorem packets_well_typed_witness:
  "\<exists>wout cout. fst (snd (run (worker_step Uniq) (worker_start one_fn) (up @ [Discards, Unregister [102], AtTop, Flush (Inr ())]))) = wout
    \<and> fst (snd (run (server_step True) server_start [ConnectDone (Inr ()), NegotiateDone (Inr ()) None, Woken,
         ConnectDone (Inr ()), NegotiateDone (Inr ()) (Some (Inr (response OptionRes [[0]]))),
         Enqueue (CmdStatus (request GetStatus [[72]]) 0), LoopCommand (Inr ())])) = cout
    \<and> (\<forall>p. WSent p \<in> set wout \<longrightarrow> typed_request WorkerRole p) \<and> WSent (request CantDo [[102]]) \<in> set wout
    \<and> (\<forall>p. Out (Sent p) \<in> set cout \<longrightarrow> typed_request ClientRole p) \<and> Out (Sent (request GetStatus [[72]])) \<in> set cout
    \<and> (\<forall>p. Offered p \<in> set cout \<longrightarrow> typed_request HandshakeRole p) \<and> Offered (request OptionReq [ascii ''exceptions'']) \<in> set cout"
proof -
  let ?wis = "up @ [Discards, Unregister [102], AtTop, Flush (Inr ())]"
  let ?cmd = "CmdStatus (request GetStatus [[72]]) 0"
  let ?cis = "[ConnectDone (Inr ()), NegotiateDone (Inr ()) None, Woken, ConnectDone (Inr ()),
    NegotiateDone (Inr ()) (Some (Inr (response OptionRes [[0]]))), Enqueue ?cmd, LoopCommand (Inr ())]"
  obtain w wout wr where w: "run (worker_step Uniq) (worker_start one_fn) ?wis = (w, wout, wr)"
    and wsent: "WSent (request CantDo [[102]]) \<in> set wout"
    by (simp add: worker_eval)
  have "send_error (request GetStatus [[72]]) (Inr ()) = None"
    "send_error (request OptionReq [ascii ''exceptions'']) (Inr ()) = None"
    by (simp_all add: send_error_None encodable_def request_def encoded_body_len_def)
  then obtain s cout cr where s: "run (server_step True) server_start ?cis = (s, cout, cr)"
    and csent: "Out (Sent (request GetStatus [[72]])) \<in> set cout"
      "Offered (request OptionReq [ascii ''exceptions'']) \<in> set cout"
    by (simp add: server_start_def enter_loop_def loop_turn_def actor_start_def end_iteration_def
        negotiate_exceptions_def conn_recv_def Let_def del: ascii_simps)
  have "get_status (pool_of [\<lparr>connected = True, attempted = True\<rparr>])
      \<lparr>c_oneshot = 0, c_chan = 0, c_open = (\<lambda>_. True), c_reply = None\<rparr>
      \<lparr>jh_server_index = 0, jh_handle = [72], jh_unique = None\<rparr> = Some ([(0, ?cmd)], Inl ConnectionClosed)"
    by (simp add: get_status_def pool_get_def pool_of_def pool_new_def await_reply_def)
  then have "client_made ?cmd" by (rule client_made.by_status) simp
  then have "\<forall>c. Enqueue c \<in> set ?cis \<longrightarrow> client_made c" by simp
  moreover have "\<forall>i \<in> set ?wis. worker_input_ok i" by (simp add: up_def)
  ultimately show ?thesis using packets_well_typed [OF w _ s] w s wsent csent by simp
qed

end
