(* ===== verification/Worker_Pool.thy ===== *)
theory Worker_Pool
  imports Worker
begin

text \<open>
  A whole \<^verbatim>\<open>Worker\<close> (\<^verbatim>\<open>src/worker/mod.rs\<close>): the grab-loop tasks that \<^verbatim>\<open>WorkerBuilder::run\<close> spawns,
  with the registry, the shutdown flag and the broadcast of \<^verbatim>\<open>unregister\<close> that they share. Each task
  has its copy of what is shared; the first property is that the copies never differ.
\<close>

section \<open>The tasks of a worker\<close>

type_synonym workers = "worker_conn list"

definition worker_run :: "'c worker_builder \<Rightarrow> workers" where
  "worker_run b = map (\<lambda>_. worker_start (wb_registry b)) (worker_tasks b)"

text \<open>\<open>Task k i\<close> is an input of the \<open>k\<close>-th task alone, the others are the methods of \<^verbatim>\<open>Worker\<close>.\<close>

datatype workers_input = UnregisterAll bytes | ShutdownAll | Task nat worker_input

fun task_input :: "worker_input \<Rightarrow> bool" where
  "task_input (Unregister _) = False"
| "task_input Shutdown = False"
| "task_input _ = True"

fun workers_step :: "grab_mode \<Rightarrow> workers \<Rightarrow> workers_input \<Rightarrow> workers" where
  "workers_step mode ws (UnregisterAll f) = map (\<lambda>w. unregister w f) ws"
| "workers_step mode ws ShutdownAll = map (\<lambda>w. w\<lparr>wc_shutdown := True\<rparr>) ws"
| "workers_step mode ws (Task k i) =
     (if k < length ws \<and> task_input i then ws[k := fst (worker_step mode (ws ! k) i)] else ws)"

definition workers_run :: "grab_mode \<Rightarrow> workers \<Rightarrow> workers_input list \<Rightarrow> workers" where
  "workers_run mode = foldl (workers_step mode)"

lemma workers_run_simps [simp]:
  "workers_run mode ws [] = ws"
  "workers_run mode ws (x # xs) = workers_run mode (workers_step mode ws x) xs"
  "workers_run mode ws (xs @ ys) = workers_run mode (workers_run mode ws xs) ys"
  by (simp_all add: workers_run_def)

lemma length_workers_step [simp]: "length (workers_step mode ws x) = length ws"
  by (cases x) simp_all

lemma length_workers_run [simp]: "length (workers_run mode ws xs) = length ws"
  by (induction xs arbitrary: ws) simp_all

lemma length_worker_run: "length (worker_run b) = length (wb_servers b) * wb_concurrency b"
proof -
  have "length (concat (map (replicate n) xs)) = length xs * n" for n and xs :: "bytes list"
    by (induction xs) simp_all
  then show ?thesis by (simp add: worker_run_def worker_tasks_def)
qed

section \<open>Sharing\<close>

definition shared :: "worker_conn \<Rightarrow> registry \<times> bool" where
  "shared w = (wc_registry w, wc_shutdown w)"

lemma shared_simps [simp]:
  "shared (w\<lparr>wc_phase := ph\<rparr>) = shared w" "shared (w\<lparr>wc_notes := ns\<rparr>) = shared w"
  "shared (w\<lparr>wc_backoff := d\<rparr>) = shared w" "shared (w\<lparr>wc_lagged := b\<rparr>) = shared w"
  by (simp_all add: shared_def)

lemma goto_shared [simp]: "fst (goto w ph) = w\<lparr>wc_phase := ph\<rparr>"
  "fst (back_off w) = w\<lparr>wc_phase := WBackoff\<rparr>"
  by (simp_all add: goto_def back_off_def)

lemma end_loop_shared: "shared (fst (end_loop w out)) = shared w"
  by (cases out) (simp_all add: end_loop_def)

lemma send_then_shared: "shared w' = shared w \<Longrightarrow> shared (fst (send_then w p net w')) = shared w"
  by (simp add: send_then_def end_loop_shared split: option.split)

lemma connect_shared: "connect_step w i = Some res \<Longrightarrow> shared (fst res) = shared w"
  by (cases i) (auto split: if_splits sum.splits prod.splits)

lemma grab_shared: "grab_step mode w i = Some res \<Longrightarrow> shared (fst res) = shared w"
  by (cases i) (auto simp: end_loop_shared send_then_shared
      split: if_splits sum.splits prod.splits list.splits option.splits worker_phase.splits bool.splits)

lemma worker_step_shared: "task_input i \<Longrightarrow> shared (fst (worker_step mode w i)) = shared w"
proof (cases rule: worker_step_cases [where i = i and w = w and mode = mode])
  case other
  assume "task_input i"
  with other show ?thesis by auto
qed (simp_all add: connect_shared grab_shared)

fun unregistered :: "workers_input list \<Rightarrow> bytes list" where
  "unregistered [] = []"
| "unregistered (UnregisterAll f # xs) = f # unregistered xs"
| "unregistered (_ # xs) = unregistered xs"

lemma workers_run_shared:
  "\<forall>w \<in> set ws. shared w = (reg, sd) \<Longrightarrow>
   \<forall>w \<in> set (workers_run mode ws xs).
     shared w = (fold registry_remove (unregistered xs) reg, sd \<or> ShutdownAll \<in> set xs)"
proof (induction xs arbitrary: ws reg sd)
  case (Cons x xs)
  show ?case
  proof (cases x)
    case (UnregisterAll f)
    with Cons.prems have "\<forall>w \<in> set (workers_step mode ws x). shared w = (registry_remove f reg, sd)"
      by (auto simp: shared_def)
    from Cons.IH [OF this] UnregisterAll show ?thesis by simp
  next
    case ShutdownAll
    with Cons.prems have "\<forall>w \<in> set (workers_step mode ws x). shared w = (reg, True)"
      by (auto simp: shared_def)
    from Cons.IH [OF this] ShutdownAll show ?thesis by simp
  next
    case (Task k i)
    have "\<forall>w \<in> set (workers_step mode ws x). shared w = (reg, sd)"
    proof
      fix w assume w: "w \<in> set (workers_step mode ws x)"
      then consider "w \<in> set ws" | "w = fst (worker_step mode (ws ! k) i)" "task_input i" "k < length ws"
        using Task by (auto split: if_splits dest: set_update_subset_insert [THEN subsetD])
      then show "shared w = (reg, sd)"
        using Cons.prems worker_step_shared by cases auto
    qed
    from Cons.IH [OF this] Task show ?thesis by simp
  qed
qed simp

lemma registry_removes_keys: "fst ` set (fold registry_remove fs reg) = fst ` set reg - set fs"
  by (induction fs arbitrary: reg) (auto simp: registry_remove_keys)

lemma registry_removes_lookup: "f \<in> set fs \<Longrightarrow> map_of (fold registry_remove fs reg) f = None"
  by (simp add: map_of_eq_None_iff registry_removes_keys)

text \<open>
  C15. One worker, one registry. After any calls of \<^verbatim>\<open>unregister\<close> and \<^verbatim>\<open>shutdown\<close> and any steps of the
  tasks, in any interleaving, there are \<^verbatim>\<open>concurrency\<close> tasks per server, every task sees the same
  functions - those registered with the builder less those unregistered since - and the same
  shutdown flag; so a job for a function that has been unregistered is failed back by whichever task
  gets it, and no handler runs.
\<close>

theorem workers_share_registry:
  assumes "w \<in> set (workers_run mode (worker_run b) xs)"
  shows "length (workers_run mode (worker_run b) xs) = length (wb_servers b) * wb_concurrency b
    \<and> keys w = fst ` set (wb_registry b) - set (unregistered xs)
    \<and> (wc_shutdown w \<longleftrightarrow> ShutdownAll \<in> set xs)
    \<and> (\<forall>pkt. wj_function (job_of pkt) \<in> set (unregistered xs) \<longrightarrow>
         dispatch_packets (wc_registry w) pkt = ([request WorkFail [wj_handle (job_of pkt)]], True))"
proof -
  have "\<forall>w \<in> set (worker_run b). shared w = (wb_registry b, False)"
    by (auto simp: worker_run_def shared_def worker_start_def)
  from workers_run_shared [OF this] assms
  have w: "wc_registry w = fold registry_remove (unregistered xs) (wb_registry b)"
    "wc_shutdown w \<longleftrightarrow> ShutdownAll \<in> set xs"
    by (auto simp: shared_def)
  then show ?thesis
    by (auto simp: length_worker_run keys_def registry_removes_keys registry_removes_lookup
        dispatch_packets_def Let_def)
qed

text \<open>A worker with two tasks for one server.\<close>

definition two_tasks :: "unit worker_builder" where
  "two_tasks = register (worker_concurrency (worker_servers (worker_builder_new None) [[115]]) 2) [102]
     (\<lambda>job. ([], Returns (Inl WorkFailed)))"

lemma two_tasks_run: "worker_run two_tasks = [worker_start one_fn, worker_start one_fn]"
  by (simp add: worker_run_def two_tasks_def worker_tasks_def worker_concurrency_def worker_servers_def
      worker_builder_new_def register_def registry_insert_def one_fn_def numeral_2_eq_2)

theorem workers_share_registry_witness:
  "dispatch_packets (wc_registry (workers_run Uniq (worker_run two_tasks) [Task 0 Begin, UnregisterAll [102]] ! 1))
     (response JobAssign [[72], [102], []]) = ([request WorkFail [[72]]], True)"
proof -
  let ?ws = "workers_run Uniq (worker_run two_tasks) [Task 0 Begin, UnregisterAll [102]]"
  have "length ?ws = 2" by (simp add: two_tasks_run)
  then have "?ws ! 1 \<in> set ?ws" by (intro nth_mem) simp
  from workers_share_registry [OF this] show ?thesis
    by (simp del: workers_run_simps add: job_of_def arg_str_or_empty_def arg_str_def arg_def)
qed

section \<open>Shutting down all tasks\<close>

definition over :: "worker_conn \<Rightarrow> bool" where
  "over w \<longleftrightarrow> wc_phase w \<in> {WReturned, WPanicked}"

lemma over_step: "\<lbrakk>over w; task_input i\<rbrakk> \<Longrightarrow> over (fst (worker_step mode w i))"
proof (cases rule: worker_step_cases [where i = i and w = w and mode = mode])
  case other
  assume "task_input i"
  with other show ?thesis by auto
next
  case connect
  assume "over w"
  with connect show ?thesis by (cases i) (auto simp: over_def)
next
  case grab
  assume "over w"
  with grab show ?thesis by (cases i) (auto simp: over_def split: worker_phase.splits)
qed simp

text \<open>One task on the inputs of a schedule that are its own.\<close>

definition task_run :: "grab_mode \<Rightarrow> worker_conn \<Rightarrow> worker_input list \<Rightarrow> worker_conn" where
  "task_run mode = foldl (\<lambda>w i. fst (worker_step mode w i))"

definition inputs_of :: "nat \<Rightarrow> (nat \<times> worker_input) list \<Rightarrow> worker_input list" where
  "inputs_of k js = map snd (filter (\<lambda>j. fst j = k) js)"

lemma inputs_of_simps [simp]:
  "inputs_of k [] = []" "inputs_of k ((m, i) # js) = (if m = k then i # inputs_of k js else inputs_of k js)"
  by (simp_all add: inputs_of_def)

lemma workers_run_tasks:
  "\<lbrakk>k < length ws; \<forall>j \<in> set js. task_input (snd j)\<rbrakk>
    \<Longrightarrow> workers_run mode ws (map (\<lambda>(m, i). Task m i) js) ! k = task_run mode (ws ! k) (inputs_of k js)"
proof (induction js arbitrary: ws)
  case (Cons j js)
  obtain m i where j: "j = (m, i)" by (cases j)
  from Cons.IH [of "workers_step mode ws (Task m i)"] Cons.prems show ?case
    by (auto simp: j task_run_def nth_list_update)
qed (simp add: task_run_def)

lemma over_task_run: "\<lbrakk>over w; \<forall>i \<in> set is. task_input i\<rbrakk> \<Longrightarrow> over (task_run mode w is)"
  by (induction "is" arbitrary: w) (simp_all add: task_run_def over_step)

lemma remaining_over: "remaining w = 0 \<longleftrightarrow> over w"
  by (simp add: over_def split: worker_phase.split)

lemma task_run_over:
  "\<lbrakk>wc_shutdown w; effective mode w is; remaining w \<le> length is; \<forall>i \<in> set is. task_input i\<rbrakk>
    \<Longrightarrow> over (task_run mode w is)"
proof (induction "is" arbitrary: w)
  case Nil
  then have "over w" using remaining_over [of w] by (simp del: remaining.simps)
  then show ?case by (simp add: task_run_def)
next
  case (Cons i "is")
  from Cons.prems(2) obtain w' out r where own: "own_step mode w i = Some (w', out, r)"
    by (auto split: option.splits prod.splits)
  note less = own_remaining [OF own Cons.prems(1)]
  have run: "task_run mode w (i # is) = task_run mode w' is"
    using worker_step_own [OF own] by (simp add: task_run_def)
  show ?case
  proof (cases r)
    case None
    then have "effective mode w' is" using Cons.prems(2) own by simp
    with Cons.IH [of w'] less Cons.prems(3,4) show ?thesis by (simp del: remaining.simps add: run)
  next
    case (Some u)
    with less have "over w'" using remaining_over [of w'] by (simp del: remaining.simps)
    with over_task_run [of w' "is"] Cons.prems(4) show ?thesis by (simp add: run)
  qed
qed

text \<open>
  C16. \<^verbatim>\<open>shutdown\<close> comes to its end. From any state of the worker, once the flag is set and whatever the
  order in which the tasks get their turns: when every task that is not over yet has taken 7 steps and
  one for each \<^verbatim>\<open>CANT_DO\<close> it still has to send, and one to notice a lag, all tasks are over, so joining them ends.
\<close>

theorem shutdown_joins_all:
  assumes "\<forall>j \<in> set js. task_input (snd j)"
    and "\<forall>k < length ws. over (ws ! k) \<or>
      effective mode ((ws ! k)\<lparr>wc_shutdown := True\<rparr>) (inputs_of k js)
      \<and> 7 + length (wc_notes (ws ! k)) + of_bool (wc_lagged (ws ! k)) \<le> length (inputs_of k js)"
  shows "\<forall>w \<in> set (workers_run mode ws (ShutdownAll # map (\<lambda>(k, i). Task k i) js)). over w"
proof -
  let ?ws = "workers_step mode ws ShutdownAll"
  have "over (workers_run mode ?ws (map (\<lambda>(k, i). Task k i) js) ! k)" if k: "k < length ws" for k
  proof -
    let ?w = "(ws ! k)\<lparr>wc_shutdown := True\<rparr>"
    have ins: "\<forall>i \<in> set (inputs_of k js). task_input i" using assms(1) by (auto simp: inputs_of_def)
    have "over (task_run mode ?w (inputs_of k js))"
    proof (cases "over (ws ! k)")
      case True
      then have "over ?w" by (simp add: over_def)
      then show ?thesis using ins by (rule over_task_run)
    next
      case False
      with assms(2) k have "effective mode ?w (inputs_of k js)"
        "7 + length (wc_notes (ws ! k)) + of_bool (wc_lagged (ws ! k)) \<le> length (inputs_of k js)" by auto
      moreover have "remaining ?w \<le> 7 + length (wc_notes (ws ! k)) + of_bool (wc_lagged (ws ! k))"
        by (auto split: worker_phase.split)
      ultimately show ?thesis using ins by (intro task_run_over) (simp_all del: remaining.simps)
    qed
    then show ?thesis using workers_run_tasks [of k ?ws js mode] k assms(1) by simp
  qed
  then show ?thesis by (auto simp: in_set_conv_nth)
qed

theorem shutdown_joins_all_witness:
  "let js = replicate 8 (1, Begin) @ replicate 8 (0, Begin) in
   \<forall>w \<in> set (workers_run Uniq (worker_run two_tasks) (ShutdownAll # map (\<lambda>(k, i). Task k i) js)). over w"
proof -
  let ?js = "replicate 8 (1, Begin) @ replicate 8 (0, Begin) :: (nat \<times> worker_input) list"
  have tasks: "length (worker_run two_tasks) = 2" "k < 2 \<Longrightarrow> worker_run two_tasks ! k = worker_start one_fn" for k
    by (auto simp: two_tasks_run less_2_cases_iff nth_Cons')
  have inputs: "k < 2 \<Longrightarrow> inputs_of k ?js = replicate 8 Begin" for k
    by (simp only: inputs_of_def filter_append filter_replicate map_append map_replicate) (auto simp: less_2_cases_iff)
  have begin_8: "replicate 8 Begin = Begin # replicate 7 Begin" by (simp add: numeral_eq_Suc)
  have "effective Uniq ((worker_start one_fn)\<lparr>wc_shutdown := True\<rparr>) (replicate 8 Begin)"
    unfolding begin_8 by (simp add: worker_start_def own_step_def)
  moreover have "7 + length (wc_notes (worker_start one_fn)) + of_bool (wc_lagged (worker_start one_fn))
      \<le> length (replicate 8 Begin)" by (simp add: worker_start_def)
  ultimately have "over (worker_run two_tasks ! k) \<or>
      effective Uniq ((worker_run two_tasks ! k)\<lparr>wc_shutdown := True\<rparr>) (inputs_of k ?js)
      \<and> 7 + length (wc_notes (worker_run two_tasks ! k)) + of_bool (wc_lagged (worker_run two_tasks ! k)) \<le> length (inputs_of k ?js)"
    if "k < length (worker_run two_tasks)" for k
    using that unfolding tasks(1) by (simp only: tasks(2) inputs simp_thms)
  moreover have "\<forall>j \<in> set ?js. task_input (snd j)" by auto
  ultimately show ?thesis unfolding Let_def by (intro shutdown_joins_all) blast+
qed

end
