(* ===== verification/Examples.thy ===== *)
theory Examples
  imports Whole_Job Worker_Pool
begin

text \<open>
  The programs under \<^verbatim>\<open>examples\<close>, on the model. \<^verbatim>\<open>std::env::args\<close> is the list of arguments, the
  program's name first; what is printed is the value. They show the interfaces in use together: the
  connection, the client's calls, and a worker from its builder to its shutdown.
\<close>

section \<open>\<^verbatim>\<open>worker_reverse.rs\<close>\<close>

definition server_arg :: "bytes list \<Rightarrow> bytes" where
  "server_arg argv = (if 1 < length argv then argv ! 1 else ascii ''127.0.0.1:4730'')"

definition reverse_job :: handler where
  "reverse_job job = ([], Returns (Inr (rev (wj_payload job))))"

definition reverse_builder :: "bytes list \<Rightarrow> nat option \<Rightarrow> unit worker_builder" where
  "reverse_builder argv parallelism =
     register (worker_servers (worker_builder_new parallelism) [server_arg argv]) (ascii ''reverse'') reverse_job"

text \<open>The worker runs (\<open>xs\<close>) until Ctrl+C, and is then shut down and joined (\<open>ys\<close>).\<close>

definition worker_reverse :: "bytes list \<Rightarrow> nat option \<Rightarrow> workers_input list \<Rightarrow> workers_input list \<Rightarrow> workers" where
  "worker_reverse argv parallelism xs ys =
     workers_run Uniq (worker_run (reverse_builder argv parallelism)) (xs @ ShutdownAll # ys)"

lemma reverse_registry:
  "wb_registry (reverse_builder argv par) = [(ascii ''reverse'', \<lparr>rh_handler = reverse_job, rh_timeout = None\<rparr>)]"
  by (simp add: reverse_builder_def register_def registry_insert_def worker_servers_def worker_builder_new_def)

text \<open>The packets of the example: it advertises its function, and answers a job with the payload reversed.\<close>

lemma reverse_advertises:
  "map registration_packet (wb_registry (reverse_builder argv par)) = [request CanDo [ascii ''reverse'']]"
  by (simp add: reverse_registry)

lemma reverse_answers:
  assumes "utf8_valid u" "utf8_valid h" and "length h + length payload + 1 \<le> 0x4000000"
  shows "fst (dispatch_job (\<lambda>_. Inr ()) (wb_registry (reverse_builder argv par))
      (assigns h (request t [ascii ''reverse'', u, payload]))) = [request WorkComplete [h, rev payload]]"
proof -
  have "utf8_valid (ascii ''reverse'')" by simp
  moreover have "map_of (wb_registry (reverse_builder argv par)) (ascii ''reverse'')
      = Some \<lparr>rh_handler = reverse_job, rh_timeout = None\<rparr>" by (simp add: reverse_registry)
  moreover have "\<forall>p \<in> set (map (report_packet h) [] @ [response_packet h (Inr (rev payload))]). encodable codec_new p"
    using assms(3) by (simp add: response_packet_def encodable_def request_def encoded_body_len_def)
  ultimately show ?thesis
    using dispatch_assigned [of "ascii ''reverse''" u h "wb_registry (reverse_builder argv par)" _ payload "[]"
        "Inr (rev payload)" t] assms(1,2)
    by (simp add: reverse_job_def response_packet_def)
qed

section \<open>\<^verbatim>\<open>raw_echo.rs\<close>\<close>

datatype echo_output = EchoText bytes | UnexpectedReply packet_type | ClosedNoReply

definition raw_echo :: "(bytes \<Rightarrow> io_error + 's) \<Rightarrow> bytes list \<Rightarrow> unit result \<Rightarrow> packet result option
    \<Rightarrow> echo_output result" where
  "raw_echo tcp argv net nxt =
     (case connection_connect tcp (server_arg argv) of
        Inl e \<Rightarrow> Inl e
      | Inr conn \<Rightarrow>
          (case send_error (request EchoReq [ascii ''hello gearman'']) net of
             Some e \<Rightarrow> Inl e
           | None \<Rightarrow>
               (case conn_recv nxt of
                  Inl e \<Rightarrow> Inl e
                | Inr (Some pkt) \<Rightarrow>
                    if ptype pkt = EchoRes
                    then Inr (EchoText (case arg_str pkt 0 of Some txt \<Rightarrow> txt | None \<Rightarrow> ascii ''<non-utf8>''))
                    else Inr (UnexpectedReply (ptype pkt))
                | Inr None \<Rightarrow> Inr ClosedNoReply)))"

text \<open>Against a server that sends the request's argument back, the example prints it.\<close>

lemma raw_echo_prints:
  assumes "tcp (server_arg argv) = Inr socket"
  shows "raw_echo tcp argv (Inr ()) (Some (Inr (response EchoRes (args (request EchoReq [ascii ''hello gearman''])))))
    = Inr (EchoText (ascii ''hello gearman''))"
proof -
  have "send_error (request EchoReq [ascii ''hello gearman'']) (Inr ()) = None"
    by (simp add: send_error_None encodable_def request_def encoded_body_len_def)
  moreover have "arg_str (response EchoRes [ascii ''hello gearman'']) 0 = Some (ascii ''hello gearman'')"
    by (simp add: arg_str_def arg_def)
  ultimately show ?thesis
    using assms by (simp add: raw_echo_def connection_connect_def conn_recv_def request_def)
qed

section \<open>\<^verbatim>\<open>client_submit.rs\<close>\<close>

record submit_output =
  so_handle :: job_handle
  so_known :: bool
  so_running :: bool
  so_numerator :: u64
  so_denominator :: u64

text \<open>
  The two calls get the replies of their requests in \<open>c\<close> and \<open>q\<close>; the tasks of the pool that
  connecting left may have changed its flags by then (\<open>now\<close>).
\<close>

definition client_submit :: "(bytes \<Rightarrow> bytes) \<Rightarrow> (points \<Rightarrow> points) \<Rightarrow> bytes list \<Rightarrow> poll list
    \<Rightarrow> (server_pool \<Rightarrow> server_pool) \<Rightarrow> bytes call \<Rightarrow> job_status call
    \<Rightarrow> ((nat \<times> client_command) list \<times> submit_output result) option" where
  "client_submit md5 srt argv polls now c q =
     (case client_connect md5 srt (builder_servers builder_new [server_arg argv] :: unit client_builder) polls of
        None \<Rightarrow> None
      | Some (Inl e) \<Rightarrow> Some ([], Inl e)
      | Some (Inr pool) \<Rightarrow>
          (case submit_bg md5 (now pool) c (ascii ''reverse'') (ascii ''hello gearman'') of
             (pool', cmds, Inl e) \<Rightarrow> Some (cmds, Inl e)
           | (pool', cmds, Inr handle) \<Rightarrow>
               (case get_status pool' q handle of
                  None \<Rightarrow> None
                | Some (cmds', Inl e) \<Rightarrow> Some (cmds @ cmds', Inl e)
                | Some (cmds', Inr status) \<Rightarrow> Some (cmds @ cmds',
                    Inr \<lparr>so_handle = handle, so_known = js_known status, so_running = js_running status,
                         so_numerator = js_numerator status, so_denominator = js_denominator status\<rparr>))))"

text \<open>The example asks the server it submitted to for the status of the job it submitted, and prints the reply.\<close>

lemma client_submit_runs:
  assumes "polls \<noteq> []" and "any_healthy (pool_of (seen (hd polls)))"
    and "now = (\<lambda>pool. one_server)" and "h = \<lparr>jh_server_index = 0, jh_handle = handle, jh_unique = None\<rparr>"
  shows "client_submit md5 srt argv polls now (some_call (Some (Inr handle))) (some_call (Some (Inr status)))
    = Some ([(0, CmdSubmit (request SubmitJobBg [ascii ''reverse'', [], ascii ''hello gearman'']) 4 None),
             (0, CmdStatus (request GetStatus [handle]) 4)],
        Inr \<lparr>so_handle = h, so_known = js_known status, so_running = js_running status,
             so_numerator = js_numerator status, so_denominator = js_denominator status\<rparr>)"
proof -
  obtain p ps where polls: "polls = p # ps" using assms(1) by (cases polls) auto
  have "pool_get (one_server\<lparr>sp_cursor := 1\<rparr>) 0 \<noteq> None" by (simp add: pool_get_def one_server_def pool_new_def)
  with assms polls show ?thesis
    by (auto simp: client_submit_def client_connect_def builder_servers_def builder_new_def Let_def submit_bg_def
        submit_def submit_packet_def one_server_select some_call_def await_reply_def handle_only_def
        background_def submit_options_default_def submit_packet_type_def unique_arg_def get_status_def)
qed

end
