(* ===== verification/Admin.thy ===== *)
theory Admin
  imports Errors
begin

text \<open>
  \<^verbatim>\<open>src/admin/mod.rs\<close>: the client of the admin text protocol. The connection is a pair of streams:
  the bytes the server will have sent when it closes the connection or an error ends reading, and
  how writing a line ends. A string is its UTF-8 bytes.
\<close>

section \<open>Lines\<close>

definition MAX_ADMIN_LINE_LEN :: nat where
  "MAX_ADMIN_LINE_LEN = 64 * 1024"

abbreviation (input) "LF \<equiv> 0x0A :: u8"
abbreviation (input) "CR \<equiv> 0x0D :: u8"
abbreviation (input) "TAB \<equiv> 0x09 :: u8"
abbreviation (input) "DOT \<equiv> 0x2E :: u8"
abbreviation (input) "SPACE \<equiv> 0x20 :: u8"

text \<open>What is still to be read, and the error that ends it (\<^const>\<open>None\<close>: the end of the stream).\<close>

record stream =
  incoming :: bytes
  broken :: "io_error option"

text \<open>\<^verbatim>\<open>while line.ends_with(['\n', '\r']) { line.pop(); }\<close>\<close>

definition strip_eol :: "bytes \<Rightarrow> bytes" where
  "strip_eol line = rev (dropWhile (\<lambda>b. b = LF \<or> b = CR) (rev line))"

text \<open>
  \<^verbatim>\<open>(&mut reader).take(MAX).read_line(&mut line)\<close>: up to and with the first line feed, at most
  \<^const>\<open>MAX_ADMIN_LINE_LEN\<close> bytes, fewer only at the end of the stream; then the bytes must be UTF-8.
\<close>

definition raw_line :: "stream \<Rightarrow> bytes \<times> stream" where
  "raw_line s =
     (let window = take MAX_ADMIN_LINE_LEN (incoming s);
          n = (case position (\<lambda>b. b = LF) window of Some i \<Rightarrow> Suc i | None \<Rightarrow> length window)
      in (take n (incoming s), s\<lparr>incoming := drop n (incoming s)\<rparr>))"

definition read_line :: "stream \<Rightarrow> bytes result \<times> stream" where
  "read_line s =
     (case raw_line s of (line, s') \<Rightarrow>
        (let complete = (LF \<in> set line \<or> MAX_ADMIN_LINE_LEN \<le> length line) in
         case (if complete then None else broken s) of
           Some e \<Rightarrow> (Inl (Io e), s')
         | None \<Rightarrow>
             if \<not> utf8_valid line then (Inl (Io InvalidData), s')
             else if line = [] then (Inl ConnectionClosed, s')
             else if last line \<noteq> LF \<and> MAX_ADMIN_LINE_LEN \<le> length line
             then (Inl (AdminLineTooLong MAX_ADMIN_LINE_LEN), s')
             else (Inr (strip_eol line), s')))"

lemma read_line_shorter:
  "read_line s = (Inr line, s') \<Longrightarrow> length (incoming s') < length (incoming s)"
  by (auto simp: read_line_def raw_line_def Let_def MAX_ADMIN_LINE_LEN_def
      split: option.splits if_splits prod.splits)

function read_dot_terminated :: "stream \<Rightarrow> bytes list result \<times> stream" where
  "read_dot_terminated s =
     (case read_line s of
        (Inl e, s') \<Rightarrow> (Inl e, s')
      | (Inr line, s') \<Rightarrow>
          if line = [DOT] then (Inr [], s')
          else (case read_dot_terminated s' of
                  (Inl e, s'') \<Rightarrow> (Inl e, s'')
                | (Inr lines, s'') \<Rightarrow> (Inr (line # lines), s'')))"
  by pat_completeness auto
termination
  by (relation "measure (length \<circ> incoming)") (auto dest: read_line_shorter [OF sym])

declare read_dot_terminated.simps [simp del]

section \<open>Parsing\<close>

record function_status =
  fs_function :: bytes
  fs_total :: u64
  fs_running :: u64
  fs_worker_count :: u64

record priority_function_status =
  ps_function :: bytes
  ps_high :: u64
  ps_normal :: u64
  ps_low :: u64
  ps_worker_count :: u64

record job_list_entry =
  jl_handle :: bytes
  jl_retries :: u32
  jl_ignore_job :: bool
  jl_queued :: bool

record unique_job_entry =
  uj_handle :: "bytes option"
  uj_unique :: bytes

text \<open>The \<^verbatim>\<open>i32\<close> is a 32-bit word, read signed.\<close>

record worker_info =
  wi_fd :: u32
  wi_ip :: bytes
  wi_client_id :: bytes
  wi_functions :: "bytes list"

definition parse_ack_line :: "bytes \<Rightarrow> bytes option result" where
  "parse_ack_line line =
     (case strip_prefix (ascii ''OK'') line of
        Some rest \<Rightarrow> (let rest = trim_start rest in Inr (if rest = [] then None else Some rest))
      | None \<Rightarrow>
          (case strip_prefix (ascii ''ERR'') line of
             Some rest \<Rightarrow>
               (let rest = trim_start rest in
                case split_once SPACE rest of
                  Some (code, txt) \<Rightarrow> Inl (ServerError code txt)
                | None \<Rightarrow> Inl (ServerError rest []))
           | None \<Rightarrow> Inl (AdminProtocolError line)))"

text \<open>\<^verbatim>\<open>next_field\<close> and \<^verbatim>\<open>next_field2\<close>: the iterator is the list of fields still to come.\<close>

definition next_field :: "bytes list \<Rightarrow> bytes \<Rightarrow> (bytes \<times> bytes list) result" where
  "next_field todo line =
     (case todo of f # rest \<Rightarrow> Inr (f, rest) | [] \<Rightarrow> Inl (AdminProtocolError line))"

definition next_field2 :: "bytes list \<Rightarrow> bytes \<Rightarrow> (bytes \<times> bytes list) result" where
  "next_field2 todo line =
     (case todo of f # rest \<Rightarrow> Inr (f, rest) | [] \<Rightarrow> Inl (AdminProtocolError line))"

definition parse_u64 :: "bytes \<Rightarrow> bytes \<Rightarrow> u64 result" where
  "parse_u64 field line =
     (case from_str_u64 field of Some n \<Rightarrow> Inr n | None \<Rightarrow> Inl (AdminProtocolError line))"

definition parse_u32 :: "bytes \<Rightarrow> bytes \<Rightarrow> u32 result" where
  "parse_u32 field line =
     (case from_str_u32 field of Some n \<Rightarrow> Inr n | None \<Rightarrow> Inl (AdminProtocolError line))"

definition parse_i32 :: "bytes \<Rightarrow> bytes \<Rightarrow> u32 result" where
  "parse_i32 field line =
     (case from_str_i32 field of Some n \<Rightarrow> Inr n | None \<Rightarrow> Inl (AdminProtocolError line))"

text \<open>The \<^verbatim>\<open>?\<close> operator.\<close>

definition try_then :: "'a result \<Rightarrow> ('a \<Rightarrow> 'b result) \<Rightarrow> 'b result" where
  "try_then r f = (case r of Inl e \<Rightarrow> Inl e | Inr x \<Rightarrow> f x)"

lemma try_then_simps [simp]: "try_then (Inr x) f = f x" "try_then (Inl e) f = Inl e"
  by (simp_all add: try_then_def)

definition u64_field :: "bytes list \<Rightarrow> bytes \<Rightarrow> (u64 \<times> bytes list) result" where
  "u64_field todo line =
     try_then (next_field todo line) (\<lambda>(f, rest).
       try_then (parse_u64 f line) (\<lambda>n. Inr (n, rest)))"

definition parse_status_line :: "bytes \<Rightarrow> function_status result" where
  "parse_status_line line =
     try_then (next_field (split_byte TAB line) line) (\<lambda>(fname, f1).
     try_then (u64_field f1 line) (\<lambda>(total, f2).
     try_then (u64_field f2 line) (\<lambda>(running, f3).
     try_then (u64_field f3 line) (\<lambda>(worker_count, f4).
       Inr \<lparr>fs_function = fname, fs_total = total, fs_running = running,
            fs_worker_count = worker_count\<rparr>))))"

definition parse_priority_status_line :: "bytes \<Rightarrow> priority_function_status result" where
  "parse_priority_status_line line =
     try_then (next_field (split_byte TAB line) line) (\<lambda>(fname, f1).
     try_then (u64_field f1 line) (\<lambda>(high, f2).
     try_then (u64_field f2 line) (\<lambda>(normal, f3).
     try_then (u64_field f3 line) (\<lambda>(low, f4).
     try_then (u64_field f4 line) (\<lambda>(worker_count, f5).
       Inr \<lparr>ps_function = fname, ps_high = high, ps_normal = normal, ps_low = low,
            ps_worker_count = worker_count\<rparr>)))))"

definition parse_job_list_line :: "bytes \<Rightarrow> job_list_entry result" where
  "parse_job_list_line line =
     try_then (next_field (split_byte TAB line) line) (\<lambda>(handle, f1).
     try_then (next_field f1 line) (\<lambda>(r, f2).
     try_then (parse_u32 r line) (\<lambda>retries.
     try_then (next_field f2 line) (\<lambda>(ignore, f3).
     try_then (next_field f3 line) (\<lambda>(queued, f4).
       Inr \<lparr>jl_handle = handle, jl_retries = retries, jl_ignore_job = (ignore \<noteq> [0x30]),
            jl_queued = (queued \<noteq> [0x30])\<rparr>)))))"

definition parse_unique_job_line :: "bytes \<Rightarrow> unique_job_entry" where
  "parse_unique_job_line line =
     (case split_once TAB line of
        Some (handle, unique) \<Rightarrow> \<lparr>uj_handle = Some handle, uj_unique = unique\<rparr>
      | None \<Rightarrow> \<lparr>uj_handle = None, uj_unique = line\<rparr>)"

definition parse_worker_line :: "bytes \<Rightarrow> worker_info result" where
  "parse_worker_line line =
     try_then (next_field2 (split_whitespace line) line) (\<lambda>(d, f1).
     try_then (parse_i32 d line) (\<lambda>fd.
     try_then (next_field2 f1 line) (\<lambda>(ip, f2).
     try_then (next_field2 f2 line) (\<lambda>(client_id, f3).
     try_then (next_field2 f3 line) (\<lambda>(delimiter, f4).
       if delimiter \<noteq> [0x3A] then Inl (AdminProtocolError line)
       else Inr \<lparr>wi_fd = fd, wi_ip = ip, wi_client_id = client_id, wi_functions = f4\<rparr>)))))"

section \<open>Commands\<close>

text \<open>The client: what it reads from, and the bytes it has written.\<close>

record admin_client =
  ac_reader :: stream
  ac_written :: bytes

text \<open>
  How writing ends: \<^const>\<open>None\<close> when all bytes are taken and flushed, otherwise the number of
  bytes the stream took and the error that stopped it (\<open>write_all\<close> twice, then \<open>flush\<close>).
\<close>

type_synonym write_end = "(nat \<times> io_error) option"

definition send_line :: "admin_client \<Rightarrow> write_end \<Rightarrow> bytes \<Rightarrow> unit result \<times> admin_client" where
  "send_line c net line =
     (case net of
        Some (n, e) \<Rightarrow> (Inl (Io e), c\<lparr>ac_written := ac_written c @ take n (line @ [CR, LF])\<rparr>)
      | None \<Rightarrow> (Inr (), c\<lparr>ac_written := ac_written c @ line @ [CR, LF]\<rparr>))"

text \<open>\<^verbatim>\<open>from_stream\<close> and, over the outcome of \<^verbatim>\<open>TcpStream::connect\<close>, \<^verbatim>\<open>connect\<close>.\<close>

definition from_stream :: "stream \<Rightarrow> admin_client" where
  "from_stream s = \<lparr>ac_reader = s, ac_written = []\<rparr>"

definition admin_connect :: "(io_error + stream) \<Rightarrow> admin_client result" where
  "admin_connect net = (case net of Inl e \<Rightarrow> Inl (Io e) | Inr s \<Rightarrow> Inr (from_stream s))"

definition read_ack :: "stream \<Rightarrow> bytes option result \<times> stream" where
  "read_ack s = (case read_line s of (r, s') \<Rightarrow> (try_then r parse_ack_line, s'))"

definition read_ack_value :: "stream \<Rightarrow> bytes result \<times> stream" where
  "read_ack_value s =
     (case read_ack s of (r, s') \<Rightarrow>
        (try_then r (\<lambda>v. case v of Some x \<Rightarrow> Inr x | None \<Rightarrow> Inl (AdminProtocolError (ascii ''OK''))), s'))"

text \<open>Send a line, then read its answer.\<close>

definition request_reply :: "admin_client \<Rightarrow> write_end \<Rightarrow> bytes \<Rightarrow> (stream \<Rightarrow> 'a result \<times> stream)
    \<Rightarrow> 'a result \<times> admin_client" where
  "request_reply c net line answer =
     (case send_line c net line of
        (Inl e, c') \<Rightarrow> (Inl e, c')
      | (Inr _, c') \<Rightarrow> (case answer (ac_reader c') of (r, s) \<Rightarrow> (r, c'\<lparr>ac_reader := s\<rparr>)))"

text \<open>\<^verbatim>\<open>Iterator::collect\<close> into a \<^verbatim>\<open>Result\<close>: the first error, or all the values.\<close>

fun collect_results :: "'a result list \<Rightarrow> 'a list result" where
  "collect_results [] = Inr []"
| "collect_results (r # rs) = try_then r (\<lambda>x. try_then (collect_results rs) (\<lambda>xs. Inr (x # xs)))"

definition read_rows :: "(bytes \<Rightarrow> 'a result) \<Rightarrow> stream \<Rightarrow> 'a list result \<times> stream" where
  "read_rows parse s =
     (case read_dot_terminated s of (r, s') \<Rightarrow>
        (try_then r (\<lambda>lines. collect_results (map parse lines)), s'))"

definition admin_status :: "admin_client \<Rightarrow> write_end \<Rightarrow> function_status list result \<times> admin_client" where
  "admin_status c net = request_reply c net (ascii ''status'') (read_rows parse_status_line)"

definition admin_workers :: "admin_client \<Rightarrow> write_end \<Rightarrow> worker_info list result \<times> admin_client" where
  "admin_workers c net = request_reply c net (ascii ''workers'') (read_rows parse_worker_line)"

definition admin_priority_status ::
    "admin_client \<Rightarrow> write_end \<Rightarrow> priority_function_status list result \<times> admin_client" where
  "admin_priority_status c net =
     request_reply c net (ascii ''prioritystatus'') (read_rows parse_priority_status_line)"

definition admin_show_jobs :: "admin_client \<Rightarrow> write_end \<Rightarrow> job_list_entry list result \<times> admin_client" where
  "admin_show_jobs c net = request_reply c net (ascii ''show jobs'') (read_rows parse_job_list_line)"

definition admin_show_unique_jobs ::
    "admin_client \<Rightarrow> write_end \<Rightarrow> unique_job_entry list result \<times> admin_client" where
  "admin_show_unique_jobs c net =
     request_reply c net (ascii ''show unique jobs'')
       (\<lambda>s. case read_dot_terminated s of (r, s') \<Rightarrow>
          (try_then r (\<lambda>lines. Inr (map parse_unique_job_line lines)), s'))"

text \<open>\<^verbatim>\<open>self.read_ack().await.map(|_| ())\<close>\<close>

definition ack_only :: "stream \<Rightarrow> unit result \<times> stream" where
  "ack_only s = (case read_ack s of (r, s') \<Rightarrow> (try_then r (\<lambda>_. Inr ()), s'))"

definition cancel_job :: "admin_client \<Rightarrow> write_end \<Rightarrow> bytes \<Rightarrow> unit result \<times> admin_client" where
  "cancel_job c net handle = request_reply c net (ascii ''cancel job '' @ handle) ack_only"

definition create_function :: "admin_client \<Rightarrow> write_end \<Rightarrow> bytes \<Rightarrow> unit result \<times> admin_client" where
  "create_function c net name = request_reply c net (ascii ''create function '' @ name) ack_only"

definition drop_function :: "admin_client \<Rightarrow> write_end \<Rightarrow> bytes \<Rightarrow> unit result \<times> admin_client" where
  "drop_function c net name = request_reply c net (ascii ''drop function '' @ name) ack_only"

datatype max_queue_size = DefaultSize | Uniform u32 | PerPriority u32 u32 u32

fun max_queue_line :: "bytes \<Rightarrow> max_queue_size \<Rightarrow> bytes" where
  "max_queue_line f DefaultSize = ascii ''maxqueue '' @ f"
| "max_queue_line f (Uniform n) = ascii ''maxqueue '' @ f @ [SPACE] @ dec (unat n)"
| "max_queue_line f (PerPriority high normal low) =
     ascii ''maxqueue '' @ f @ [SPACE] @ dec (unat high) @ [SPACE] @ dec (unat normal)
       @ [SPACE] @ dec (unat low)"

definition set_max_queue :: "admin_client \<Rightarrow> write_end \<Rightarrow> bytes \<Rightarrow> max_queue_size
    \<Rightarrow> unit result \<times> admin_client" where
  "set_max_queue c net f qsize = request_reply c net (max_queue_line f qsize) ack_only"

definition getpid :: "admin_client \<Rightarrow> write_end \<Rightarrow> u32 result \<times> admin_client" where
  "getpid c net =
     request_reply c net (ascii ''getpid'')
       (\<lambda>s. case read_ack_value s of (r, s') \<Rightarrow>
          (try_then r (\<lambda>v. case from_str_u32 v of
               Some n \<Rightarrow> Inr n | None \<Rightarrow> Inl (AdminProtocolError (ascii ''OK '' @ v))), s'))"

definition verbose :: "admin_client \<Rightarrow> write_end \<Rightarrow> bytes result \<times> admin_client" where
  "verbose c net = request_reply c net (ascii ''verbose'') read_ack_value"

definition admin_version :: "admin_client \<Rightarrow> write_end \<Rightarrow> bytes result \<times> admin_client" where
  "admin_version c net = request_reply c net (ascii ''version'') read_ack_value"

end
