(* ===== verification/Admin_Tables.thy ===== *)
theory Admin_Tables
  imports Admin
begin

text \<open>
  What the admin client (\<^verbatim>\<open>src/admin/mod.rs\<close>) reads: one line, a table of lines up to the line \<^verbatim>\<open>.\<close>,
  and the rows of each table. The locale \<open>row_format\<close> is the contract between the reading of tables
  and the parser of a row.
\<close>

section \<open>One line\<close>

text \<open>A line that fits and has no line end of its own.\<close>

definition plain_line :: "bytes \<Rightarrow> bool" where
  "plain_line l \<longleftrightarrow> LF \<notin> set l \<and> (l = [] \<or> last l \<noteq> CR) \<and> utf8_valid l
     \<and> length l + 2 \<le> MAX_ADMIN_LINE_LEN"

text \<open>gearmand ends its lines with a line feed; the reader takes \<^verbatim>\<open>\r\n\<close> as well.\<close>

definition line_end :: "bytes \<Rightarrow> bool" where
  "line_end eol \<longleftrightarrow> eol = [LF] \<or> eol = [CR, LF]"

lemma strip_eol_self: "l = [] \<or> last l \<noteq> LF \<and> last l \<noteq> CR \<Longrightarrow> strip_eol l = l"
  by (cases l rule: rev_cases) (auto simp: strip_eol_def)

lemma strip_eol_line: "\<lbrakk>plain_line l; line_end eol\<rbrakk> \<Longrightarrow> strip_eol (l @ eol) = l"
  by (cases l rule: rev_cases) (auto simp: strip_eol_def plain_line_def line_end_def)

lemma raw_line_line:
  assumes l: "plain_line l" and e: "line_end eol" and s: "incoming s = l @ eol @ rest"
  shows "raw_line s = (l @ eol, s\<lparr>incoming := rest\<rparr>)"
proof -
  obtain c where c: "eol = c @ [LF]" "LF \<notin> set c" using e by (auto simp: line_end_def)
  have len: "length (l @ eol) \<le> MAX_ADMIN_LINE_LEN"
    using l e by (auto simp: plain_line_def line_end_def)
  have w: "take MAX_ADMIN_LINE_LEN (incoming s) = (l @ c) @ LF # take (MAX_ADMIN_LINE_LEN - length (l @ eol)) rest"
    using len by (simp add: s c take_Cons')
  have "position (\<lambda>b. b = LF) (take MAX_ADMIN_LINE_LEN (incoming s)) = Some (length (l @ c))"
    unfolding w using l c(2) by (intro position_append_hit) (auto simp: plain_line_def)
  then show ?thesis by (simp add: raw_line_def Let_def s c(1))
qed

lemma read_line_line [text_proto]:
  assumes l: "plain_line l" and e: "line_end eol" and s: "incoming s = l @ eol @ rest"
  shows "read_line s = (Inr l, s\<lparr>incoming := rest\<rparr>)"
proof -
  have "utf8_valid (l @ eol)"
    using l e by (intro utf8_valid_append) (auto simp: plain_line_def line_end_def)
  moreover have "LF \<in> set (l @ eol)" "l @ eol \<noteq> []" "last (l @ eol) = LF"
    using e by (auto simp: line_end_def)
  ultimately show ?thesis
    using raw_line_line [OF assms] strip_eol_line [OF l e] by (simp add: read_line_def Let_def)
qed

section \<open>Tables\<close>

definition table :: "bytes \<Rightarrow> bytes list \<Rightarrow> bytes" where
  "table eol ls = concat (map (\<lambda>l. l @ eol) ls) @ DOT # eol"

lemma plain_line_dot [simp]: "plain_line [DOT]"
  by (simp add: plain_line_def MAX_ADMIN_LINE_LEN_def)

lemma read_dot_terminated_table [text_proto]:
  "\<lbrakk>line_end eol; \<forall>l \<in> set ls. plain_line l \<and> l \<noteq> [DOT]; incoming s = table eol ls @ rest\<rbrakk>
    \<Longrightarrow> read_dot_terminated s = (Inr ls, s\<lparr>incoming := rest\<rparr>)"
proof (induction ls arbitrary: s)
  case Nil
  then have "incoming s = [DOT] @ eol @ rest" by (simp add: table_def)
  from read_line_line [OF plain_line_dot Nil(1) this] show ?case
    by (subst read_dot_terminated.simps) simp
next
  case (Cons l ls)
  then have l: "plain_line l" "l \<noteq> [DOT]"
    and s: "incoming s = l @ eol @ (table eol ls @ rest)" by (auto simp: table_def)
  from Cons.IH [OF Cons.prems(1), of "s\<lparr>incoming := table eol ls @ rest\<rparr>"] Cons.prems(2)
  have "read_dot_terminated (s\<lparr>incoming := table eol ls @ rest\<rparr>) = (Inr ls, s\<lparr>incoming := rest\<rparr>)"
    by simp
  with read_line_line [OF l(1) Cons.prems(1) s] l(2) show ?case
    by (subst read_dot_terminated.simps) simp
qed

lemma collect_results_Inr: "(\<forall>x \<in> set xs. f x = Inr (g x)) \<Longrightarrow> collect_results (map f xs) = Inr (map g xs)"
  by (induction xs) auto

text \<open>The contract of a row: the parser reads what the server prints, on lines the reader can tell apart.\<close>

locale row_format =
  fixes parse :: "bytes \<Rightarrow> 'a result"
    and print :: "'a \<Rightarrow> bytes"
    and printable :: "'a \<Rightarrow> bool"
  assumes parse_print: "printable r \<Longrightarrow> parse (print r) = Inr r"
    and print_line: "printable r \<Longrightarrow> plain_line (print r)"
    and print_dot: "printable r \<Longrightarrow> print r \<noteq> [DOT]"
begin

lemma rows_read:
  assumes "line_end eol" "\<forall>r \<in> set rs. printable r" "incoming s = table eol (map print rs) @ rest"
  shows "read_rows parse s = (Inr rs, s\<lparr>incoming := rest\<rparr>)"
proof -
  have "read_dot_terminated s = (Inr (map print rs), s\<lparr>incoming := rest\<rparr>)"
    using assms print_line print_dot by (intro read_dot_terminated_table) auto
  moreover have "collect_results (map (parse \<circ> print) rs) = Inr (map id rs)"
    using assms(2) parse_print by (intro collect_results_Inr) auto
  ultimately show ?thesis by (simp add: read_rows_def)
qed

end

section \<open>The rows of each table\<close>

text \<open>A name gearmand can put in a column: UTF-8, no tab and no line feed, and short enough.\<close>

definition column_name :: "bytes \<Rightarrow> bool" where
  "column_name f \<longleftrightarrow> TAB \<notin> set f \<and> LF \<notin> set f \<and> utf8_valid f \<and> length f \<le> 65000"

lemma plain_line_columns:
  assumes "column_name f" "t \<noteq> []" "\<forall>b \<in> set t. b \<le> 0x7F \<and> b \<noteq> LF \<and> b \<noteq> CR" "length t \<le> 500"
  shows "plain_line (f @ t)"
proof -
  have "last t \<noteq> CR" using assms(2,3) by simp
  moreover have "utf8_valid (f @ t)"
    using assms(1,3) by (intro utf8_valid_append [OF _ utf8_valid_ascii]) (auto simp: column_name_def)
  ultimately show ?thesis
    using assms by (auto simp: plain_line_def column_name_def MAX_ADMIN_LINE_LEN_def)
qed

definition columns :: "nat list \<Rightarrow> bytes" where
  "columns ns = concat (map (\<lambda>n. TAB # dec n) ns)"

lemma columns_simps [simp]:
  "columns [] = []" "columns (n # ns) = TAB # dec n @ columns ns"
  by (simp_all add: columns_def)

lemma dec_no_tab [simp]: "TAB \<notin> set (dec n)"
  using dec_not by blast

lemma split_byte_columns:
  "TAB \<notin> set f \<Longrightarrow> split_byte TAB (f @ columns ns) = f # map dec ns"
  by (induction ns arbitrary: f) (auto simp: split_byte_append split_byte_no_sep)

lemma plain_line_numbers:
  assumes f: "column_name f" and ns: "ns \<noteq> []" "length ns \<le> 5" "\<forall>n \<in> set ns. length (dec n) \<le> 20"
  shows "plain_line (f @ columns ns)" "f @ columns ns \<noteq> [DOT]"
proof -
  have "length (columns ns) \<le> 21 * length ns"
    using ns(3) by (induction ns) auto
  moreover have "b \<le> 0x7F \<and> b \<noteq> LF \<and> b \<noteq> CR" if b: "b \<in> set (columns ns)" for b
  proof -
    from b consider "b = TAB" | n where "b \<in> set (dec n)" by (auto simp: columns_def split: if_splits)
    then show ?thesis by cases (simp, use dec_is_digit is_digit_le dec_not in blast)
  qed
  moreover have "columns ns \<noteq> []" using ns(1) by (cases ns) auto
  ultimately show "plain_line (f @ columns ns)"
    using ns(2) by (intro plain_line_columns [OF f]) auto
  have tab: "TAB \<in> set (f @ columns ns)" using ns(1) by (cases ns) auto
  show "f @ columns ns \<noteq> [DOT]"
  proof
    assume "f @ columns ns = [DOT]"
    with tab show False by simp
  qed
qed

definition status_row :: "function_status \<Rightarrow> bytes" where
  "status_row r = fs_function r @ columns [unat (fs_total r), unat (fs_running r), unat (fs_worker_count r)]"

definition priority_row :: "priority_function_status \<Rightarrow> bytes" where
  "priority_row r = ps_function r
     @ columns [unat (ps_high r), unat (ps_normal r), unat (ps_low r), unat (ps_worker_count r)]"

definition job_row :: "job_list_entry \<Rightarrow> bytes" where
  "job_row r = jl_handle r @ columns [unat (jl_retries r), of_bool (jl_ignore_job r), of_bool (jl_queued r)]"

definition unique_row :: "unique_job_entry \<Rightarrow> bytes" where
  "unique_row r = (case uj_handle r of None \<Rightarrow> uj_unique r | Some h \<Rightarrow> h @ TAB # uj_unique r)"

text \<open>A unique id may contain tabs when a handle stands before it.\<close>

definition unique_printable :: "unique_job_entry \<Rightarrow> bool" where
  "unique_printable r \<longleftrightarrow> plain_line (unique_row r) \<and> unique_row r \<noteq> [DOT]
     \<and> TAB \<notin> set (case uj_handle r of None \<Rightarrow> uj_unique r | Some h \<Rightarrow> h)"

lemma length_dec_u32: "length (dec (unat (n :: u32))) \<le> 20"
proof (rule length_dec)
  have "unat n < 2 ^ 32" using unsigned_less [of n, where ?'a = nat] by simp
  also have "\<dots> < 10 ^ 20" by simp
  finally show "unat n < 10 ^ 20" .
qed simp

lemma dec_bool: "dec (of_bool b) = [if b then 0x31 else 0x30]"
  by (simp add: dec.simps digit_byte_def)

lemmas field_parsers = u64_field_def next_field_def parse_u64_def parse_u32_def

interpretation status: row_format parse_status_line status_row "\<lambda>r. column_name (fs_function r)"
proof
  fix r :: function_status assume r: "column_name (fs_function r)"
  then show "parse_status_line (status_row r) = Inr r"
    by (simp add: parse_status_line_def status_row_def split_byte_columns column_name_def
        field_parsers del: columns_simps)
  show "plain_line (status_row r)" "status_row r \<noteq> [DOT]"
    unfolding status_row_def by (rule plain_line_numbers [OF r]; simp add: length_dec_u64)+
qed

interpretation priority: row_format parse_priority_status_line priority_row
  "\<lambda>r. column_name (ps_function r)"
proof
  fix r :: priority_function_status assume r: "column_name (ps_function r)"
  then show "parse_priority_status_line (priority_row r) = Inr r"
    by (simp add: parse_priority_status_line_def priority_row_def split_byte_columns column_name_def
        field_parsers del: columns_simps)
  show "plain_line (priority_row r)" "priority_row r \<noteq> [DOT]"
    unfolding priority_row_def by (rule plain_line_numbers [OF r]; simp add: length_dec_u64)+
qed

interpretation jobs: row_format parse_job_list_line job_row "\<lambda>r. column_name (jl_handle r)"
proof
  fix r :: job_list_entry assume r: "column_name (jl_handle r)"
  then show "parse_job_list_line (job_row r) = Inr r"
    by (simp add: parse_job_list_line_def job_row_def split_byte_columns column_name_def dec_bool
        field_parsers del: columns_simps)
  show "plain_line (job_row r)" "job_row r \<noteq> [DOT]"
    unfolding job_row_def by (rule plain_line_numbers [OF r]; simp add: length_dec_u32 dec_bool)+
qed

interpretation uniques: row_format "\<lambda>l. Inr (parse_unique_job_line l)" unique_row unique_printable
proof
  fix r assume r: "unique_printable r"
  show "Inr (parse_unique_job_line (unique_row r)) = Inr r"
  proof (cases "uj_handle r")
    case None
    with r have "split_once TAB (uj_unique r) = None"
      by (simp add: unique_printable_def split_once_None)
    with None show ?thesis by (simp add: parse_unique_job_line_def unique_row_def)
  next
    case (Some h)
    with r show ?thesis
      by (simp add: parse_unique_job_line_def unique_row_def unique_printable_def split_once_hit)
  qed
qed (simp_all add: unique_printable_def)

text \<open>
  A row of \<^verbatim>\<open>workers\<close>: gearmand prints the file descriptor, the address, the client id and \<^verbatim>\<open>:\<close>,
  then every function after a space.
\<close>

definition worker_row :: "worker_info \<Rightarrow> bytes" where
  "worker_row r = dec_i32 (wi_fd r) @ SPACE # wi_ip r @ SPACE # wi_client_id r @ SPACE # 0x3A #
     concat (map (\<lambda>f. SPACE # f) (wi_functions r))"

definition word_ok :: "bytes \<Rightarrow> bool" where
  "word_ok f \<longleftrightarrow> f \<noteq> [] \<and> ws_free f \<and> utf8_valid f"

definition worker_printable :: "worker_info \<Rightarrow> bool" where
  "worker_printable r \<longleftrightarrow> word_ok (wi_ip r) \<and> word_ok (wi_client_id r)
     \<and> (\<forall>f \<in> set (wi_functions r). word_ok f) \<and> length (worker_row r) + 2 \<le> MAX_ADMIN_LINE_LEN"

lemma ws_free_bytes: "\<lbrakk>ws_free f; b \<in> set f\<rbrakk> \<Longrightarrow> b \<noteq> LF \<and> b \<noteq> CR \<and> b \<noteq> SPACE"
  by (induction f) auto

lemma dec_i32_bytes: "b \<in> set (dec_i32 w) \<Longrightarrow> 0x20 < b \<and> b \<le> 0x7F"
proof -
  have d: "b \<in> set (dec n) \<Longrightarrow> 0x20 < b \<and> b \<le> 0x7F" for n
    using dec_is_digit [of b n] by (auto simp: is_digit_def word_le_nat_alt word_less_nat_alt)
  assume "b \<in> set (dec_i32 w)"
  then show ?thesis using d by (auto simp: dec_i32_def split: if_splits)
qed

lemma word_ok_dec_i32: "word_ok (dec_i32 w)"
proof -
  have "ws_free (dec_i32 w)" "utf8_valid (dec_i32 w)"
    by (intro ws_free_ascii utf8_valid_ascii ballI; drule dec_i32_bytes; simp)+
  moreover have "dec_i32 w \<noteq> []" by (simp add: dec_i32_def)
  ultimately show ?thesis by (simp add: word_ok_def)
qed

lemma split_ws_functions:
  "\<lbrakk>\<forall>f \<in> set fs. word_ok f; ws_free f0; f0 \<noteq> []\<rbrakk>
    \<Longrightarrow> split_ws [] (f0 @ concat (map (\<lambda>f. SPACE # f) fs)) = f0 # fs"
proof (induction fs arbitrary: f0)
  case Nil
  then show ?case by (simp add: split_ws_field_end)
next
  case (Cons f fs)
  then show ?case by (simp add: split_ws_field_space word_ok_def)
qed

lemma split_whitespace_worker:
  "worker_printable r \<Longrightarrow> split_whitespace (worker_row r)
     = dec_i32 (wi_fd r) # wi_ip r # wi_client_id r # [0x3A] # wi_functions r"
proof -
  assume r: "worker_printable r"
  have "split_ws [] ([0x3A] @ concat (map (\<lambda>f. SPACE # f) (wi_functions r))) = [0x3A] # wi_functions r"
    using r by (intro split_ws_functions) (simp_all add: worker_printable_def)
  then show ?thesis
    using r word_ok_dec_i32 [of "wi_fd r"]
    by (simp add: split_whitespace_def worker_row_def worker_printable_def word_ok_def
        split_ws_field_space)
qed

lemma utf8_valid_functions:
  "\<forall>f \<in> set fs. utf8_valid f \<Longrightarrow> utf8_valid (concat (map (\<lambda>f. SPACE # f) fs))"
  by (induction fs) (auto intro: utf8_valid_append)

lemma worker_row_bytes:
  assumes r: "worker_printable r" and b: "b \<in> set (worker_row r)"
  shows "b \<noteq> LF \<and> b \<noteq> CR"
proof -
  from b consider "b = SPACE" | "b = 0x3A"
    | f where "f \<in> insert (dec_i32 (wi_fd r)) (insert (wi_ip r) (insert (wi_client_id r) (set (wi_functions r))))"
        "b \<in> set f"
    by (auto simp: worker_row_def split: if_splits)
  then show ?thesis
  proof cases
    case 3
    then have "ws_free f" using r word_ok_dec_i32 [of "wi_fd r"]
      by (auto simp: worker_printable_def word_ok_def)
    from ws_free_bytes [OF this 3(2)] show ?thesis by simp
  qed simp_all
qed

lemma utf8_valid_worker_row: "worker_printable r \<Longrightarrow> utf8_valid (worker_row r)"
proof -
  assume r: "worker_printable r"
  then have "utf8_valid (concat (map (\<lambda>f. SPACE # f) (wi_functions r)))"
    by (intro utf8_valid_functions) (simp add: worker_printable_def word_ok_def)
  moreover have "utf8_valid (dec_i32 (wi_fd r))" using word_ok_dec_i32 word_ok_def by blast
  ultimately show ?thesis using r unfolding worker_row_def
    by (intro utf8_valid_append) (simp_all add: utf8_valid_append worker_printable_def word_ok_def)
qed

interpretation workers: row_format parse_worker_line worker_row worker_printable
proof
  fix r assume r: "worker_printable r"
  then show "parse_worker_line (worker_row r) = Inr r"
    by (simp add: parse_worker_line_def split_whitespace_worker next_field2_def parse_i32_def)
  have ne: "worker_row r \<noteq> []" by (simp add: worker_row_def)
  from worker_row_bytes [OF r last_in_set [OF ne]] worker_row_bytes [OF r, of LF]
  show "plain_line (worker_row r)"
    using r utf8_valid_worker_row [OF r] by (auto simp: plain_line_def worker_printable_def)
  show "worker_row r \<noteq> [DOT]"
  proof
    assume "worker_row r = [DOT]"
    then have "SPACE \<in> set [DOT]" by (metis worker_row_def in_set_conv_decomp)
    then show False by simp
  qed
qed

section \<open>What a line read from any stream is\<close>

lemma strip_eol_split: "\<exists>eol. line = strip_eol line @ eol \<and> set eol \<subseteq> {CR, LF}"
proof -
  let ?P = "\<lambda>b. b = LF \<or> b = CR"
  have "line = strip_eol line @ rev (takeWhile ?P (rev line))"
    by (simp add: strip_eol_def flip: rev_append)
  moreover have "set (rev (takeWhile ?P (rev line))) \<subseteq> {CR, LF}"
    by (auto dest: set_takeWhileD)
  ultimately show ?thesis by blast
qed

lemma strip_eol_last: "strip_eol line = [] \<or> last (strip_eol line) \<notin> {CR, LF}"
  using hd_dropWhile [of "\<lambda>b. b = LF \<or> b = CR" "rev line"]
  by (auto simp: strip_eol_def last_rev)

lemma raw_line_shape:
  assumes "raw_line s = (line, s')"
  obtains "incoming s = line @ incoming s'" "broken s' = broken s"
    "length line \<le> MAX_ADMIN_LINE_LEN" "LF \<notin> set (butlast line)"
    "LF \<in> set line \<or> length line = MAX_ADMIN_LINE_LEN \<or> incoming s' = []"
proof -
  let ?w = "take MAX_ADMIN_LINE_LEN (incoming s)"
  have "length line \<le> MAX_ADMIN_LINE_LEN \<and> LF \<notin> set (butlast line)
      \<and> (LF \<in> set line \<or> length line = MAX_ADMIN_LINE_LEN \<or> incoming s' = [])"
  proof (cases "position (\<lambda>b. b = LF) ?w")
    case None
    then have "LF \<notin> set ?w" by (auto simp: position_None)
    moreover have "line = ?w" "s' = s\<lparr>incoming := drop (length ?w) (incoming s)\<rparr>"
      using assms None by (auto simp: raw_line_def Let_def min_def)
    ultimately show ?thesis by (auto simp: min_def dest: in_set_butlastD)
  next
    case (Some i)
    note i = position_Some [OF Some]
    then have line: "line = take (Suc i) (incoming s)" and len: "Suc i \<le> MAX_ADMIN_LINE_LEN"
      using assms Some by (auto simp: raw_line_def Let_def)
    have "line = take i ?w @ [LF]"
      using i len by (simp add: line take_Suc_conv_app_nth min_def split: if_splits)
    moreover have "LF \<notin> set (take i ?w)" using i by blast
    ultimately show ?thesis using len i by auto
  qed
  moreover have "incoming s = line @ incoming s'" "broken s' = broken s"
    using assms by (auto simp: raw_line_def Let_def)
  ultimately show ?thesis using that by blast
qed

text \<open>
  What one call of \<^const>\<open>read_line\<close> consumes: up to the first line feed, at most 64 KiB, and less only at
  the end of the stream.
\<close>

definition one_line :: "stream \<Rightarrow> bytes \<Rightarrow> stream \<Rightarrow> bool" where
  "one_line s taken s' \<longleftrightarrow>
     incoming s = taken @ incoming s' \<and> broken s' = broken s
     \<and> length taken \<le> MAX_ADMIN_LINE_LEN \<and> LF \<notin> set (butlast taken)
     \<and> (LF \<in> set taken \<or> length taken = MAX_ADMIN_LINE_LEN \<or> incoming s' = [])"

text \<open>What it makes of that; \<open>br\<close> is the error the stream ends in, \<^const>\<open>None\<close> when it just ends.\<close>

fun line_outcome :: "bytes \<Rightarrow> io_error option \<Rightarrow> bytes result \<Rightarrow> bool" where
  "line_outcome taken br (Inr line) \<longleftrightarrow>
     taken \<noteq> [] \<and> utf8_valid taken
     \<and> (LF \<in> set taken \<or> length taken < MAX_ADMIN_LINE_LEN \<and> br = None)
     \<and> (\<exists>eol. taken = line @ eol \<and> set eol \<subseteq> {CR, LF}) \<and> (line = [] \<or> last line \<notin> {CR, LF})"
| "line_outcome taken br (Inl (AdminLineTooLong n)) \<longleftrightarrow>
     n = MAX_ADMIN_LINE_LEN \<and> length taken = MAX_ADMIN_LINE_LEN \<and> LF \<notin> set taken \<and> utf8_valid taken"
| "line_outcome taken br (Inl ConnectionClosed) \<longleftrightarrow> taken = [] \<and> br = None"
| "line_outcome taken br (Inl (Io e)) \<longleftrightarrow>
     (if LF \<notin> set taken \<and> length taken < MAX_ADMIN_LINE_LEN \<and> br \<noteq> None then br = Some e
      else e = InvalidData \<and> \<not> utf8_valid taken)"
| "line_outcome taken br (Inl e) \<longleftrightarrow> False"

lemma prefix_no_LF:
  assumes "xs @ us = ys @ vs" and "LF \<notin> set (butlast ys)" and "length xs < length ys"
  shows "LF \<notin> set xs"
proof -
  obtain t where t: "ys = xs @ t"
    using assms(1,3) by (auto simp: append_eq_append_conv2)
  with assms(3) have "t \<noteq> []" by auto
  with t assms(2) show ?thesis by (simp add: butlast_append)
qed

lemma one_line_shorter:
  "\<lbrakk>one_line s t s1; one_line s u s2\<rbrakk> \<Longrightarrow> length u \<le> length t"
proof (rule ccontr)
  assume lines: "one_line s t s1" "one_line s u s2" and longer: "\<not> length u \<le> length t"
  then have eq: "t @ incoming s1 = u @ incoming s2" by (simp add: one_line_def)
  have "LF \<notin> set t" by (rule prefix_no_LF [OF eq]) (use lines longer in \<open>simp_all add: one_line_def\<close>)
  with lines longer have "incoming s1 = []" by (auto simp: one_line_def)
  with eq longer show False by (auto dest: arg_cong [where f = length])
qed

lemma one_line_unique: "\<lbrakk>one_line s t s1; one_line s u s2\<rbrakk> \<Longrightarrow> t = u \<and> s1 = s2"
proof -
  assume lines: "one_line s t s1" "one_line s u s2"
  then have "length t = length u" using one_line_shorter by (simp add: le_antisym)
  with lines show ?thesis by (cases s1; cases s2) (simp add: one_line_def)
qed

lemma strip_eol_append: "\<lbrakk>set eol \<subseteq> {CR, LF}; l = [] \<or> last l \<notin> {CR, LF}\<rbrakk> \<Longrightarrow> strip_eol (l @ eol) = l"
proof -
  let ?P = "\<lambda>b. b = LF \<or> b = CR"
  assume *: "set eol \<subseteq> {CR, LF}" "l = [] \<or> last l \<notin> {CR, LF}"
  then have "dropWhile ?P (rev eol @ rev l) = dropWhile ?P (rev l)"
    by (intro dropWhile_append2) auto
  moreover have "dropWhile ?P (rev l) = rev l"
    using *(2) by (cases l rule: rev_cases) auto
  ultimately show ?thesis by (simp add: strip_eol_def)
qed

lemma line_outcome_Inr:
  "line_outcome taken br (Inr line) \<longleftrightarrow>
     taken \<noteq> [] \<and> utf8_valid taken
     \<and> (LF \<in> set taken \<or> length taken < MAX_ADMIN_LINE_LEN \<and> br = None) \<and> line = strip_eol taken"
proof -
  have "(\<exists>eol. taken = line @ eol \<and> set eol \<subseteq> {CR, LF}) \<and> (line = [] \<or> last line \<notin> {CR, LF})
      \<longleftrightarrow> line = strip_eol taken"
  proof
    assume "(\<exists>eol. taken = line @ eol \<and> set eol \<subseteq> {CR, LF}) \<and> (line = [] \<or> last line \<notin> {CR, LF})"
    then show "line = strip_eol taken" using strip_eol_append [of _ line] by (elim conjE exE) simp
  next
    assume "line = strip_eol taken"
    with strip_eol_split [of taken] strip_eol_last [of taken]
    show "(\<exists>eol. taken = line @ eol \<and> set eol \<subseteq> {CR, LF}) \<and> (line = [] \<or> last line \<notin> {CR, LF})" by simp
  qed
  then show ?thesis unfolding line_outcome.simps by blast
qed

lemma raw_line_one: "raw_line s = (line, s') \<Longrightarrow> one_line s line s'"
  by (rule raw_line_shape) (auto simp: one_line_def)

lemma read_line_outcome:
  assumes raw: "raw_line s = (line, s1)"
  shows "read_line s = (r, s') \<longleftrightarrow> s' = s1 \<and> line_outcome line (broken s) r"
proof -
  have one: "one_line s line s1" by (rule raw_line_one [OF raw])
  have lf: "line \<noteq> [] \<Longrightarrow> last line = LF \<longleftrightarrow> LF \<in> set line"
    using one by (cases line rule: rev_cases) (auto simp: one_line_def)
  have max: "0 < MAX_ADMIN_LINE_LEN" "length line \<le> MAX_ADMIN_LINE_LEN"
    using one by (simp_all add: one_line_def MAX_ADMIN_LINE_LEN_def)
  let ?whole = "LF \<in> set line \<or> MAX_ADMIN_LINE_LEN \<le> length line"
  have fin: ?thesis if "read_line s = (v, s1)" "line_outcome line (broken s) r \<longleftrightarrow> r = v" for v
    using that by auto
  note cases_of_r = line_outcome.cases [of "(line, broken s, r)"]
  note eval = read_line_def raw Let_def
  show ?thesis
  proof (cases "\<not> ?whole \<and> broken s \<noteq> None")
    case True
    then obtain e where e: "broken s = Some e" "\<not> ?whole" by auto
    then have "read_line s = (Inl (Io e), s1)" by (simp add: eval)
    moreover from e have "line_outcome line (broken s) r \<longleftrightarrow> r = Inl (Io e)"
      by (cases rule: cases_of_r) (auto simp: line_outcome_Inr e(1) simp del: line_outcome.simps(1))
    ultimately show ?thesis by (rule fin)
  next
    case False
    then have br: "(if ?whole then None else broken s) = None" by auto
    show ?thesis
    proof (cases "utf8_valid line")
      case invalid: False
      with br have "read_line s = (Inl (Io InvalidData), s1)" by (simp add: eval)
      moreover from invalid False have "line_outcome line (broken s) r \<longleftrightarrow> r = Inl (Io InvalidData)"
        by (cases rule: cases_of_r) (auto simp: line_outcome_Inr simp del: line_outcome.simps(1))
      ultimately show ?thesis by (rule fin)
    next
      case valid: True
      consider "line = []" | "line \<noteq> []" "LF \<notin> set line" "length line = MAX_ADMIN_LINE_LEN"
        | "line \<noteq> []" "LF \<in> set line \<or> length line < MAX_ADMIN_LINE_LEN" using max by linarith
      then show ?thesis
      proof cases
        case 1
        with br max valid have "read_line s = (Inl ConnectionClosed, s1)" by (simp add: eval)
        moreover from 1 False valid max have "line_outcome line (broken s) r \<longleftrightarrow> r = Inl ConnectionClosed"
          by (cases rule: cases_of_r) (auto simp: line_outcome_Inr simp del: line_outcome.simps(1))
        ultimately show ?thesis by (rule fin)
      next
        case 2
        with br lf valid have "read_line s = (Inl (AdminLineTooLong MAX_ADMIN_LINE_LEN), s1)" by (simp add: eval)
        moreover from 2 valid have "line_outcome line (broken s) r \<longleftrightarrow> r = Inl (AdminLineTooLong MAX_ADMIN_LINE_LEN)"
          by (cases rule: cases_of_r) (auto simp: line_outcome_Inr simp del: line_outcome.simps(1))
        ultimately show ?thesis by (rule fin)
      next
        case 3
        with br lf valid have "read_line s = (Inr (strip_eol line), s1)" by (auto simp: eval)
        moreover from 3 valid False have "line_outcome line (broken s) r \<longleftrightarrow> r = Inr (strip_eol line)"
          by (cases rule: cases_of_r) (auto simp: line_outcome_Inr simp del: line_outcome.simps(1))
        ultimately show ?thesis by (rule fin)
      qed
    qed
  qed
qed

lemma read_line_iff:
  "read_line s = (r, s') \<longleftrightarrow> (\<exists>taken. one_line s taken s' \<and> line_outcome taken (broken s) r)"
proof -
  obtain line s1 where raw: "raw_line s = (line, s1)" by fastforce
  show ?thesis
    unfolding read_line_outcome [OF raw] using one_line_unique [OF raw_line_one [OF raw]] raw_line_one [OF raw]
    by blast
qed

text \<open>
  C26. Reading a line of the admin protocol, exactly, from any stream. One call consumes the bytes up to and
  including the first line feed, but at most 64 KiB, and less than both only when the stream has no
  more. The outcome is determined by these bytes and by how the stream ends: an I/O error of the
  stream exactly when it breaks before a line feed and before 64 KiB; otherwise \<^verbatim>\<open>InvalidData\<close> exactly
  for bytes that are not UTF-8; otherwise \<^const>\<open>ConnectionClosed\<close> exactly at the end of the stream,
  \<^const>\<open>AdminLineTooLong\<close> exactly for 64 KiB without a line feed, and else the bytes without the
  carriage returns and line feeds at their end.
\<close>

theorem read_line_exact:
  "read_line s = (r, s') \<longleftrightarrow> (\<exists>taken. one_line s taken s' \<and> line_outcome taken (broken s) r)"
  by (rule read_line_iff)

section \<open>What a table read from any stream is\<close>

text \<open>A line of a table as received, and the line that ends it: its line feed may be missing at the end of the stream.\<close>

definition whole_line :: "bytes \<Rightarrow> bytes \<Rightarrow> bool" where
  "whole_line l eol \<longleftrightarrow>
     LF \<notin> set l \<and> (l = [] \<or> last l \<noteq> CR) \<and> (\<exists>k. eol = replicate k CR @ [LF])
     \<and> utf8_valid (l @ eol) \<and> length (l @ eol) \<le> MAX_ADMIN_LINE_LEN"

definition last_line :: "bytes \<Rightarrow> stream \<Rightarrow> bool" where
  "last_line eol s' \<longleftrightarrow> whole_line [DOT] eol
     \<or> incoming s' = [] \<and> broken s' = None \<and> (\<exists>k < MAX_ADMIN_LINE_LEN - 1. eol = replicate k CR)"

lemma eol_shape:
  "set eol \<subseteq> {CR, LF} \<and> LF \<notin> set (butlast eol) \<longleftrightarrow> (\<exists>k. eol = replicate k CR \<or> eol = replicate k CR @ [LF])"
proof
  assume "set eol \<subseteq> {CR, LF} \<and> LF \<notin> set (butlast eol)"
  then have "set (butlast eol) \<subseteq> {CR}" "eol = [] \<or> last eol \<in> {CR, LF}"
    using last_in_set [of eol] by (blast dest: in_set_butlastD)+
  then have "butlast eol = replicate (length (butlast eol)) CR"
    by (intro replicate_eqI) auto
  then obtain k where k: "butlast eol = replicate k CR" by blast
  have "eol = [] \<or> eol = replicate (Suc k) CR \<or> eol = replicate k CR @ [LF]"
  proof (cases eol rule: rev_cases)
    case (snoc ys y)
    with k \<open>eol = [] \<or> last eol \<in> {CR, LF}\<close> show ?thesis by (auto simp: replicate_append_same)
  qed simp
  then show "\<exists>k. eol = replicate k CR \<or> eol = replicate k CR @ [LF]"
    by (metis replicate_0)
qed (auto simp: butlast_append dest: in_set_butlastD)

lemma read_line_whole:
  "read_line s = (Inr l, s') \<longleftrightarrow>
     (\<exists>eol. incoming s = l @ eol @ incoming s' \<and> broken s' = broken s
       \<and> (whole_line l eol
          \<or> incoming s' = [] \<and> broken s' = None \<and> l @ eol \<noteq> [] \<and> LF \<notin> set l \<and> (l = [] \<or> last l \<noteq> CR)
            \<and> utf8_valid (l @ eol) \<and> length (l @ eol) < MAX_ADMIN_LINE_LEN \<and> (\<exists>k. eol = replicate k CR)))"
    (is "_ \<longleftrightarrow> (\<exists>eol. ?shape eol)")
proof
  assume "read_line s = (Inr l, s')"
  then obtain eol where one: "one_line s (l @ eol) s'" and ok: "l @ eol \<noteq> []" "utf8_valid (l @ eol)"
    "LF \<in> set (l @ eol) \<or> length (l @ eol) < MAX_ADMIN_LINE_LEN \<and> broken s = None"
    "set eol \<subseteq> {CR, LF}" "l = [] \<or> last l \<notin> {CR, LF}"
    unfolding read_line_iff line_outcome.simps by blast
  have no: "LF \<notin> set l"
  proof (cases "eol = []")
    case True
    with one ok(5) show ?thesis by (cases l rule: rev_cases) (auto simp: one_line_def)
  qed (use one in \<open>simp add: one_line_def butlast_append\<close>)
  have "LF \<notin> set (butlast eol)" using one by (cases "eol = []") (simp_all add: one_line_def butlast_append)
  with ok(4) eol_shape obtain k where "eol = replicate k CR \<or> eol = replicate k CR @ [LF]" by blast
  then have "?shape eol"
  proof
    assume "eol = replicate k CR @ [LF]"
    with one ok no show ?thesis by (auto simp: one_line_def whole_line_def)
  next
    assume "eol = replicate k CR"
    with one ok no show ?thesis by (auto simp: one_line_def)
  qed
  then show "\<exists>eol. ?shape eol" ..
next
  assume "\<exists>eol. ?shape eol"
  then obtain eol where *: "?shape eol" ..
  have "one_line s (l @ eol) s' \<and> line_outcome (l @ eol) (broken s) (Inr l)"
  proof (cases "whole_line l eol")
    case True
    then have "LF \<in> set eol" "set eol \<subseteq> {CR, LF}" "LF \<notin> set (butlast (l @ eol))" "eol \<noteq> []"
      by (auto simp: whole_line_def butlast_append split: if_splits)
    moreover have "l = [] \<or> last l \<notin> {CR, LF}"
      using True last_in_set [of l] unfolding whole_line_def by (metis insertE singletonD)
    ultimately show ?thesis using True * by (auto simp: one_line_def whole_line_def)
  next
    case False
    with * have *: "incoming s = l @ eol" "incoming s' = []" "broken s' = None" "broken s = None" "l @ eol \<noteq> []"
      "LF \<notin> set l" "l = [] \<or> last l \<noteq> CR" "utf8_valid (l @ eol)" "length (l @ eol) < MAX_ADMIN_LINE_LEN"
      "set eol \<subseteq> {CR}" by auto
    then have "LF \<notin> set (l @ eol)" by auto
    moreover have "l = [] \<or> last l \<notin> {CR, LF}" using *(6,7) last_in_set [of l] by (metis insertE singletonD)
    ultimately show ?thesis using *
      by (auto simp: one_line_def dest!: in_set_butlastD)
  qed
  then show "read_line s = (Inr l, s')" unfolding read_line_iff by blast
qed

lemma read_dot_terminated_end:
  "read_dot_terminated s = (Inr [], s') \<longleftrightarrow> read_line s = (Inr [DOT], s')"
  by (subst read_dot_terminated.simps) (auto split: prod.splits sum.splits)

lemma read_dot_terminated_row:
  "read_dot_terminated s = (Inr (l # ls), s') \<longleftrightarrow>
     l \<noteq> [DOT] \<and> (\<exists>s1. read_line s = (Inr l, s1) \<and> read_dot_terminated s1 = (Inr ls, s'))"
  by (subst read_dot_terminated.simps) (auto split: prod.splits sum.splits)

text \<open>A table as it was received: the lines with the end of each, and how the last line ends.\<close>

definition received_table :: "stream \<Rightarrow> bytes list \<Rightarrow> bytes list \<Rightarrow> bytes \<Rightarrow> stream \<Rightarrow> bool" where
  "received_table s ls eols eol s' \<longleftrightarrow>
     list_all2 whole_line ls eols \<and> [DOT] \<notin> set ls
     \<and> incoming s = concat (map2 (\<lambda>l e. l @ e) ls eols) @ DOT # eol @ incoming s'
     \<and> broken s' = broken s \<and> last_line eol s'"

lemma received_end: "received_table s [] eols eol s' \<longleftrightarrow>
    eols = [] \<and> incoming s = DOT # eol @ incoming s' \<and> broken s' = broken s \<and> last_line eol s'"
  by (auto simp: received_table_def)

lemma received_row: "received_table s (l # ls) (e # eols) eol s' \<longleftrightarrow>
    whole_line l e \<and> l \<noteq> [DOT]
    \<and> (\<exists>s1. incoming s = l @ e @ incoming s1 \<and> broken s1 = broken s \<and> received_table s1 ls eols eol s')"
proof
  assume *: "received_table s (l # ls) (e # eols) eol s'"
  let ?s1 = "s\<lparr>incoming := concat (map2 (\<lambda>l e. l @ e) ls eols) @ DOT # eol @ incoming s'\<rparr>"
  from * have "received_table ?s1 ls eols eol s'" "incoming s = l @ e @ incoming ?s1" "broken ?s1 = broken s"
    by (auto simp: received_table_def)
  moreover have "whole_line l e" "l \<noteq> [DOT]" using * by (auto simp: received_table_def)
  ultimately show "whole_line l e \<and> l \<noteq> [DOT]
    \<and> (\<exists>s1. incoming s = l @ e @ incoming s1 \<and> broken s1 = broken s \<and> received_table s1 ls eols eol s')"
    by blast
qed (auto simp: received_table_def)

lemma read_line_dot: "read_line s = (Inr [DOT], s') \<longleftrightarrow> (\<exists>eol. received_table s [] [] eol s')"
proof -
  have cr: "(\<exists>k. eol = replicate k CR) \<and> utf8_valid (DOT # eol) \<and> Suc (length eol) < MAX_ADMIN_LINE_LEN
      \<longleftrightarrow> (\<exists>k < MAX_ADMIN_LINE_LEN - 1. eol = replicate k CR)" for eol :: bytes
    by (auto intro!: utf8_valid_ascii)
  show ?thesis unfolding read_line_whole received_end last_line_def
    using cr by (auto simp: whole_line_def)
qed

lemma read_dot_terminated_iff:
  "read_dot_terminated s = (Inr ls, s') \<longleftrightarrow> (\<exists>eols eol. received_table s ls eols eol s')"
proof (induction ls arbitrary: s)
  case Nil
  then show ?case unfolding read_dot_terminated_end read_line_dot by (auto simp: received_table_def)
next
  case (Cons l ls)
  have rest: "incoming t \<noteq> []" if "received_table t ls eols eol s'" for t eols eol
    using that by (auto simp: received_table_def)
  have row: "read_line s = (Inr l, t) \<longleftrightarrow> (\<exists>e. incoming s = l @ e @ incoming t \<and> broken t = broken s \<and> whole_line l e)"
    if "incoming t \<noteq> []" for t
    using that unfolding read_line_whole by blast
  show ?case
  proof
    assume "read_dot_terminated s = (Inr (l # ls), s')"
    then obtain t eols eol where t: "l \<noteq> [DOT]" "read_line s = (Inr l, t)" "received_table t ls eols eol s'"
      unfolding read_dot_terminated_row Cons.IH by blast
    with row [OF rest [OF t(3)]] received_row show "\<exists>eols eol. received_table s (l # ls) eols eol s'" by blast
  next
    assume "\<exists>eols eol. received_table s (l # ls) eols eol s'"
    then obtain e eols eol where "received_table s (l # ls) (e # eols) eol s'"
      by (auto simp: received_table_def list_all2_Cons1)
    then obtain t where "whole_line l e" "l \<noteq> [DOT]" "incoming s = l @ e @ incoming t" "broken t = broken s"
      "received_table t ls eols eol s'" unfolding received_row by blast
    with row [OF rest] show "read_dot_terminated s = (Inr (l # ls), s')"
      unfolding read_dot_terminated_row Cons.IH by blast
  qed
qed

text \<open>
  C27. When a table is returned, from any stream: if and only if each of its lines was received whole (ended by a
  line feed, in UTF-8 and within 64 KiB), none of them being the line \<^verbatim>\<open>.\<close>, and after them a line \<^verbatim>\<open>.\<close>
  that is also whole, or is cut off by the end of the stream after the dot and any carriage returns;
  and what follows the table is left in the stream. So a stream that ends or breaks before the dot is
  an error, but a stream that ends just after the first byte of a row that begins with a dot is taken
  as a whole table.
\<close>

theorem table_returned_iff:
  "read_dot_terminated s = (Inr ls, s') \<longleftrightarrow> (\<exists>eols eol. received_table s ls eols eol s')"
  by (rule read_dot_terminated_iff)

text \<open>The end of \<^verbatim>\<open>a\<close>, \<^verbatim>\<open>.bar\<close> and \<^verbatim>\<open>.\<close> after \<^verbatim>\<open>a\<close> and the first byte of \<^verbatim>\<open>.bar\<close>.\<close>

theorem cut_row_ends_table:
  "read_dot_terminated \<lparr>incoming = ascii ''a'' @ [LF, DOT], broken = None\<rparr>
     = (Inr [ascii ''a''], \<lparr>incoming = [], broken = None\<rparr>)"
  unfolding read_dot_terminated_iff
  by (intro exI [of _ "[[LF]]"] exI [of _ "[]"])
    (auto simp: received_table_def whole_line_def last_line_def MAX_ADMIN_LINE_LEN_def intro: exI [of _ 0])

section \<open>Commands\<close>

lemma request_reply_sent:
  "answer (ac_reader c) = (r, s) \<Longrightarrow>
     request_reply c None line answer
       = (r, c\<lparr>ac_written := ac_written c @ line @ [CR, LF], ac_reader := s\<rparr>)"
  by (simp add: request_reply_def send_line_def)

text \<open>
  \<^verbatim>\<open>status\<close> round trip: the rows gearmand prints, with either line end and whatever follows them,
  come back unchanged, and the client has sent the command line and read no byte past the table.
\<close>

theorem status_table_roundtrip:
  assumes "line_end eol" "\<forall>r \<in> set rs. column_name (fs_function r)"
    and "incoming (ac_reader c) = table eol (map status_row rs) @ rest"
  shows "admin_status c None
    = (Inr rs, c\<lparr>ac_written := ac_written c @ ascii ''status'' @ [CR, LF],
                 ac_reader := (ac_reader c)\<lparr>incoming := rest\<rparr>\<rparr>)"
  unfolding admin_status_def by (rule request_reply_sent) (rule status.rows_read [OF assms])

theorem status_table_roundtrip_witness:
  "admin_status
      (from_stream \<lparr>incoming = table [LF] [ascii ''rev'' @ columns [12, 1, 3]] @ [0x4F], broken = None\<rparr>) None
    = (Inr [\<lparr>fs_function = ascii ''rev'', fs_total = 12, fs_running = 1, fs_worker_count = 3\<rparr>],
       \<lparr>ac_reader = \<lparr>incoming = [0x4F], broken = None\<rparr>, ac_written = ascii ''status'' @ [CR, LF]\<rparr>)"
  using status_table_roundtrip [of "[LF]"
      "[\<lparr>fs_function = ascii ''rev'', fs_total = 12, fs_running = 1, fs_worker_count = 3\<rparr>]"
      "from_stream \<lparr>incoming = table [LF] [ascii ''rev'' @ columns [12, 1, 3]] @ [0x4F], broken = None\<rparr>"
      "[0x4F]"]
  by (simp add: line_end_def column_name_def status_row_def from_stream_def del: columns_simps)

lemma priority_status_roundtrip:
  assumes "line_end eol" "\<forall>r \<in> set rs. column_name (ps_function r)"
    and "incoming (ac_reader c) = table eol (map priority_row rs) @ rest"
  shows "fst (admin_priority_status c None) = Inr rs"
  unfolding admin_priority_status_def using priority.rows_read [OF assms]
  by (simp add: request_reply_sent del: ascii_simps)

lemma show_jobs_roundtrip:
  assumes "line_end eol" "\<forall>r \<in> set rs. column_name (jl_handle r)"
    and "incoming (ac_reader c) = table eol (map job_row rs) @ rest"
  shows "fst (admin_show_jobs c None) = Inr rs"
  unfolding admin_show_jobs_def using jobs.rows_read [OF assms]
  by (simp add: request_reply_sent del: ascii_simps)

lemma collect_results_all: "collect_results (map (\<lambda>l. Inr (f l)) ls) = Inr (map f ls)"
  by (induction ls) auto

lemma show_unique_jobs_roundtrip:
  assumes "line_end eol" "\<forall>r \<in> set rs. unique_printable r"
    and "incoming (ac_reader c) = table eol (map unique_row rs) @ rest"
  shows "fst (admin_show_unique_jobs c None) = Inr rs"
proof -
  have "admin_show_unique_jobs c None = request_reply c None (ascii ''show unique jobs'')
      (read_rows (\<lambda>l. Inr (parse_unique_job_line l)))"
    by (simp add: admin_show_unique_jobs_def read_rows_def [abs_def] collect_results_all del: ascii_simps)
  with uniques.rows_read [OF assms] show ?thesis by (simp add: request_reply_sent del: ascii_simps)
qed

text \<open>
  C28. \<^verbatim>\<open>workers\<close> round trip: every worker comes back with its descriptor, address, client id and
  functions, IPv6 addresses such as \<^verbatim>\<open>::1\<close> and workers without functions included.
\<close>

theorem workers_table_roundtrip:
  assumes "line_end eol" "\<forall>r \<in> set rs. worker_printable r"
    and "incoming (ac_reader c) = table eol (map worker_row rs) @ rest"
  shows "admin_workers c None
    = (Inr rs, c\<lparr>ac_written := ac_written c @ ascii ''workers'' @ [CR, LF],
                 ac_reader := (ac_reader c)\<lparr>incoming := rest\<rparr>\<rparr>)"
  unfolding admin_workers_def by (rule request_reply_sent) (rule workers.rows_read [OF assms])

theorem workers_table_roundtrip_witness:
  "fst (admin_workers
      (from_stream \<lparr>incoming = table [CR, LF] [ascii ''-1 ::1 - :'', ascii ''7 ::1 w : a b''], broken = None\<rparr>) None)
    = Inr [\<lparr>wi_fd = -1, wi_ip = ascii ''::1'', wi_client_id = ascii ''-'', wi_functions = []\<rparr>,
           \<lparr>wi_fd = 7, wi_ip = ascii ''::1'', wi_client_id = ascii ''w'', wi_functions = [ascii ''a'', ascii ''b'']\<rparr>]"
proof -
  let ?a = "\<lparr>wi_fd = -1, wi_ip = ascii ''::1'', wi_client_id = ascii ''-'', wi_functions = []\<rparr>"
  let ?b = "\<lparr>wi_fd = 7, wi_ip = ascii ''::1'', wi_client_id = ascii ''w'', wi_functions = [ascii ''a'', ascii ''b'']\<rparr>"
  have rows: "worker_row ?a = ascii ''-1 ::1 - :''" "worker_row ?b = ascii ''7 ::1 w : a b''"
    by (simp_all add: worker_row_def dec_i32_def dec.simps digit_byte_def)
  have "worker_printable ?a" "worker_printable ?b"
    by (simp_all only: worker_printable_def rows) (simp_all add: word_ok_def MAX_ADMIN_LINE_LEN_def)
  with workers_table_roundtrip [of "[CR, LF]" "[?a, ?b]"
      "from_stream \<lparr>incoming = table [CR, LF] [ascii ''-1 ::1 - :'', ascii ''7 ::1 w : a b''], broken = None\<rparr>" "[]"]
  show ?thesis by (simp add: line_end_def rows from_stream_def del: ascii_simps)
qed

text \<open>
  C39. The string arguments of the admin commands go into the line unchecked: a command writes one
  line for itself and one more for every line feed in its argument, and an argument with \<^verbatim>\<open>\r\n\<close> in
  it sends the server a second command of the caller's choice.
\<close>

theorem argument_injects_commands:
  "count_list (ac_written (snd (create_function c None name))) LF
     = count_list (ac_written c) LF + 1 + count_list name LF
   \<and> count_list (ac_written (snd (drop_function c None name))) LF
     = count_list (ac_written c) LF + 1 + count_list name LF
   \<and> count_list (ac_written (snd (cancel_job c None name))) LF
     = count_list (ac_written c) LF + 1 + count_list name LF
   \<and> ac_written (snd (create_function c None (name @ [CR, LF] @ cmd)))
     = ac_written (snd (send_line (snd (create_function c None name)) None cmd))"
proof -
  have w: "ac_written (snd (request_reply c None line answer)) = ac_written c @ line @ [CR, LF]"
    for line and answer :: "stream \<Rightarrow> unit result \<times> stream"
    by (simp add: request_reply_def send_line_def split: prod.splits)
  show ?thesis
    by (simp add: create_function_def drop_function_def cancel_job_def w)
      (simp add: send_line_def w)
qed

lemma read_ack_line:
  "\<lbrakk>plain_line l; line_end eol; incoming s = l @ eol @ rest\<rbrakk>
    \<Longrightarrow> read_ack s = (parse_ack_line l, s\<lparr>incoming := rest\<rparr>)"
  by (simp add: read_ack_def read_line_line)

lemma parse_ack_OK: "ws_char v = 0 \<Longrightarrow> parse_ack_line (ascii ''OK '' @ v) = Inr (if v = [] then None else Some v)"
  by (simp add: parse_ack_line_def trim_start_id)

lemma parse_ack_ERR:
  "\<lbrakk>ws_char code = 0; code \<noteq> []; SPACE \<notin> set code\<rbrakk>
    \<Longrightarrow> parse_ack_line (ascii ''ERR '' @ code @ SPACE # txt) = Inl (ServerError code txt)"
  by (simp add: parse_ack_line_def trim_start_id ws_char_before_space split_once_hit)

lemma plain_line_dec: "length (dec n) \<le> 20 \<Longrightarrow> plain_line (ascii ''OK '' @ dec n)"
proof -
  assume "length (dec n) \<le> 20"
  moreover have "LF \<notin> set (dec n)" "last (dec n) \<noteq> CR"
    using dec_not [of _ n] last_in_set [of "dec n"] by auto
  ultimately show ?thesis by (simp add: plain_line_def MAX_ADMIN_LINE_LEN_def)
qed

lemma ws_char_dec: "ws_char (dec n) = 0"
proof -
  have "ws_free (dec n)"
  proof (intro ws_free_ascii ballI)
    fix b assume "b \<in> set (dec n)"
    then have "is_digit b" by (rule dec_is_digit)
    then show "0x20 < b \<and> b \<le> 0x7F" by (auto simp: is_digit_def word_le_nat_alt word_less_nat_alt)
  qed
  then show ?thesis by (cases "dec n") auto
qed

text \<open>
  C35. One-line replies: \<^verbatim>\<open>OK\<close> ends a command without a value and is an error for a command that
  wants one, text that follows \<^verbatim>\<open>OK\<close>, with or without a space in between, is the value,
  \<^verbatim>\<open>OK <pid>\<close> gives the process id, \<^verbatim>\<open>ERR <CODE> <text>\<close> gives the server's error with
  its code and its text (spaces included), and any other line is a protocol error that carries it.
\<close>

theorem ack_replies_exact:
  assumes "line_end eol" and "incoming (ac_reader c) = l @ eol @ rest" and "plain_line l"
  shows "(l = ascii ''OK'' \<longrightarrow>
            fst (create_function c None name) = Inr () \<and>
            fst (admin_version c None) = Inl (AdminProtocolError (ascii ''OK'')))
       \<and> (l = ascii ''OK'' @ v \<and> v \<noteq> [] \<and> ws_char v = 0 \<longrightarrow> fst (admin_version c None) = Inr v)
       \<and> (l = ascii ''OK '' @ dec (unat pid) \<longrightarrow> fst (getpid c None) = Inr pid)
       \<and> (l = ascii ''ERR '' @ code @ SPACE # txt \<and> code \<noteq> [] \<and> ws_char code = 0 \<and> SPACE \<notin> set code \<longrightarrow>
            fst (create_function c None name) = Inl (ServerError code txt) \<and>
            fst (getpid c None) = Inl (ServerError code txt))
       \<and> (strip_prefix (ascii ''OK'') l = None \<and> strip_prefix (ascii ''ERR'') l = None \<longrightarrow>
            fst (create_function c None name) = Inl (AdminProtocolError l) \<and>
            fst (getpid c None) = Inl (AdminProtocolError l))"
proof -
  note ra = read_ack_line [OF assms(3,1,2)]
  let ?pid = "\<lambda>v. case from_str_u32 v of Some n \<Rightarrow> Inr n | None \<Rightarrow> Inl (AdminProtocolError (ascii ''OK '' @ v))"
  let ?need = "\<lambda>v. case v of Some x \<Rightarrow> Inr x | None \<Rightarrow> Inl (AdminProtocolError (ascii ''OK''))"
  have "fst (create_function c None name) = try_then (parse_ack_line l) (\<lambda>_. Inr ())"
    "fst (admin_version c None) = try_then (parse_ack_line l) ?need"
    "fst (getpid c None) = try_then (try_then (parse_ack_line l) ?need) ?pid"
    by (simp_all add: create_function_def admin_version_def getpid_def request_reply_def send_line_def
        ack_only_def read_ack_value_def ra del: ascii_simps)
  then show ?thesis
    by (intro conjI impI)
      (simp_all add: parse_ack_OK parse_ack_ERR ws_char_dec del: ascii_simps,
       simp_all add: parse_ack_line_def trim_start_id del: ascii_simps(3))
qed

theorem ack_replies_exact_witness:
  "fst (getpid (from_stream \<lparr>incoming = ascii ''OK 4711'' @ [LF], broken = None\<rparr>) None) = Inr 4711
   \<and> fst (create_function (from_stream \<lparr>incoming = ascii ''ERR E1 no room'' @ [LF], broken = None\<rparr>) None (ascii ''f''))
     = Inl (ServerError (ascii ''E1'') (ascii ''no room''))"
proof -
  have l: "line_end [LF]" and p: "plain_line (ascii ''OK 4711'')" "plain_line (ascii ''ERR E1 no room'')"
    by (simp_all add: line_end_def plain_line_def MAX_ADMIN_LINE_LEN_def)
  have d: "ascii ''OK 4711'' = ascii ''OK '' @ dec (unat (4711 :: u32))"
    by (simp add: dec.simps digit_byte_def)
  from ack_replies_exact [OF l _ p(1), of "from_stream \<lparr>incoming = ascii ''OK 4711'' @ [LF], broken = None\<rparr>"
      "[]" "[]" "[]" 4711] d
  have "fst (getpid (from_stream \<lparr>incoming = ascii ''OK 4711'' @ [LF], broken = None\<rparr>) None) = Inr 4711"
    by (simp add: from_stream_def del: ascii_simps)
  moreover from ack_replies_exact [OF l _ p(2), of "from_stream \<lparr>incoming = ascii ''ERR E1 no room'' @ [LF], broken = None\<rparr>"
      "[]" "ascii ''f''" "[]" 0 "ascii ''E1''" "ascii ''no room''"]
  have "fst (create_function (from_stream \<lparr>incoming = ascii ''ERR E1 no room'' @ [LF], broken = None\<rparr>) None (ascii ''f''))
     = Inl (ServerError (ascii ''E1'') (ascii ''no room''))"
    by (simp add: from_stream_def)
  ultimately show ?thesis by blast
qed

end
