(* ===== verification/Ketama_Tests.thy ===== *)
theory Ketama_Tests
  imports Ketama
begin

text \<open>
  The unit tests of \<^verbatim>\<open>src/client/ketama.rs\<close> on the model. Each is a boolean definition that does
  what the test does. The golden test compares the ring with values that libgearman computed, so it
  needs MD5 values: \<open>golden_digests\<close> lists the digests of the strings it hashes, and the test passes
  for every digest function that agrees with MD5 on them. The others hold for every digest of 16
  bytes. The test \<^verbatim>\<open>every_server_gets_some_uniques\<close>, which counts over 3000 digests, is left out.
\<close>

section \<open>Helpers\<close>

text \<open>What selection does when the primary server alone is down.\<close>

lemma select_past:
  assumes "select md5 ps u (\<lambda>_. True) = Some p" and "next_after ps p = Some q"
  shows "select md5 ps u (\<lambda>s. s \<noteq> p) = Some q"
proof -
  from assms(1) have ne: "ps \<noteq> []" by (auto simp: select_def)
  with select_primary [OF ne, of "\<lambda>_. True"] assms(1)
  have p: "snd (ps ! start_of (md5_u32 md5 u) ps) = p" by simp
  have "q \<noteq> p" using next_after_in_ring [OF assms(2)] by blast
  then have "chain ps (\<lambda>s. s \<noteq> p) p [] = Some q"
    using assms(2) by (simp add: chain.simps [of ps _ p "[]"] chain.simps [of ps _ q "[p]"])
  with p show ?thesis by (simp add: select_alt [OF ne])
qed

text \<open>Every sort by point puts points without repetitions in the same order.\<close>

lemma sorts_agree:
  assumes "mset xs = mset ys" and "sorted (map fst xs)" and "sorted (map fst ys)" and "distinct (map fst ys)"
  shows "xs = (ys :: points)"
proof -
  have "mset (map fst xs) = mset (map fst ys)" using assms(1) by simp
  then have "sort (map fst ys) = map fst xs" using assms(2) by (rule properties_for_sort)
  moreover have "sort (map fst ys) = map fst ys" using assms(3) by (rule sorted_sort_id)
  ultimately have fsts: "map fst xs = map fst ys" by simp
  have inj: "inj_on fst (set ys)" using assms(4) by (simp add: distinct_map)
  have same: "set xs = set ys" using assms(1) by (rule mset_eq_setD)
  have len: "length xs = length ys" using assms(1) by (rule mset_eq_length)
  show ?thesis
  proof (rule nth_equalityI [OF len])
    fix i
    assume i: "i < length xs"
    then have "fst (xs ! i) = fst (ys ! i)" using arg_cong [OF fsts, of "\<lambda>zs. zs ! i"] len by simp
    moreover have "xs ! i \<in> set ys" using nth_mem [OF i] unfolding same .
    moreover have "ys ! i \<in> set ys" using i unfolding len by (rule nth_mem)
    ultimately show "xs ! i = ys ! i" by (rule inj_onD [OF inj])
  qed
qed

lemma ring_sorted:
  assumes "unstable_sort srt" and "distinct (map fst (ring_points md5 servers))"
  shows "ring_new md5 srt servers = sort_key fst (ring_points md5 servers)"
  unfolding ring_new_def
proof (rule sorts_agree)
  show "mset (srt (ring_points md5 servers)) = mset (sort_key fst (ring_points md5 servers))"
    by (simp add: unstable_sort.srt_mset [OF assms(1)])
  show "sorted (map fst (srt (ring_points md5 servers)))" by (rule unstable_sort.srt_sorted [OF assms(1)])
  show "sorted (map fst (sort_key fst (ring_points md5 servers)))" by simp
  have "mset (map fst (sort_key fst (ring_points md5 servers))) = mset (map fst (ring_points md5 servers))"
    by (simp add: mset_map)
  then show "distinct (map fst (sort_key fst (ring_points md5 servers)))"
    using assms(2) mset_eq_imp_distinct_iff [THEN iffD2] by blast
qed

section \<open>Digests\<close>

definition golden_digests :: "(bytes \<times> bytes) list" where
  "golden_digests =
    [(ascii ''10.0.0.1:4730-0'',
       [0xD4, 0x3E, 0xD1, 0xE9, 0xB5, 0xE6, 0x9B, 0x8F, 0xD0, 0x02, 0x55, 0x92, 0x7F, 0x3C, 0x17, 0x50]),
     (ascii ''10.0.0.1:4730-1'',
       [0xD1, 0xD2, 0xB0, 0x82, 0x39, 0x60, 0x62, 0x8E, 0x4D, 0x43, 0x87, 0x03, 0x48, 0xC2, 0xE6, 0x9A]),
     (ascii ''10.0.0.1:4730-2'',
       [0x5F, 0xC2, 0x93, 0xB7, 0x42, 0xC2, 0xD6, 0xE8, 0x71, 0xBE, 0x01, 0xC1, 0x2D, 0xB9, 0x3C, 0x40]),
     (ascii ''10.0.0.1:4730-3'',
       [0x2F, 0x6C, 0x3C, 0x7F, 0x42, 0x22, 0x7A, 0x58, 0x70, 0x3B, 0xF5, 0x3B, 0xE5, 0x75, 0x6F, 0xB9]),
     (ascii ''10.0.0.2:4730-0'',
       [0xFB, 0xC3, 0x50, 0x8C, 0xDE, 0x2D, 0x0C, 0x54, 0x1D, 0xDE, 0x56, 0xE6, 0x43, 0x2B, 0x1B, 0xF0]),
     (ascii ''10.0.0.2:4730-1'',
       [0x19, 0x65, 0xF2, 0xD1, 0xB0, 0xC4, 0xEA, 0x9A, 0x9F, 0x44, 0x45, 0xD4, 0xC8, 0x99, 0x0B, 0x59]),
     (ascii ''10.0.0.2:4730-2'',
       [0x69, 0xB4, 0xD5, 0x0D, 0x17, 0x73, 0x5C, 0xC7, 0x03, 0x95, 0x70, 0x77, 0xE5, 0xAC, 0x77, 0x50]),
     (ascii ''10.0.0.2:4730-3'',
       [0xA9, 0xF2, 0x5C, 0x99, 0xBA, 0x48, 0x24, 0xD8, 0xED, 0x34, 0xA9, 0x8E, 0x94, 0xF8, 0xCE, 0x62]),
     (ascii ''10.0.0.3:4730-0'',
       [0x5D, 0x7D, 0x54, 0x43, 0x0F, 0xF3, 0x03, 0xC7, 0xD2, 0xF4, 0x4F, 0x71, 0xEF, 0xF1, 0x00, 0xB2]),
     (ascii ''10.0.0.3:4730-1'',
       [0x52, 0x63, 0xF9, 0x58, 0xE4, 0x44, 0xFC, 0x1E, 0x61, 0xF7, 0xDF, 0x25, 0x2E, 0xB1, 0x67, 0xA6]),
     (ascii ''10.0.0.3:4730-2'',
       [0x80, 0xC7, 0x7F, 0xFA, 0xF7, 0x9A, 0x5E, 0xC5, 0x28, 0xA7, 0xF5, 0x50, 0x88, 0x3C, 0x3E, 0x9A]),
     (ascii ''10.0.0.3:4730-3'',
       [0xB4, 0xDF, 0xF9, 0x4A, 0x08, 0x1B, 0xAE, 0xB4, 0xE0, 0x76, 0x9D, 0x45, 0xA7, 0x85, 0x81, 0xA7]),
     (ascii ''localhost:4730-0'',
       [0x35, 0x6D, 0xD8, 0x64, 0x17, 0x49, 0xB6, 0xFD, 0x6C, 0xF0, 0x9B, 0x08, 0xBF, 0xB7, 0xA6, 0x40]),
     (ascii ''localhost:4730-1'',
       [0x2C, 0xE2, 0x5D, 0x84, 0xD9, 0x91, 0xDD, 0x76, 0xCC, 0x53, 0xA8, 0xFD, 0xE9, 0x4C, 0xA1, 0x9A]),
     (ascii ''localhost:4730-2'',
       [0xB7, 0x22, 0x39, 0x0A, 0x18, 0x04, 0xD8, 0xFB, 0xAC, 0xE1, 0x5F, 0x1D, 0x20, 0x74, 0x09, 0xFF]),
     (ascii ''localhost:4730-3'',
       [0x20, 0x49, 0xF9, 0x8D, 0xB1, 0x59, 0x26, 0x70, 0xF3, 0x05, 0x7E, 0xD7, 0x0B, 0xD0, 0xF3, 0xE4]),
     (ascii ''localhost:4731-0'',
       [0x28, 0xF8, 0x49, 0xBB, 0x6D, 0x23, 0x48, 0xCE, 0xDA, 0xF0, 0xCF, 0x7D, 0x72, 0x62, 0xB7, 0xB0]),
     (ascii ''localhost:4731-1'',
       [0xC5, 0xC3, 0x2D, 0x1F, 0xF9, 0x38, 0xDF, 0x50, 0xA0, 0xC7, 0x86, 0x6C, 0x9C, 0x49, 0x7C, 0xB9]),
     (ascii ''localhost:4731-2'',
       [0x35, 0x1D, 0xB4, 0x07, 0xAD, 0xF1, 0xF3, 0x45, 0x6F, 0x2F, 0x15, 0x7B, 0x29, 0x39, 0x6E, 0x0E]),
     (ascii ''localhost:4731-3'',
       [0xEB, 0x41, 0xAA, 0x33, 0x62, 0x83, 0x85, 0x9C, 0xC3, 0x6B, 0x4A, 0xC2, 0xEE, 0xDC, 0x90, 0xFA]),
     (ascii ''a'',
       [0x0C, 0xC1, 0x75, 0xB9, 0xC0, 0xF1, 0xB6, 0xA8, 0x31, 0xC3, 0x99, 0xE2, 0x69, 0x77, 0x26, 0x61]),
     (ascii ''b'',
       [0x92, 0xEB, 0x5F, 0xFE, 0xE6, 0xAE, 0x2F, 0xEC, 0x3A, 0xD7, 0x1C, 0x77, 0x75, 0x31, 0x57, 0x8F]),
     (ascii ''order-42'',
       [0x4F, 0x41, 0x6B, 0x0C, 0x12, 0xAA, 0x8C, 0x75, 0x42, 0x09, 0xDA, 0x95, 0x5F, 0xB7, 0x55, 0xCC]),
     (ascii ''user:1001'',
       [0x12, 0x6B, 0xD4, 0xE4, 0x52, 0x31, 0x36, 0x89, 0x0F, 0x57, 0xE2, 0xBB, 0x7E, 0x76, 0xFE, 0xC6]),
     (ascii ''dedupe-me'',
       [0xFB, 0x4E, 0x3B, 0x15, 0x9C, 0x0D, 0xFB, 0xE0, 0xA8, 0xFC, 0x34, 0x0E, 0xE8, 0x90, 0x62, 0x68]),
     (ascii ''x'',
       [0x9D, 0xD4, 0xE4, 0x61, 0x26, 0x8C, 0x80, 0x34, 0xF5, 0xC8, 0x56, 0x4E, 0x15, 0x5C, 0x67, 0xA6]),
     (ascii ''unique-7'',
       [0x9E, 0x34, 0xD9, 0xC4, 0xC3, 0x41, 0xCA, 0xA5, 0xB1, 0xAF, 0xF8, 0x7B, 0x99, 0xB6, 0x05, 0x18]),
     (ascii ''job/2026-10-19'',
       [0x19, 0xFC, 0xC2, 0x1F, 0x5F, 0x93, 0x9C, 0xB5, 0x6B, 0xA2, 0x83, 0xA3, 0xDC, 0xC7, 0xED, 0x8B])]"

definition md5_agrees :: "(bytes \<Rightarrow> bytes) \<Rightarrow> bool" where
  "md5_agrees md5 \<longleftrightarrow> list_all (\<lambda>(key, digest). md5 key = digest) golden_digests"

lemma golden_md5:
  assumes "md5_agrees md5"
  shows "md5 (ascii ''10.0.0.1:4730-0'') = [0xD4, 0x3E, 0xD1, 0xE9, 0xB5, 0xE6, 0x9B, 0x8F, 0xD0, 0x02, 0x55, 0x92, 0x7F, 0x3C, 0x17, 0x50]"
    "md5 (ascii ''10.0.0.1:4730-1'') = [0xD1, 0xD2, 0xB0, 0x82, 0x39, 0x60, 0x62, 0x8E, 0x4D, 0x43, 0x87, 0x03, 0x48, 0xC2, 0xE6, 0x9A]"
    "md5 (ascii ''10.0.0.1:4730-2'') = [0x5F, 0xC2, 0x93, 0xB7, 0x42, 0xC2, 0xD6, 0xE8, 0x71, 0xBE, 0x01, 0xC1, 0x2D, 0xB9, 0x3C, 0x40]"
    "md5 (ascii ''10.0.0.1:4730-3'') = [0x2F, 0x6C, 0x3C, 0x7F, 0x42, 0x22, 0x7A, 0x58, 0x70, 0x3B, 0xF5, 0x3B, 0xE5, 0x75, 0x6F, 0xB9]"
    "md5 (ascii ''10.0.0.2:4730-0'') = [0xFB, 0xC3, 0x50, 0x8C, 0xDE, 0x2D, 0x0C, 0x54, 0x1D, 0xDE, 0x56, 0xE6, 0x43, 0x2B, 0x1B, 0xF0]"
    "md5 (ascii ''10.0.0.2:4730-1'') = [0x19, 0x65, 0xF2, 0xD1, 0xB0, 0xC4, 0xEA, 0x9A, 0x9F, 0x44, 0x45, 0xD4, 0xC8, 0x99, 0x0B, 0x59]"
    "md5 (ascii ''10.0.0.2:4730-2'') = [0x69, 0xB4, 0xD5, 0x0D, 0x17, 0x73, 0x5C, 0xC7, 0x03, 0x95, 0x70, 0x77, 0xE5, 0xAC, 0x77, 0x50]"
    "md5 (ascii ''10.0.0.2:4730-3'') = [0xA9, 0xF2, 0x5C, 0x99, 0xBA, 0x48, 0x24, 0xD8, 0xED, 0x34, 0xA9, 0x8E, 0x94, 0xF8, 0xCE, 0x62]"
    "md5 (ascii ''10.0.0.3:4730-0'') = [0x5D, 0x7D, 0x54, 0x43, 0x0F, 0xF3, 0x03, 0xC7, 0xD2, 0xF4, 0x4F, 0x71, 0xEF, 0xF1, 0x00, 0xB2]"
    "md5 (ascii ''10.0.0.3:4730-1'') = [0x52, 0x63, 0xF9, 0x58, 0xE4, 0x44, 0xFC, 0x1E, 0x61, 0xF7, 0xDF, 0x25, 0x2E, 0xB1, 0x67, 0xA6]"
    "md5 (ascii ''10.0.0.3:4730-2'') = [0x80, 0xC7, 0x7F, 0xFA, 0xF7, 0x9A, 0x5E, 0xC5, 0x28, 0xA7, 0xF5, 0x50, 0x88, 0x3C, 0x3E, 0x9A]"
    "md5 (ascii ''10.0.0.3:4730-3'') = [0xB4, 0xDF, 0xF9, 0x4A, 0x08, 0x1B, 0xAE, 0xB4, 0xE0, 0x76, 0x9D, 0x45, 0xA7, 0x85, 0x81, 0xA7]"
    "md5 (ascii ''localhost:4730-0'') = [0x35, 0x6D, 0xD8, 0x64, 0x17, 0x49, 0xB6, 0xFD, 0x6C, 0xF0, 0x9B, 0x08, 0xBF, 0xB7, 0xA6, 0x40]"
    "md5 (ascii ''localhost:4730-1'') = [0x2C, 0xE2, 0x5D, 0x84, 0xD9, 0x91, 0xDD, 0x76, 0xCC, 0x53, 0xA8, 0xFD, 0xE9, 0x4C, 0xA1, 0x9A]"
    "md5 (ascii ''localhost:4730-2'') = [0xB7, 0x22, 0x39, 0x0A, 0x18, 0x04, 0xD8, 0xFB, 0xAC, 0xE1, 0x5F, 0x1D, 0x20, 0x74, 0x09, 0xFF]"
    "md5 (ascii ''localhost:4730-3'') = [0x20, 0x49, 0xF9, 0x8D, 0xB1, 0x59, 0x26, 0x70, 0xF3, 0x05, 0x7E, 0xD7, 0x0B, 0xD0, 0xF3, 0xE4]"
    "md5 (ascii ''localhost:4731-0'') = [0x28, 0xF8, 0x49, 0xBB, 0x6D, 0x23, 0x48, 0xCE, 0xDA, 0xF0, 0xCF, 0x7D, 0x72, 0x62, 0xB7, 0xB0]"
    "md5 (ascii ''localhost:4731-1'') = [0xC5, 0xC3, 0x2D, 0x1F, 0xF9, 0x38, 0xDF, 0x50, 0xA0, 0xC7, 0x86, 0x6C, 0x9C, 0x49, 0x7C, 0xB9]"
    "md5 (ascii ''localhost:4731-2'') = [0x35, 0x1D, 0xB4, 0x07, 0xAD, 0xF1, 0xF3, 0x45, 0x6F, 0x2F, 0x15, 0x7B, 0x29, 0x39, 0x6E, 0x0E]"
    "md5 (ascii ''localhost:4731-3'') = [0xEB, 0x41, 0xAA, 0x33, 0x62, 0x83, 0x85, 0x9C, 0xC3, 0x6B, 0x4A, 0xC2, 0xEE, 0xDC, 0x90, 0xFA]"
    "md5 (ascii ''a'') = [0x0C, 0xC1, 0x75, 0xB9, 0xC0, 0xF1, 0xB6, 0xA8, 0x31, 0xC3, 0x99, 0xE2, 0x69, 0x77, 0x26, 0x61]"
    "md5 (ascii ''b'') = [0x92, 0xEB, 0x5F, 0xFE, 0xE6, 0xAE, 0x2F, 0xEC, 0x3A, 0xD7, 0x1C, 0x77, 0x75, 0x31, 0x57, 0x8F]"
    "md5 (ascii ''order-42'') = [0x4F, 0x41, 0x6B, 0x0C, 0x12, 0xAA, 0x8C, 0x75, 0x42, 0x09, 0xDA, 0x95, 0x5F, 0xB7, 0x55, 0xCC]"
    "md5 (ascii ''user:1001'') = [0x12, 0x6B, 0xD4, 0xE4, 0x52, 0x31, 0x36, 0x89, 0x0F, 0x57, 0xE2, 0xBB, 0x7E, 0x76, 0xFE, 0xC6]"
    "md5 (ascii ''dedupe-me'') = [0xFB, 0x4E, 0x3B, 0x15, 0x9C, 0x0D, 0xFB, 0xE0, 0xA8, 0xFC, 0x34, 0x0E, 0xE8, 0x90, 0x62, 0x68]"
    "md5 (ascii ''x'') = [0x9D, 0xD4, 0xE4, 0x61, 0x26, 0x8C, 0x80, 0x34, 0xF5, 0xC8, 0x56, 0x4E, 0x15, 0x5C, 0x67, 0xA6]"
    "md5 (ascii ''unique-7'') = [0x9E, 0x34, 0xD9, 0xC4, 0xC3, 0x41, 0xCA, 0xA5, 0xB1, 0xAF, 0xF8, 0x7B, 0x99, 0xB6, 0x05, 0x18]"
    "md5 (ascii ''job/2026-10-19'') = [0x19, 0xFC, 0xC2, 0x1F, 0x5F, 0x93, 0x9C, 0xB5, 0x6B, 0xA2, 0x83, 0xA3, 0xDC, 0xC7, 0xED, 0x8B]"
  using assms by (simp_all add: md5_agrees_def golden_digests_def)

definition three_hosts :: "bytes list" where
  "three_hosts = [ascii ''10.0.0.1:4730'', ascii ''10.0.0.2:4730'', ascii ''10.0.0.3:4730'']"

definition two_ports :: "bytes list" where
  "two_ports = [ascii ''localhost:4730'', ascii ''localhost:4731'']"

lemma golden_hosts:
  "split_host_port (ascii ''10.0.0.1:4730'') = (ascii ''10.0.0.1'', 4730)"
  "split_host_port (ascii ''10.0.0.2:4730'') = (ascii ''10.0.0.2'', 4730)"
  "split_host_port (ascii ''10.0.0.3:4730'') = (ascii ''10.0.0.3'', 4730)"
  "split_host_port (ascii ''localhost:4730'') = (ascii ''localhost'', 4730)"
  "split_host_port (ascii ''localhost:4731'') = (ascii ''localhost'', 4731)"
  by (simp_all add: split_host_port_def rsplit_once_def split_once_def from_str_u16_def from_str_unsigned_def
      digits1_def is_digit_def)

lemma golden_points_1:
  assumes "md5_agrees md5"
  shows "ring_points md5 three_hosts =
    [(0xE9D13ED4, 0), (0x8F9BE6B5, 0), (0x925502D0, 0), (0x50173C7F, 0),
     (0x82B0D2D1, 0), (0x8E626039, 0), (0x0387434D, 0), (0x9AE6C248, 0),
     (0xB793C25F, 0), (0xE8D6C242, 0), (0xC101BE71, 0), (0x403CB92D, 0),
     (0x7F3C6C2F, 0), (0x587A2242, 0), (0x3BF53B70, 0), (0xB96F75E5, 0),
     (0x8C50C3FB, 1), (0x540C2DDE, 1), (0xE656DE1D, 1), (0xF01B2B43, 1),
     (0xD1F26519, 1), (0x9AEAC4B0, 1), (0xD445449F, 1), (0x590B99C8, 1),
     (0x0DD5B469, 1), (0xC75C7317, 1), (0x77709503, 1), (0x5077ACE5, 1),
     (0x995CF2A9, 1), (0xD82448BA, 1), (0x8EA934ED, 1), (0x62CEF894, 1),
     (0x43547D5D, 2), (0xC703F30F, 2), (0x714FF4D2, 2), (0xB200F1EF, 2),
     (0x58F96352, 2), (0x1EFC44E4, 2), (0x25DFF761, 2), (0xA667B12E, 2),
     (0xFA7FC780, 2), (0xC55E9AF7, 2), (0x50F5A728, 2), (0x9A3E3C88, 2),
     (0x4AF9DFB4, 2), (0xB4AE1B08, 2), (0x459D76E0, 2), (0xA78185A7, 2)]"
  using golden_md5 [OF assms]
  by (simp add: ring_points_def three_hosts_def addr_points_def golden_hosts [simplified] ring_key_def REPLICAS_PER_SERVER_def
      dec.simps digit_byte_def from_le_bytes_def from_be_bytes_def upt_rec)

lemma golden_points_2:
  assumes "md5_agrees md5"
  shows "ring_points md5 two_ports =
    [(0x64D86D35, 0), (0xFDB64917, 0), (0x089BF06C, 0), (0x40A6B7BF, 0),
     (0x845DE22C, 0), (0x76DD91D9, 0), (0xFDA853CC, 0), (0x9AA14CE9, 0),
     (0x0A3922B7, 0), (0xFBD80418, 0), (0x1D5FE1AC, 0), (0xFF097420, 0),
     (0x8DF94920, 0), (0x702659B1, 0), (0xD77E05F3, 0), (0xE4F3D00B, 0),
     (0xBB49F828, 1), (0xCE48236D, 1), (0x7DCFF0DA, 1), (0xB0B76272, 1),
     (0x1F2DC3C5, 1), (0x50DF38F9, 1), (0x6C86C7A0, 1), (0xB97C499C, 1),
     (0x07B41D35, 1), (0x45F3F1AD, 1), (0x7B152F6F, 1), (0x0E6E3929, 1),
     (0x33AA41EB, 1), (0x9C858362, 1), (0xC24A6BC3, 1), (0xFA90DCEE, 1)]"
  using golden_md5 [OF assms]
  by (simp add: ring_points_def two_ports_def addr_points_def golden_hosts [simplified] ring_key_def REPLICAS_PER_SERVER_def
      dec.simps digit_byte_def from_le_bytes_def from_be_bytes_def upt_rec)

section \<open>The golden test\<close>

text \<open>The expected \<open>(unique, primary, failover)\<close>, as libgearman 2.2.0 gives them.\<close>

definition golden_cases :: "(bytes list \<times> (bytes \<times> nat \<times> nat) list) list" where
  "golden_cases =
    [(three_hosts,
      [(ascii ''a'', 0, 1),
       (ascii ''b'', 0, 1),
       (ascii ''order-42'', 1, 2),
       (ascii ''user:1001'', 1, 2),
       (ascii ''dedupe-me'', 2, 0),
       (ascii ''x'', 1, 2),
       (ascii ''unique-7'', 2, 0),
       (ascii ''job/2026-10-19'', 2, 0)]),
     (two_ports,
      [(ascii ''a'', 1, 0),
       (ascii ''b'', 0, 1),
       (ascii ''order-42'', 1, 0),
       (ascii ''user:1001'', 0, 1),
       (ascii ''dedupe-me'', 0, 1),
       (ascii ''x'', 0, 1),
       (ascii ''unique-7'', 1, 0),
       (ascii ''job/2026-10-19'', 1, 0)])]"

definition matches_libgearman_golden_values :: "(bytes \<Rightarrow> bytes) \<Rightarrow> (points \<Rightarrow> points) \<Rightarrow> bool" where
  "matches_libgearman_golden_values md5 srt =
     list_all (\<lambda>(addrs, expected).
       let ring = ring_new md5 srt addrs in
       list_all (\<lambda>(unique, primary, failover).
         select md5 ring unique (\<lambda>_. True) = Some primary
         \<and> select md5 ring unique (\<lambda>s. s \<noteq> primary) = Some failover) expected) golden_cases"

lemma golden_hashes:
  assumes "md5_agrees md5"
  shows "md5_u32 md5 (ascii ''a'') = 0xB975C10C"
    "md5_u32 md5 (ascii ''b'') = 0xFE5FEB92"
    "md5_u32 md5 (ascii ''order-42'') = 0x0C6B414F"
    "md5_u32 md5 (ascii ''user:1001'') = 0xE4D46B12"
    "md5_u32 md5 (ascii ''dedupe-me'') = 0x153B4EFB"
    "md5_u32 md5 (ascii ''x'') = 0x61E4D49D"
    "md5_u32 md5 (ascii ''unique-7'') = 0xC4D9349E"
    "md5_u32 md5 (ascii ''job/2026-10-19'') = 0x1FC2FC19"
  unfolding md5_u32_def golden_md5 [OF assms] by (simp_all add: from_le_bytes_def from_be_bytes_def)

lemma golden_ring_1:
  assumes "md5_agrees md5" and "unstable_sort srt"
  shows "ring_new md5 srt three_hosts =
    [(0x0387434D, 0), (0x0DD5B469, 1), (0x1EFC44E4, 2), (0x25DFF761, 2),
     (0x3BF53B70, 0), (0x403CB92D, 0), (0x43547D5D, 2), (0x459D76E0, 2),
     (0x4AF9DFB4, 2), (0x50173C7F, 0), (0x5077ACE5, 1), (0x50F5A728, 2),
     (0x540C2DDE, 1), (0x587A2242, 0), (0x58F96352, 2), (0x590B99C8, 1),
     (0x62CEF894, 1), (0x714FF4D2, 2), (0x77709503, 1), (0x7F3C6C2F, 0),
     (0x82B0D2D1, 0), (0x8C50C3FB, 1), (0x8E626039, 0), (0x8EA934ED, 1),
     (0x8F9BE6B5, 0), (0x925502D0, 0), (0x995CF2A9, 1), (0x9A3E3C88, 2),
     (0x9AE6C248, 0), (0x9AEAC4B0, 1), (0xA667B12E, 2), (0xA78185A7, 2),
     (0xB200F1EF, 2), (0xB4AE1B08, 2), (0xB793C25F, 0), (0xB96F75E5, 0),
     (0xC101BE71, 0), (0xC55E9AF7, 2), (0xC703F30F, 2), (0xC75C7317, 1),
     (0xD1F26519, 1), (0xD445449F, 1), (0xD82448BA, 1), (0xE656DE1D, 1),
     (0xE8D6C242, 0), (0xE9D13ED4, 0), (0xF01B2B43, 1), (0xFA7FC780, 2)]"
proof -
  have "distinct (map fst (ring_points md5 three_hosts))" unfolding golden_points_1 [OF assms(1)] by simp
  from ring_sorted [OF assms(2) this] show ?thesis unfolding golden_points_1 [OF assms(1)] by simp
qed

lemma golden_ring_2:
  assumes "md5_agrees md5" and "unstable_sort srt"
  shows "ring_new md5 srt two_ports =
    [(0x07B41D35, 1), (0x089BF06C, 0), (0x0A3922B7, 0), (0x0E6E3929, 1),
     (0x1D5FE1AC, 0), (0x1F2DC3C5, 1), (0x33AA41EB, 1), (0x40A6B7BF, 0),
     (0x45F3F1AD, 1), (0x50DF38F9, 1), (0x64D86D35, 0), (0x6C86C7A0, 1),
     (0x702659B1, 0), (0x76DD91D9, 0), (0x7B152F6F, 1), (0x7DCFF0DA, 1),
     (0x845DE22C, 0), (0x8DF94920, 0), (0x9AA14CE9, 0), (0x9C858362, 1),
     (0xB0B76272, 1), (0xB97C499C, 1), (0xBB49F828, 1), (0xC24A6BC3, 1),
     (0xCE48236D, 1), (0xD77E05F3, 0), (0xE4F3D00B, 0), (0xFA90DCEE, 1),
     (0xFBD80418, 0), (0xFDA853CC, 0), (0xFDB64917, 0), (0xFF097420, 0)]"
proof -
  have "distinct (map fst (ring_points md5 two_ports))" unfolding golden_points_2 [OF assms(1)] by simp
  from ring_sorted [OF assms(2) this] show ?thesis unfolding golden_points_2 [OF assms(1)] by simp
qed

text \<open>The primary from the hash, and what comes after each server.\<close>

lemma select_from_hash:
  "\<lbrakk>ps \<noteq> []; md5_u32 md5 u = h; snd (ps ! start_of h ps) = p\<rbrakk> \<Longrightarrow> select md5 ps u (\<lambda>_. True) = Some p"
  using select_primary [of ps "\<lambda>_. True" md5 u] by simp

lemma golden_primary_1:
  assumes "md5_agrees md5" and "unstable_sort srt"
  shows "select md5 (ring_new md5 srt three_hosts) (ascii ''a'') (\<lambda>_. True) = Some 0"
    "select md5 (ring_new md5 srt three_hosts) (ascii ''b'') (\<lambda>_. True) = Some 0"
    "select md5 (ring_new md5 srt three_hosts) (ascii ''order-42'') (\<lambda>_. True) = Some 1"
    "select md5 (ring_new md5 srt three_hosts) (ascii ''user:1001'') (\<lambda>_. True) = Some 1"
    "select md5 (ring_new md5 srt three_hosts) (ascii ''dedupe-me'') (\<lambda>_. True) = Some 2"
    "select md5 (ring_new md5 srt three_hosts) (ascii ''x'') (\<lambda>_. True) = Some 1"
    "select md5 (ring_new md5 srt three_hosts) (ascii ''unique-7'') (\<lambda>_. True) = Some 2"
    "select md5 (ring_new md5 srt three_hosts) (ascii ''job/2026-10-19'') (\<lambda>_. True) = Some 2"
  unfolding golden_ring_1 [OF assms]
  by (rule select_from_hash, simp, rule golden_hashes [OF assms(1)], simp add: start_of_def)+

lemma golden_primary_2:
  assumes "md5_agrees md5" and "unstable_sort srt"
  shows "select md5 (ring_new md5 srt two_ports) (ascii ''a'') (\<lambda>_. True) = Some 1"
    "select md5 (ring_new md5 srt two_ports) (ascii ''b'') (\<lambda>_. True) = Some 0"
    "select md5 (ring_new md5 srt two_ports) (ascii ''order-42'') (\<lambda>_. True) = Some 1"
    "select md5 (ring_new md5 srt two_ports) (ascii ''user:1001'') (\<lambda>_. True) = Some 0"
    "select md5 (ring_new md5 srt two_ports) (ascii ''dedupe-me'') (\<lambda>_. True) = Some 0"
    "select md5 (ring_new md5 srt two_ports) (ascii ''x'') (\<lambda>_. True) = Some 0"
    "select md5 (ring_new md5 srt two_ports) (ascii ''unique-7'') (\<lambda>_. True) = Some 1"
    "select md5 (ring_new md5 srt two_ports) (ascii ''job/2026-10-19'') (\<lambda>_. True) = Some 1"
  unfolding golden_ring_2 [OF assms]
  by (rule select_from_hash, simp, rule golden_hashes [OF assms(1)], simp add: start_of_def)+

lemma golden_after:
  assumes "md5_agrees md5" and "unstable_sort srt"
  shows "next_after (ring_new md5 srt three_hosts) 0 = Some 1" "next_after (ring_new md5 srt three_hosts) 1 = Some 2"
    "next_after (ring_new md5 srt three_hosts) 2 = Some 0"
    "next_after (ring_new md5 srt two_ports) 0 = Some 1" "next_after (ring_new md5 srt two_ports) 1 = Some 0"
  unfolding golden_ring_1 [OF assms] golden_ring_2 [OF assms] by (simp_all add: next_after_def upt_rec)

text \<open>
  C12. The ring is libgearman's. For every digest function that gives MD5's values on the strings hashed, and
  every way the sort may treat equal points: on two server lists and eight unique ids each, the
  primary server and the server taken over to are the ones that libgearman 2.2.0 picks, as the
  crate's golden test lists them.
\<close>

theorem golden_test_passes:
  assumes "md5_agrees md5" and "unstable_sort srt"
  shows "matches_libgearman_golden_values md5 srt"
proof -
  note primary = golden_primary_1 [OF assms] golden_primary_2 [OF assms]
  show ?thesis
    unfolding matches_libgearman_golden_values_def golden_cases_def Let_def list.pred_inject prod.case
    by (intro conjI TrueI) (rule list.pred_inject(1) | rule primary | rule select_past, rule primary, rule golden_after [OF assms])+
qed

text \<open>The digests of the list, padded with zeros elsewhere.\<close>

definition listed_md5 :: "bytes \<Rightarrow> bytes" where
  "listed_md5 key = (case map_of golden_digests key of Some digest \<Rightarrow> digest | None \<Rightarrow> replicate 16 0)"

theorem golden_test_passes_witness: "matches_libgearman_golden_values listed_md5 (sort_key fst)"
proof -
  have "md5_agrees listed_md5" by (simp add: md5_agrees_def listed_md5_def golden_digests_def)
  from golden_test_passes [OF this stable.unstable_sort_axioms] show ?thesis .
qed

section \<open>The other tests\<close>

definition split_host_port_variants :: bool where
  "split_host_port_variants \<longleftrightarrow>
     split_host_port (ascii ''localhost:4730'') = (ascii ''localhost'', 4730)
     \<and> split_host_port (ascii ''10.0.0.1:04731'') = (ascii ''10.0.0.1'', 4731)
     \<and> split_host_port (ascii ''gearman'') = (ascii ''gearman'', 4730)
     \<and> split_host_port (ascii ''gearman:0'') = (ascii ''gearman'', 4730)
     \<and> split_host_port (ascii ''[::1]:4731'') = (ascii ''::1'', 4731)
     \<and> split_host_port (ascii ''[::1]'') = (ascii ''::1'', 4730)
     \<and> split_host_port (ascii ''::1'') = (ascii ''::1'', 4730)"

lemma split_host_port_test_passes: "split_host_port_variants"
  by (simp add: split_host_port_variants_def split_host_port_def rsplit_once_def split_once_def from_str_u16_def
      from_str_unsigned_def digits1_def is_digit_def DEFAULT_PORT_def)

definition md5_u32_matches_hashkit_md5 :: "(bytes \<Rightarrow> bytes) \<Rightarrow> bool" where
  "md5_u32_matches_hashkit_md5 md5 \<longleftrightarrow> md5_u32 md5 [] = 0xD98C1DD4"

lemma md5_u32_test_passes:
  assumes "md5 [] = [0xD4, 0x1D, 0x8C, 0xD9, 0x8F, 0x00, 0xB2, 0x04, 0xE9, 0x80, 0x09, 0x98, 0xEC, 0xF8, 0x42, 0x7E]"
  shows "md5_u32_matches_hashkit_md5 md5"
  using assms by (simp add: md5_u32_matches_hashkit_md5_def md5_u32_def from_le_bytes_def from_be_bytes_def)

definition abc :: "bytes list" where
  "abc = [ascii ''a:4730'', ascii ''b:4730'', ascii ''c:4730'']"

definition unique_name :: "nat \<Rightarrow> bytes" where
  "unique_name i = ascii ''unique-'' @ dec i"

definition ring_has_sixteen_points_per_server :: "(bytes \<Rightarrow> bytes) \<Rightarrow> (points \<Rightarrow> points) \<Rightarrow> bool" where
  "ring_has_sixteen_points_per_server md5 srt =
     (let ring = ring_new md5 srt abc in
      length ring = 48 \<and> list_all (\<lambda>(x, y). fst x \<le> fst y) (zip ring (tl ring)))"

definition selection_is_stable_and_independent_of_list_order ::
    "(bytes \<Rightarrow> bytes) \<Rightarrow> (points \<Rightarrow> points) \<Rightarrow> bool" where
  "selection_is_stable_and_independent_of_list_order md5 srt =
     (let forward = abc; reversed = rev abc; ring_f = ring_new md5 srt forward; ring_r = ring_new md5 srt reversed in
      list_all (\<lambda>i. let unique = unique_name i in
        case (select md5 ring_f unique (\<lambda>_. True), select md5 ring_r unique (\<lambda>_. True)) of
          (Some f, Some r) \<Rightarrow> forward ! f = reversed ! r \<and> select md5 ring_f unique (\<lambda>_. True) = Some f
        | _ \<Rightarrow> False) [0..<200])"

definition failover_follows_libgearman_after_con_walk :: "(bytes \<Rightarrow> bytes) \<Rightarrow> (points \<Rightarrow> points) \<Rightarrow> bool" where
  "failover_follows_libgearman_after_con_walk md5 srt =
     (let ring = ring_new md5 srt abc in
      list_all (\<lambda>i. let unique = unique_name i in
        case select md5 ring unique (\<lambda>_. True) of
          None \<Rightarrow> False
        | Some primary \<Rightarrow>
            (case next_after ring primary of
               None \<Rightarrow> False
             | Some expected \<Rightarrow> expected \<noteq> primary
                 \<and> select md5 ring unique (\<lambda>s. s \<noteq> primary) = Some expected)) [0..<200])"

definition falls_back_to_any_healthy_server_when_the_chain_cycles ::
    "(bytes \<Rightarrow> bytes) \<Rightarrow> (points \<Rightarrow> points) \<Rightarrow> bool" where
  "falls_back_to_any_healthy_server_when_the_chain_cycles md5 srt =
     (let ring = ring_new md5 srt abc in
      list_all (\<lambda>healthy. list_all (\<lambda>i. select md5 ring (unique_name i) (\<lambda>s. s = healthy) = Some healthy) [0..<50])
        [0..<3]
      \<and> select md5 ring (ascii ''x'') (\<lambda>_. False) = None)"

lemma ring_servers:
  assumes "unstable_sort srt" and "\<And>k. length (md5 k) = 16"
  shows "snd ` set (ring_new md5 srt servers) = {..< length servers}"
proof -
  have "addr_points md5 a \<noteq> []" for a
    using length_addr_points [of md5 a, OF assms(2)] by auto
  then have first: "hd (addr_points md5 a) \<in> set (addr_points md5 a)" for a by simp
  have "i \<in> snd ` set (ring_points md5 servers) \<longleftrightarrow> i < length servers" for i
  proof
    assume "i < length servers"
    with first have "(hd (addr_points md5 (servers ! i)), i) \<in> set (ring_points md5 servers)"
      by (simp add: ring_points_mem)
    then show "i \<in> snd ` set (ring_points md5 servers)" by (rule rev_image_eqI) simp
  qed (auto simp: ring_points_mem)
  then show ?thesis unfolding ring_new_def unstable_sort.srt_set [OF assms(1)] by blast
qed

lemma select_in_ring:
  assumes "unstable_sort srt" and "\<And>k. length (md5 k) = 16" and "p < length servers"
  obtains q where "select md5 (ring_new md5 srt servers) u (\<lambda>_. True) = Some q" "q < length servers"
proof -
  have "select md5 (ring_new md5 srt servers) u (\<lambda>_. True) \<noteq> None"
    unfolding select_None ring_servers [of srt md5, OF assms(1,2)] using assms(3) by auto
  then obtain q where q: "select md5 (ring_new md5 srt servers) u (\<lambda>_. True) = Some q" by blast
  from select_Some [OF q] have "q < length servers" unfolding ring_servers [of srt md5, OF assms(1,2)] by simp
  with q that show thesis by blast
qed

lemma next_after_other:
  assumes "p \<in> snd ` set ps" and "q \<in> snd ` set ps" and "q \<noteq> p"
  shows "\<exists>r. next_after ps p = Some r \<and> r \<noteq> p"
proof -
  let ?walk = "map snd (rotate (Suc (length (takeWhile (\<lambda>x. snd x \<noteq> p) ps))) ps)"
  have "q \<in> set ?walk" using assms(2) by (auto simp del: rotate_Suc)
  with assms(3) have "find (\<lambda>server. server \<noteq> p) ?walk \<noteq> None" unfolding find_None_set by blast
  then obtain r where "next_after ps p = Some r" unfolding next_after_con [OF assms(1)] after_con_def by blast
  with next_after_in_ring [OF this] show ?thesis by blast
qed

lemma ring_test_passes:
  assumes "unstable_sort srt" and "\<And>k. length (md5 k) = 16"
  shows "ring_has_sixteen_points_per_server md5 srt"
proof -
  have "sorted (map fst (ring_new md5 srt abc))" by (simp add: ring_new_def unstable_sort.srt_sorted [OF assms(1)])
  then have "list_all (\<lambda>(x, y). fst x \<le> fst y) (zip (ring_new md5 srt abc) (tl (ring_new md5 srt abc)))"
    by (auto simp: list_all_length nth_tl sorted_iff_nth_Suc)
  moreover have "length (ring_new md5 srt abc) = 48"
    unfolding ring_new_def unstable_sort.srt_length [OF assms(1)] ring_points_from
    using length_points_from [of md5 0 abc, OF assms(2)] by (simp add: abc_def)
  ultimately show ?thesis by (simp add: ring_has_sixteen_points_per_server_def Let_def)
qed

lemma failover_test_passes:
  assumes "unstable_sort srt" and "\<And>k. length (md5 k) = 16"
  shows "failover_follows_libgearman_after_con_walk md5 srt"
proof -
  let ?ring = "ring_new md5 srt abc"
  have "\<exists>p q. select md5 ?ring u (\<lambda>_. True) = Some p \<and> next_after ?ring p = Some q \<and> q \<noteq> p" for u
  proof -
    obtain p where p: "select md5 ?ring u (\<lambda>_. True) = Some p" "p < length abc"
      using select_in_ring [of srt md5 0 abc u, OF assms]
      by (auto simp: abc_def)
    have "p \<in> snd ` set ?ring" "(if p = 0 then 1 else 0) \<in> snd ` set ?ring"
      unfolding ring_servers [of srt md5, OF assms] using p(2) by (auto simp: abc_def)
    from next_after_other [OF this] p(1) show ?thesis by (auto split: if_splits)
  qed
  then have all: "\<exists>p q. select md5 ?ring u (\<lambda>_. True) = Some p \<and> next_after ?ring p = Some q \<and> q \<noteq> p
      \<and> select md5 ?ring u (\<lambda>s. s \<noteq> p) = Some q" for u
    using select_past by (metis (no_types, lifting))
  have "case select md5 ?ring u (\<lambda>_. True) of None \<Rightarrow> False | Some p \<Rightarrow>
      (case next_after ?ring p of None \<Rightarrow> False | Some q \<Rightarrow> q \<noteq> p \<and> select md5 ?ring u (\<lambda>s. s \<noteq> p) = Some q)" for u
    using all [of u] by auto
  then show ?thesis
    unfolding failover_follows_libgearman_after_con_walk_def Let_def list_all_iff by blast
qed

lemma fallback_test_passes:
  assumes "unstable_sort srt" and "\<And>k. length (md5 k) = 16"
  shows "falls_back_to_any_healthy_server_when_the_chain_cycles md5 srt"
proof -
  let ?ring = "ring_new md5 srt abc"
  have only: "select md5 ?ring u (\<lambda>s. s = h) = Some h" if "h < 3" for u h
  proof -
    have "select md5 ?ring u (\<lambda>s. s = h) \<noteq> None"
      unfolding select_None ring_servers [of srt md5, OF assms] using that by (auto simp: abc_def)
    then obtain s where "select md5 ?ring u (\<lambda>s. s = h) = Some s" by blast
    with select_Some [OF this] show ?thesis by simp
  qed
  then have "list_all (\<lambda>h. list_all (\<lambda>i. select md5 ?ring (unique_name i) (\<lambda>s. s = h) = Some h) [0..<50]) [0..<3]"
    by (simp add: list_all_iff)
  moreover have "select md5 ?ring u (\<lambda>_. False) = None" for u unfolding select_None by simp
  ultimately show ?thesis
    by (simp only: falls_back_to_any_healthy_server_when_the_chain_cycles_def Let_def simp_thms)
qed

lemma stability_test_passes:
  assumes "unstable_sort srt" and "\<And>k. length (md5 k) = 16" and "collision_free md5 abc"
  shows "selection_is_stable_and_independent_of_list_order md5 srt"
proof -
  have all: "\<exists>f r. select md5 (ring_new md5 srt abc) u (\<lambda>_. True) = Some f
      \<and> select md5 (ring_new md5 srt (rev abc)) u (\<lambda>_. True) = Some r \<and> abc ! f = rev abc ! r" for u
  proof -
    have ne: "abc \<noteq> []" "rev abc \<noteq> []" by (simp_all add: abc_def)
    obtain x where x: "owner (addr_labels md5 (set abc)) (md5_u32 md5 u) (fst x, abc ! snd x)"
      "select md5 (ring_new md5 srt abc) u (\<lambda>_. True) = Some (snd x)"
      by (rule select_owner_label [of srt md5, OF assms(1,2) ne(1)])
    obtain y where y: "owner (addr_labels md5 (set (rev abc))) (md5_u32 md5 u) (fst y, rev abc ! snd y)"
      "select md5 (ring_new md5 srt (rev abc)) u (\<lambda>_. True) = Some (snd y)"
      by (rule select_owner_label [of srt md5, OF assms(1,2) ne(2)])
    from owner_unique [OF x(1) y(1) [unfolded set_rev] labels_inj [OF assms(3)]] x(2) y(2) show ?thesis by auto
  qed
  have "case (select md5 (ring_new md5 srt abc) u (\<lambda>_. True), select md5 (ring_new md5 srt (rev abc)) u (\<lambda>_. True)) of
      (Some f, Some r) \<Rightarrow> abc ! f = rev abc ! r \<and> select md5 (ring_new md5 srt abc) u (\<lambda>_. True) = Some f
    | _ \<Rightarrow> False" for u
    using all [of u] by auto
  then show ?thesis
    unfolding selection_is_stable_and_independent_of_list_order_def Let_def list_all_iff by blast
qed

end
