(* ===== verification/Unit_Tests.thy ===== *)
theory Unit_Tests
  imports Admin_Tables Tls Actor Ketama_Tests
begin

text \<open>
  The crate's own unit tests (the \<^verbatim>\<open>tests\<close> modules of \<^verbatim>\<open>src\<close>) on the model: each test is a
  boolean definition that does what the test does, with its assertions as the value, and a lemma
  that evaluates it. They check the translation against what the authors expect of the code. The
  tests of \<^verbatim>\<open>client/ketama.rs\<close> are in Ketama_Tests.
\<close>

section \<open>Expectations\<close>

text \<open>\<^verbatim>\<open>expect\<close> and \<^verbatim>\<open>expect_err\<close>, with what is asserted of the value.\<close>

definition expect_ok :: "'a result \<Rightarrow> ('a \<Rightarrow> bool) \<Rightarrow> bool" where
  "expect_ok r P = (case r of Inr x \<Rightarrow> P x | Inl _ \<Rightarrow> False)"

definition expect_err :: "'a result \<Rightarrow> (gearman_error \<Rightarrow> bool) \<Rightarrow> bool" where
  "expect_err r P = (case r of Inr _ \<Rightarrow> False | Inl e \<Rightarrow> P e)"

definition is_admin_error :: "gearman_error \<Rightarrow> bool" where
  "is_admin_error e = (case e of AdminProtocolError _ \<Rightarrow> True | _ \<Rightarrow> False)"

text \<open>Fields with tabs between them.\<close>

fun tabbed :: "string list \<Rightarrow> bytes" where
  "tabbed [] = []"
| "tabbed [f] = ascii f"
| "tabbed (f # fs) = ascii f @ 9 # tabbed fs"

lemmas test_defs = expect_ok_def expect_err_def is_admin_error_def

section \<open>\<^verbatim>\<open>protocol/command.rs\<close>\<close>

definition try_from_u32_round_trips_for_every_variant :: bool where
  "try_from_u32_round_trips_for_every_variant =
     list_all (\<lambda>code. code = 5 \<or> expect_ok (try_from_u32 (of_nat code)) (\<lambda>t. packet_type_code t = of_nat code))
       [1..<unat COMMAND_MAX]"

definition try_from_u32_rejects_text_and_unused_codes :: bool where
  "try_from_u32_rejects_text_and_unused_codes \<longleftrightarrow>
     try_from_u32 0 = Inl (UnknownPacketType 0) \<and> try_from_u32 5 = Inl (UnknownPacketType 5)"

definition try_from_u32_rejects_codes_at_and_past_command_max :: bool where
  "try_from_u32_rejects_codes_at_and_past_command_max \<longleftrightarrow>
     try_from_u32 COMMAND_MAX = Inl (UnknownPacketType COMMAND_MAX)
     \<and> expect_err (try_from_u32 (COMMAND_MAX + 100)) (\<lambda>e. case e of UnknownPacketType _ \<Rightarrow> True | _ \<Rightarrow> False)"

definition arg_count_matches_protocol_field_layout :: bool where
  "arg_count_matches_protocol_field_layout \<longleftrightarrow>
     arg_count Noop = 0 \<and> arg_count EchoReq = 1 \<and> arg_count WorkComplete = 2 \<and> arg_count SubmitJob = 3
     \<and> arg_count SubmitJobEpoch = 4 \<and> arg_count SubmitReduceJob = 5 \<and> arg_count StatusResUnique = 6
     \<and> arg_count SubmitJobSched = 8"

lemma command_tests_pass:
  "try_from_u32_round_trips_for_every_variant"
  "try_from_u32_rejects_text_and_unused_codes"
  "try_from_u32_rejects_codes_at_and_past_command_max"
  "arg_count_matches_protocol_field_layout"
  by (simp_all add: try_from_u32_round_trips_for_every_variant_def try_from_u32_rejects_text_and_unused_codes_def
      try_from_u32_rejects_codes_at_and_past_command_max_def arg_count_matches_protocol_field_layout_def
      test_defs COMMAND_MAX_def upt_rec try_from_u32_def)

section \<open>\<^verbatim>\<open>tls.rs\<close>\<close>

text \<open>\<^verbatim>\<open>ServerName::try_from\<close> is given; the third test is about a name that it rejects.\<close>

definition strips_port_from_plain_host :: "(bytes \<Rightarrow> 'n option) \<Rightarrow> bool" where
  "strips_port_from_plain_host parse_name =
     expect_ok (server_name parse_name (ascii ''gearman.example.com:4730''))
       (\<lambda>name. parse_name (ascii ''gearman.example.com'') = Some name)"

definition strips_brackets_from_ipv6_literal :: "(bytes \<Rightarrow> 'n option) \<Rightarrow> bool" where
  "strips_brackets_from_ipv6_literal parse_name =
     expect_ok (server_name parse_name (ascii ''[::1]:4730'')) (\<lambda>name. parse_name (ascii ''::1'') = Some name)"

definition rejects_unparseable_host :: "(bytes \<Rightarrow> 'n option) \<Rightarrow> bool" where
  "rejects_unparseable_host parse_name =
     expect_err (server_name parse_name (ascii ''not a valid host:4730'')) (\<lambda>_. True)"

lemmas text_eval = strip_suffix_def split_once_def rsplit_once_def trim_start.simps split_ws.simps
  split_whitespace_def from_str_u64_def from_str_u32_def from_str_i32_def from_str_u16_def
  from_str_unsigned_def digits1_def is_digit_def

lemma tls_hosts:
  "host_of (ascii ''gearman.example.com:4730'') = ascii ''gearman.example.com''"
  "host_of (ascii ''[::1]:4730'') = ascii ''::1''"
  "host_of (ascii ''not a valid host:4730'') = ascii ''not a valid host''"
  by (simp_all add: host_of_def text_eval Let_def)

lemma tls_tests_pass:
  "parse_name (ascii ''gearman.example.com'') \<noteq> None \<Longrightarrow> strips_port_from_plain_host parse_name"
  "parse_name (ascii ''::1'') \<noteq> None \<Longrightarrow> strips_brackets_from_ipv6_literal parse_name"
  "parse_name (ascii ''not a valid host'') = None \<Longrightarrow> rejects_unparseable_host parse_name"
  unfolding strips_port_from_plain_host_def strips_brackets_from_ipv6_literal_def rejects_unparseable_host_def
    server_name_def tls_hosts test_defs
  by (simp_all split: option.split)

section \<open>\<^verbatim>\<open>admin/mod.rs\<close>\<close>

definition parse_ack_line_ok_without_value :: bool where
  "parse_ack_line_ok_without_value \<longleftrightarrow>
     parse_ack_line (ascii ''OK'') = Inr None"

definition parse_ack_line_ok_with_value :: bool where
  "parse_ack_line_ok_with_value \<longleftrightarrow>
     parse_ack_line (ascii ''OK 1234'') = Inr (Some (ascii ''1234''))"

definition parse_ack_line_err_splits_code_and_text :: bool where
  "parse_ack_line_err_splits_code_and_text \<longleftrightarrow>
     parse_ack_line (ascii ''ERR unknown_command Unknown server command'')
       = Inl (ServerError (ascii ''unknown_command'') (ascii ''Unknown server command''))"

definition parse_ack_line_err_without_text :: bool where
  "parse_ack_line_err_without_text \<longleftrightarrow>
     parse_ack_line (ascii ''ERR some_code'') = Inl (ServerError (ascii ''some_code'') [])"

definition parse_ack_line_neither_ok_nor_err_is_a_protocol_error :: bool where
  "parse_ack_line_neither_ok_nor_err_is_a_protocol_error \<longleftrightarrow>
     parse_ack_line (ascii ''garbage'') = Inl (AdminProtocolError (ascii ''garbage''))"

definition parse_status_line_valid :: bool where
  "parse_status_line_valid \<longleftrightarrow>
     expect_ok (parse_status_line (tabbed [''reverse'', ''3'', ''1'', ''2'']))
       (\<lambda>s. fs_function s = ascii ''reverse'' \<and> fs_total s = 3 \<and> fs_running s = 1 \<and> fs_worker_count s = 2)"

definition parse_status_line_missing_field_is_rejected :: bool where
  "parse_status_line_missing_field_is_rejected \<longleftrightarrow>
     expect_err (parse_status_line (tabbed [''reverse'', ''3'', ''1''])) is_admin_error"

definition parse_status_line_non_numeric_field_is_rejected :: bool where
  "parse_status_line_non_numeric_field_is_rejected \<longleftrightarrow>
     expect_err (parse_status_line (tabbed [''reverse'', ''NaN'', ''1'', ''2''])) is_admin_error"

definition parse_priority_status_line_valid :: bool where
  "parse_priority_status_line_valid \<longleftrightarrow>
     expect_ok (parse_priority_status_line (tabbed [''reverse'', ''1'', ''2'', ''3'', ''4'']))
       (\<lambda>s. ps_function s = ascii ''reverse'' \<and> ps_high s = 1 \<and> ps_normal s = 2 \<and> ps_low s = 3
         \<and> ps_worker_count s = 4)"

definition parse_job_list_line_flags_are_boolean :: bool where
  "parse_job_list_line_flags_are_boolean \<longleftrightarrow>
     expect_ok (parse_job_list_line (tabbed [''H:lap:1'', ''0'', ''1'', ''0'']))
       (\<lambda>e. jl_handle e = ascii ''H:lap:1'' \<and> jl_retries e = 0 \<and> jl_ignore_job e \<and> \<not> jl_queued e)"

definition parse_unique_job_line_with_handle :: bool where
  "parse_unique_job_line_with_handle \<longleftrightarrow>
     parse_unique_job_line (tabbed [''H:lap:1'', ''my-unique''])
       = \<lparr>uj_handle = Some (ascii ''H:lap:1''), uj_unique = ascii ''my-unique''\<rparr>"

definition parse_unique_job_line_unique_may_contain_tabs :: bool where
  "parse_unique_job_line_unique_may_contain_tabs \<longleftrightarrow>
     parse_unique_job_line (tabbed [''H:lap:1'', ''a'', ''b''])
       = \<lparr>uj_handle = Some (ascii ''H:lap:1''), uj_unique = tabbed [''a'', ''b'']\<rparr>"

definition parse_unique_job_line_pre_2_2_0_has_no_handle :: bool where
  "parse_unique_job_line_pre_2_2_0_has_no_handle \<longleftrightarrow>
     parse_unique_job_line (ascii ''my-unique'') = \<lparr>uj_handle = None, uj_unique = ascii ''my-unique''\<rparr>"

definition parse_worker_line_with_functions :: bool where
  "parse_worker_line_with_functions \<longleftrightarrow>
     expect_ok (parse_worker_line (ascii ''42 127.0.0.1 client1 : reverse echo''))
       (\<lambda>w. wi_fd w = 42 \<and> wi_ip w = ascii ''127.0.0.1'' \<and> wi_client_id w = ascii ''client1''
         \<and> wi_functions w = [ascii ''reverse'', ascii ''echo''])"

definition parse_worker_line_without_functions :: bool where
  "parse_worker_line_without_functions \<longleftrightarrow>
     expect_ok (parse_worker_line (ascii ''42 127.0.0.1 client1 :'')) (\<lambda>w. wi_functions w = [])"

definition parse_worker_line_ipv6_address_is_not_mistaken_for_delimiter :: bool where
  "parse_worker_line_ipv6_address_is_not_mistaken_for_delimiter \<longleftrightarrow>
     expect_ok (parse_worker_line (ascii ''7 2001:db8::1 client1 : reverse''))
       (\<lambda>w. wi_ip w = ascii ''2001:db8::1'' \<and> wi_functions w = [ascii ''reverse''])"

definition parse_worker_line_ipv6_loopback_address_is_not_mistaken_for_delimiter :: bool where
  "parse_worker_line_ipv6_loopback_address_is_not_mistaken_for_delimiter \<longleftrightarrow>
     expect_ok (parse_worker_line (ascii ''7 ::1 client1 : reverse''))
       (\<lambda>w. wi_ip w = ascii ''::1'' \<and> wi_functions w = [ascii ''reverse''])"

definition parse_worker_line_missing_delimiter_is_rejected :: bool where
  "parse_worker_line_missing_delimiter_is_rejected \<longleftrightarrow>
     expect_err (parse_worker_line (ascii ''42 127.0.0.1 client1 reverse'')) is_admin_error"

lemmas line_eval = text_eval test_defs parse_ack_line_def parse_status_line_def parse_priority_status_line_def
  parse_job_list_line_def parse_unique_job_line_def parse_worker_line_def next_field_def next_field2_def
  u64_field_def parse_u64_def parse_u32_def parse_i32_def Let_def

lemma admin_tests_pass:
  "parse_ack_line_ok_without_value"
  "parse_ack_line_ok_with_value"
  "parse_ack_line_err_splits_code_and_text"
  "parse_ack_line_err_without_text"
  "parse_ack_line_neither_ok_nor_err_is_a_protocol_error"
  "parse_status_line_valid"
  "parse_status_line_missing_field_is_rejected"
  "parse_status_line_non_numeric_field_is_rejected"
  "parse_priority_status_line_valid"
  "parse_job_list_line_flags_are_boolean"
  "parse_unique_job_line_with_handle"
  "parse_unique_job_line_unique_may_contain_tabs"
  "parse_unique_job_line_pre_2_2_0_has_no_handle"
  "parse_worker_line_with_functions"
  "parse_worker_line_without_functions"
  "parse_worker_line_ipv6_address_is_not_mistaken_for_delimiter"
  "parse_worker_line_ipv6_loopback_address_is_not_mistaken_for_delimiter"
  "parse_worker_line_missing_delimiter_is_rejected"
  by (simp_all add: line_eval
      parse_ack_line_ok_without_value_def
      parse_ack_line_ok_with_value_def
      parse_ack_line_err_splits_code_and_text_def
      parse_ack_line_err_without_text_def
      parse_ack_line_neither_ok_nor_err_is_a_protocol_error_def
      parse_status_line_valid_def
      parse_status_line_missing_field_is_rejected_def
      parse_status_line_non_numeric_field_is_rejected_def
      parse_priority_status_line_valid_def
      parse_job_list_line_flags_are_boolean_def
      parse_unique_job_line_with_handle_def
      parse_unique_job_line_unique_may_contain_tabs_def
      parse_unique_job_line_pre_2_2_0_has_no_handle_def
      parse_worker_line_with_functions_def
      parse_worker_line_without_functions_def
      parse_worker_line_ipv6_address_is_not_mistaken_for_delimiter_def
      parse_worker_line_ipv6_loopback_address_is_not_mistaken_for_delimiter_def
      parse_worker_line_missing_delimiter_is_rejected_def)

section \<open>\<^verbatim>\<open>client/mod.rs\<close>\<close>

text \<open>
  A test makes channels, of which it drops some receivers: here the channels are numbers and the
  dropped ones a predicate. What a receiver reads are the events sent on its channel.
\<close>

definition entry_add :: "bytes \<Rightarrow> chan \<Rightarrow> job_event_subscribers \<Rightarrow> job_event_subscribers" where
  "entry_add handle sender je =
     je(handle \<mapsto> add (case je handle of Some subs \<Rightarrow> subs | None \<Rightarrow> subscribers_default) sender)"

definition work_packet :: "packet_type \<Rightarrow> string \<Rightarrow> packet" where
  "work_packet t txt = response t [ascii ''H:t:1'', ascii txt]"

fun dispatch_all :: "job_event_subscribers \<Rightarrow> packet list \<Rightarrow> job_event_subscribers \<times> actor_output list" where
  "dispatch_all je [] = (je, [])"
| "dispatch_all je (p # ps) =
     (case dispatch_work_event p je of (je', out) \<Rightarrow>
        (case dispatch_all je' ps of (je'', out') \<Rightarrow> (je'', out @ out')))"

definition received :: "chan \<Rightarrow> actor_output list \<Rightarrow> job_event list" where
  "received rx out = events_to rx (events out)"

definition closed_job_event_senders_get_released_but_keep_their_slot :: bool where
  "closed_job_event_senders_get_released_but_keep_their_slot =
     (let je = entry_add (ascii ''H:dropped:1'') 1 (entry_add (ascii ''H:open:1'') 0 Map.empty);
          je = prune_closed_subscribers (\<lambda>c. c = 1) je
      in case (je (ascii ''H:open:1''), je (ascii ''H:dropped:1'')) of
           (Some opened, Some dropped) \<Rightarrow>
             hs_slots opened ! 0 \<noteq> None \<and> length (hs_slots dropped) = 1 \<and> hs_slots dropped ! 0 = None
         | _ \<Rightarrow> False)"

definition rejoining_after_all_streams_dropped_gets_each_event_once :: bool where
  "rejoining_after_all_streams_dropped_gets_each_event_once =
     (let je = prune_closed_subscribers (\<lambda>c. c = 0) (entry_add (ascii ''H:t:1'') 0 Map.empty);
          je = entry_add (ascii ''H:t:1'') 1 je;
          (je, out) = dispatch_all je
            [work_packet WorkData ''chunk'', work_packet WorkData ''chunk'',
             work_packet WorkComplete ''done'', work_packet WorkComplete ''done'']
      in received 1 out = [Data (ascii ''chunk''), Complete (ascii ''done'')] \<and> je = Map.empty)"

definition coalesced_job_copies_go_one_per_subscriber :: bool where
  "coalesced_job_copies_go_one_per_subscriber =
     (let je = entry_add (ascii ''H:t:1'') 1 (entry_add (ascii ''H:t:1'') 0 Map.empty);
          (je, out) = dispatch_all je
            [work_packet WorkData ''one'', work_packet WorkData ''one'',
             work_packet WorkData ''two'', work_packet WorkData ''two'',
             work_packet WorkComplete ''done'', work_packet WorkComplete ''done'']
      in je = Map.empty
         \<and> list_all (\<lambda>rx. received rx out
              = [Data (ascii ''one''), Data (ascii ''two''), Complete (ascii ''done'')]) [0, 1])"

definition subscriber_joining_mid_job_gets_only_later_events :: bool where
  "subscriber_joining_mid_job_gets_only_later_events =
     (let (je, out1) = dispatch_all (entry_add (ascii ''H:t:1'') 0 Map.empty) [work_packet WorkData ''early''];
          (je, out2) = dispatch_all (entry_add (ascii ''H:t:1'') 1 je)
            [work_packet WorkData ''late'', work_packet WorkData ''late'']
      in received 0 (out1 @ out2) = [Data (ascii ''early''), Data (ascii ''late'')]
         \<and> received 1 (out1 @ out2) = [Data (ascii ''late'')])"

lemma work_packet_arg [simp]: "arg_str (work_packet t txt) 0 = Some (ascii ''H:t:1'')"
  by (simp add: work_packet_def arg_str_def arg_def)

lemma work_packet_event:
  "work_event (work_packet WorkData txt) = Some (Data (ascii txt))"
  "work_event (work_packet WorkComplete txt) = Some (Complete (ascii txt))"
  "ptype (work_packet t txt) = t"
  by (simp_all add: work_packet_def work_event_def arg_or_empty_def arg_def)

lemmas subscriber_eval = entry_add_def dispatch_work_event_def work_packet_event add_def subscribers_default_def
  deliver_def swap_remove_def prune_closed_subscribers_def prune_slots_def Let_def received_def events_to_def

lemma subscriber_tests_pass:
  "closed_job_event_senders_get_released_but_keep_their_slot"
  "rejoining_after_all_streams_dropped_gets_each_event_once"
  "coalesced_job_copies_go_one_per_subscriber"
  "subscriber_joining_mid_job_gets_only_later_events"
  by (simp_all add: subscriber_eval fun_eq_iff
      closed_job_event_senders_get_released_but_keep_their_slot_def
      rejoining_after_all_streams_dropped_gets_each_event_once_def
      coalesced_job_copies_go_one_per_subscriber_def
      subscriber_joining_mid_job_gets_only_later_events_def)

end
