(* ===== verification/Spec2Isabelle.thy ===== *)
theory Spec2Isabelle
  imports Whole_Client Whole_System Server_Queue Stream_Life Typing Examples Unit_Tests
begin

text \<open>
  A model of gearman-rs, an asynchronous client, worker and admin library for the Gearman job server
  (the crate's sources are under \<^verbatim>\<open>src/src\<close>; paths below are relative to it).

  \<^bold>\<open>The program and its parts.\<close> A \<^emph>\<open>client\<close> (\<^verbatim>\<open>client/mod.rs\<close>) keeps one task per job server. A call
  such as \<^verbatim>\<open>submit\<close> picks a server from the pool (\<^verbatim>\<open>client/multi.rs\<close>, by rotation or by the
  consistent-hash ring of \<^verbatim>\<open>client/ketama.rs\<close>), and sends the server's task a command with a oneshot
  for the reply and, for a foreground job, a channel for the job's events. The task connects,
  negotiates options and runs the connection actor, which writes the commands' packets, matches
  replies to requests in order, and hands the \<^verbatim>\<open>WORK_*\<close> packets to the subscribers of their job
  handle; when the connection is lost it fails what is in flight and reconnects after a delay. A
  \<^emph>\<open>worker\<close> (\<^verbatim>\<open>worker/mod.rs\<close>, \<^verbatim>\<open>worker/job.rs\<close>, \<^verbatim>\<open>worker/registry.rs\<close>) runs grab-loop tasks that
  register functions, grab jobs, run handlers and send their reports. Both speak packets
  (\<^verbatim>\<open>protocol/command.rs\<close>, \<^verbatim>\<open>protocol/header.rs\<close>, \<^verbatim>\<open>protocol/packet.rs\<close>) through the codec
  (\<^verbatim>\<open>protocol/codec.rs\<close>) of a connection (\<^verbatim>\<open>conn.rs\<close>) over TCP or TLS (\<^verbatim>\<open>net.rs\<close>, \<^verbatim>\<open>tls.rs\<close>). The
  \<^emph>\<open>admin client\<close> (\<^verbatim>\<open>admin/mod.rs\<close>) speaks a line protocol of its own.

  \<^bold>\<open>Theories.\<close>
  \<^item> Prelude, Rust_Text, Rust_Int: bytes, big-endian integers, and the parts of the standard library
    the program uses on text (UTF-8 validity, splitting, trimming, decimal numbers).
  \<^item> Errors, Command, Packet, Codec: \<^verbatim>\<open>error.rs\<close> and \<^verbatim>\<open>protocol\<close>. A string is its UTF-8 bytes; a
    packet is a record of magic, type and arguments. \<open>decode\<close> and \<open>encode\<close> take and return the buffer.
  \<^item> Framing: the contract between a codec and a reader that gets the stream in pieces (locale
    \<open>framing\<close>, interpreted in Codec).
  \<^item> Machine, Reconnect: event loops as step functions over explicit inputs, with invariants (locale
    \<open>event_loop\<close>) and typing disciplines (locale \<open>typed_loop\<close>), and the reconnect discipline of both
    kinds of task (locale \<open>reconnecting\<close>).
  \<^item> Ketama, Server_Pool: the ring (locale \<open>unstable_sort\<close> for \<^verbatim>\<open>sort_unstable_by_key\<close>; MD5 is an
    argument) and the pool (locale \<open>server_selection\<close>).
  \<^item> Client_Job, Subscribers, Actor, Actor_Streams, Server_Actor, Client: jobs, events and statuses;
    \<^verbatim>\<open>HandleSubscribers\<close>; \<^verbatim>\<open>actor_loop\<close> with what it calls, one input per turn of its \<^verbatim>\<open>select!\<close>; the
    streams of single submissions; \<^verbatim>\<open>run_server_actor\<close>; the builder and the methods of \<^verbatim>\<open>Client\<close>.
  \<^item> Connection, Tls: a connection and its codec, \<^verbatim>\<open>send\<close> and \<^verbatim>\<open>recv\<close>, and how a server is reached and
    under which name its certificate is checked.
  \<^item> Worker_Job, Worker, Worker_Pool: a job, its reports and its dispatch; the builder and the life of a
    grab-loop task, one step between two awaits, with \<^verbatim>\<open>unregister\<close> and \<^verbatim>\<open>shutdown\<close> falling
    anywhere; and all tasks of a worker with the registry and the flag they share.
  \<^item> Admin, Admin_Tables: the admin commands; reading of lines, tables and rows (locale \<open>row_format\<close>,
    one interpretation per kind of row).
  \<^item> Whole_Client, Whole_Job: a client's calls, and the wait of \<^verbatim>\<open>connect\<close>, over the states of all its
    server tasks; one job through client, server and worker.
  \<^item> Whole_System: the same job through the tasks that carry it, \<^verbatim>\<open>run_server_actor\<close> and \<^verbatim>\<open>run_grab_loop\<close>,
    in each grab mode. Server_Queue: the channel of a server task that has no connection, and what is
    written when it has one again.
  \<^item> Stream_Life: the life of one event stream over all connections of a server task, as an inductive
    relation between the stages of its sender.
  \<^item> Typing: which packets each role sends, with how many arguments (two interpretations of
    \<open>typed_loop\<close>; the commands a client makes are an inductive predicate).
  \<^item> Examples: the programs under \<^verbatim>\<open>examples\<close>. Ketama_Tests, Unit_Tests: the crate's unit tests as
    boolean definitions, and that the model passes them.

  \<^bold>\<open>How state and operations correspond.\<close> Each task's local variables and the shared flags it touches
  are one record (\<open>actor\<close>, \<open>server\<close>, \<open>worker_conn\<close>); the point where a task is suspended is a phase.
  What completes an await (a packet, an error, a tick, a command, the end of a sleep) is an input; the
  packets, replies, events and sleeps a step causes are its outputs, in order. Channels and oneshots
  are natural numbers given by the caller. An error is the left side of a sum with the crate's error
  type; a panic is \<^const>\<open>None\<close> where a call can have one.

  \<^bold>\<open>What the lemmas show.\<close> The codec and the argument splitting are inverse to each other and bounded,
  for any cut of the stream, and what the tasks send is typed, so that only the payload cap can stop
  it; requests are settled exactly once, across reconnects, and in order while a connection lasts; each
  submission's stream gets its events exactly once and ends once, also when its connection is lost;
  selection is sound, complete and fair, follows the consistent-hashing rule and libgearman's whole
  fail-over order, and agrees with libgearman on the crate's golden cases; tasks reconnect with the
  documented delays, and the worker's task ends after a shutdown; the server's view of a worker's
  functions is backed by the registry up to two kinds of lost notification, which are characterised;
  the admin client reads back what the server prints, and what it makes of any stream, of lines and of
  tables, is stated exactly, the table that is cut off after a leading dot included. Some
  theorems state behaviour that falls short of the documentation; they say so.

  \<^bold>\<open>Bounds and fuel.\<close> The only fuel is in \<open>drain\<close> (Framing), one more than the bytes in the buffer; every
  packet takes at least one byte, so it never runs out on a stream of packets. Everything else is
  structural or has a termination proof. Integers that can wrap are words; lengths and delays are
  natural numbers, with the conversions of the source written out.

  \<^bold>\<open>Other crates.\<close> Sockets, the TLS handshake, \<^verbatim>\<open>ServerName::try_from\<close>, MD5, timers and the scheduler are
  arguments or inputs. Of tokio's channels the documented behaviour is used: an unbounded channel
  keeps its messages in order, a watched flag is read at its latest value, and a broadcast receiver
  keeps the newest 16 messages, loses the oldest beyond that and reports the loss once.

  \<^bold>\<open>Not modelled.\<close> Log output, the texts of errors and buffer capacities have no effect on results;
  \<^verbatim>\<open>lib.rs\<close> and \<^verbatim>\<open>protocol/mod.rs\<close> only declare modules; of the unit tests,
  \<^verbatim>\<open>every_server_gets_some_uniques\<close> counts over 3000 MD5 digests and is left out; the job server
  itself is not part of the crate, and where a theorem needs it, what it is assumed to do is an
  argument or a definition of the theorem's theory that says so.

  \<^bold>\<open>Plan.\<close> Next: the server pool under flags that change between two reads of one selection, and the
  integration tests' fake servers as traces of the tasks.
\<close>

end
